(* ===== verification/Prelude.thy ===== *)
theory Prelude
  imports Main "HOL-Library.Word" "HOL-Library.AList"
begin

text \<open>
  Shared vocabulary of the development: what a Go statement can do besides
  returning (panic, or never return), Go slices indexed by \<open>int\<close>, Go maps as
  association lists whose order is the order of the \<open>range\<close> loop, signed 64-bit
  values, and the generic lemmas on them that the component theories rely on.
\<close>

section \<open>Theorem collections\<close>

named_theorems go_simps \<open>evaluation rules of the Go-level operations\<close>
named_theorems frame_simps \<open>what an operation leaves unchanged\<close>
named_theorems inv_intros \<open>preservation of component invariants\<close>

section \<open>Panics and non-termination\<close>

text \<open>
  A Go call returns, panics (a run-time error, an explicit \<open>panic\<close> or
  \<open>log.Fatal\<close>), or never returns. \<open>'a res\<close> is the result of code that
  always stops; \<open>'a go\<close> adds \<open>None\<close> for code that never returns.
\<close>

datatype go_error = Index_out_of_range | Nil_dereference | Panicked string | Fatal string

type_synonym 'a res = "go_error + 'a"
type_synonym 'a go = "'a res option"

definition bind_res :: "'a res \<Rightarrow> ('a \<Rightarrow> 'b res) \<Rightarrow> 'b res" where
  "bind_res m f = (case m of Inl e \<Rightarrow> Inl e | Inr a \<Rightarrow> f a)"

definition bind_go :: "'a go \<Rightarrow> ('a \<Rightarrow> 'b go) \<Rightarrow> 'b go" where
  "bind_go m f = (case m of None \<Rightarrow> None | Some (Inl e) \<Rightarrow> Some (Inl e) | Some (Inr a) \<Rightarrow> f a)"

definition map_res :: "('a \<Rightarrow> 'b) \<Rightarrow> 'a res \<Rightarrow> 'b res" where
  "map_res f m = bind_res m (\<lambda>a. Inr (f a))"

definition return_go :: "'a \<Rightarrow> 'a go" where
  "return_go a = Some (Inr a)"

definition ok :: "'a res \<Rightarrow> bool" where
  "ok m \<longleftrightarrow> (case m of Inl _ \<Rightarrow> False | Inr _ \<Rightarrow> True)"

lemma bind_res_simps [simp, go_simps]:
  "bind_res (Inl e) f = Inl e"
  "bind_res (Inr a) f = f a"
  by (simp_all add: bind_res_def)

lemma bind_go_simps [simp, go_simps]:
  "bind_go None f = None"
  "bind_go (Some (Inl e)) f = Some (Inl e)"
  "bind_go (Some (Inr a)) f = f a"
  "bind_go (return_go a) f = f a"
  by (simp_all add: bind_go_def return_go_def)

lemma map_res_simps [simp, go_simps]:
  "map_res f (Inl e) = Inl e"
  "map_res f (Inr a) = Inr (f a)"
  by (simp_all add: map_res_def)

lemma ok_simps [simp, go_simps]: "\<not> ok (Inl e)" "ok (Inr a)"
  by (simp_all add: ok_def)

lemma bind_res_Inr: "bind_res m f = Inr b \<longleftrightarrow> (\<exists>a. m = Inr a \<and> f a = Inr b)"
  by (cases m) simp_all

lemma bind_res_Inl: "bind_res m f = Inl e \<longleftrightarrow> m = Inl e \<or> (\<exists>a. m = Inr a \<and> f a = Inl e)"
  by (cases m) simp_all

lemma bind_res_split:
  "P (bind_res m f) \<longleftrightarrow> (\<forall>e. m = Inl e \<longrightarrow> P (Inl e)) \<and> (\<forall>a. m = Inr a \<longrightarrow> P (f a))"
  by (cases m) simp_all

lemma map_res_Inr: "map_res f m = Inr b \<longleftrightarrow> (\<exists>a. m = Inr a \<and> b = f a)"
  by (cases m) auto

lemma ok_iff: "ok m \<longleftrightarrow> (\<exists>a. m = Inr a)"
  by (cases m) simp_all

lemma bind_go_return:
  "bind_go m f = Some (Inr b) \<longleftrightarrow> (\<exists>a. m = Some (Inr a) \<and> f a = Some (Inr b))"
  by (auto simp: bind_go_def split: option.splits sum.splits)

section \<open>Slices\<close>

text \<open>Index and slice expressions; out of range they panic.\<close>

definition len :: "'a list \<Rightarrow> int" where
  "len xs = int (length xs)"

definition idx :: "'a list \<Rightarrow> int \<Rightarrow> 'a res" where
  "idx xs i = (if 0 \<le> i \<and> i < len xs then Inr (xs ! nat i) else Inl Index_out_of_range)"

definition upd :: "'a list \<Rightarrow> int \<Rightarrow> 'a \<Rightarrow> 'a list res" where
  "upd xs i x = (if 0 \<le> i \<and> i < len xs then Inr (xs[nat i := x]) else Inl Index_out_of_range)"

text \<open>\<open>xs[i:]\<close> and \<open>xs[:i]\<close>.\<close>

definition slice_from :: "'a list \<Rightarrow> int \<Rightarrow> 'a list res" where
  "slice_from xs i = (if 0 \<le> i \<and> i \<le> len xs then Inr (drop (nat i) xs) else Inl Index_out_of_range)"

definition slice_to :: "'a list \<Rightarrow> int \<Rightarrow> 'a list res" where
  "slice_to xs i = (if 0 \<le> i \<and> i \<le> len xs then Inr (take (nat i) xs) else Inl Index_out_of_range)"

lemma len_simps [simp, go_simps]:
  "len [] = 0"
  "len (x # xs) = 1 + len xs"
  "len (xs @ ys) = len xs + len ys"
  "0 \<le> len xs"
  "len (xs[n := x]) = len xs"
  "nat (len xs) = length xs"
  "len (map f xs) = len xs"
  "len (replicate n x) = int n"
  by (simp_all add: len_def)

lemma len_eq_0 [simp]: "len xs = 0 \<longleftrightarrow> xs = []"
  by (simp add: len_def)

lemma len_pos [simp]: "0 < len xs \<longleftrightarrow> xs \<noteq> []"
  by (simp add: len_def)

lemma idx_in [go_simps]: "0 \<le> i \<Longrightarrow> i < len xs \<Longrightarrow> idx xs i = Inr (xs ! nat i)"
  by (simp add: idx_def)

lemma idx_int [go_simps]: "n < length xs \<Longrightarrow> idx xs (int n) = Inr (xs ! n)"
  by (simp add: idx_def len_def)

lemma idx_last [go_simps]: "xs \<noteq> [] \<Longrightarrow> idx xs (len xs - 1) = Inr (last xs)"
  by (cases xs rule: rev_cases) (simp_all add: idx_def)

lemma idx_Inr: "idx xs i = Inr x \<longleftrightarrow> 0 \<le> i \<and> i < len xs \<and> x = xs ! nat i"
  by (auto simp: idx_def)

lemma upd_Inr: "upd xs i x = Inr ys \<longleftrightarrow> 0 \<le> i \<and> i < len xs \<and> ys = xs[nat i := x]"
  by (auto simp: upd_def)

lemma slice_from_Inr: "slice_from xs i = Inr ys \<longleftrightarrow> 0 \<le> i \<and> i \<le> len xs \<and> ys = drop (nat i) xs"
  by (auto simp: slice_from_def)

lemma slice_to_Inr: "slice_to xs i = Inr ys \<longleftrightarrow> 0 \<le> i \<and> i \<le> len xs \<and> ys = take (nat i) xs"
  by (auto simp: slice_to_def)

lemmas slice_Inr = idx_Inr upd_Inr slice_from_Inr slice_to_Inr

section \<open>Range loops\<close>

text \<open>
  \<open>for x := range xs { body }\<close> over a state, stopping at the first panic.
\<close>

fun for_res :: "'a list \<Rightarrow> ('a \<Rightarrow> 's \<Rightarrow> 's res) \<Rightarrow> 's \<Rightarrow> 's res" where
  "for_res [] body s = Inr s"
| "for_res (x # xs) body s = bind_res (body x s) (for_res xs body)"

text \<open>The same loop when the body may also never return.\<close>

fun for_go :: "'a list \<Rightarrow> ('a \<Rightarrow> 's \<Rightarrow> 's go) \<Rightarrow> 's \<Rightarrow> 's go" where
  "for_go [] body s = return_go s"
| "for_go (x # xs) body s = bind_go (body x s) (for_go xs body)"

text \<open>A loop whose body never panics on states satisfying \<open>P\<close> keeps \<open>P\<close> and returns.\<close>

lemma for_res_inv:
  assumes "\<And>x s. x \<in> set xs \<Longrightarrow> P s \<Longrightarrow> \<exists>s'. body x s = Inr s' \<and> P s'" and "P s"
  shows "\<exists>s'. for_res xs body s = Inr s' \<and> P s'"
  using assms
proof (induction xs arbitrary: s)
  case Nil
  then show ?case by simp
next
  case (Cons x xs)
  then obtain s1 where "body x s = Inr s1" "P s1" by force
  with Cons show ?case by force
qed

lemma for_res_append:
  "for_res (xs @ ys) body s = bind_res (for_res xs body s) (for_res ys body)"
  by (induction xs arbitrary: s) (auto simp: bind_res_def split: sum.splits)

text \<open>The indices of a slice of length \<open>n\<close>, as \<open>range\<close> enumerates them.\<close>

definition indices :: "nat \<Rightarrow> int list" where
  "indices n = map int [0..<n]"

lemma set_indices [simp]: "set (indices n) = {0..<int n}"
  by (auto simp: indices_def image_iff intro!: bexI[of _ "nat _"])

lemma length_indices [simp]: "length (indices n) = n"
  by (simp add: indices_def)

lemma distinct_indices [simp]: "distinct (indices n)"
  by (simp add: indices_def distinct_map)

lemma indices_Suc: "indices (Suc n) = indices n @ [int n]"
  by (simp add: indices_def)

text \<open>Overwriting every slot of a slice, one index after the other.\<close>

lemma for_res_fill:
  "for_res (indices n) (\<lambda>i xs. upd xs i v) xs =
     (if n \<le> length xs then Inr (replicate n v @ drop n xs) else Inl Index_out_of_range)"
proof (induction n)
  case 0
  then show ?case by (simp add: indices_def)
next
  case (Suc n)
  show ?case
  proof (cases "n < length xs")
    case True
    then have "(replicate n v @ drop n xs)[n := v] = replicate (Suc n) v @ drop (Suc n) xs"
      by (simp add: list_update_append Cons_nth_drop_Suc [symmetric] replicate_append_same)
    with True Suc show ?thesis
      by (simp add: indices_Suc for_res_append upd_def len_def)
  next
    case False
    with Suc show ?thesis
      by (auto simp: indices_Suc for_res_append upd_def len_def)
  qed
qed

section \<open>Machines and their runs\<close>

text \<open>
  A component that reacts to events: a step is disabled (\<open>None\<close>), panics, or gives
  an output and the next state. \<open>runs step legal es s\<close> performs the events
  \<open>es\<close>; it is \<open>None\<close> if one of them was not legal or not enabled.
\<close>

fun runs :: "('e \<Rightarrow> 's \<Rightarrow> ('o \<times> 's) res option) \<Rightarrow> ('e \<Rightarrow> 's \<Rightarrow> bool) \<Rightarrow> 'e list \<Rightarrow> 's \<Rightarrow> 's res option"
where
  "runs step legal [] s = Some (Inr s)"
| "runs step legal (e # es) s =
     (if \<not> legal e s then None
      else case step e s of
             None \<Rightarrow> None
           | Some (Inl err) \<Rightarrow> Some (Inl err)
           | Some (Inr (out, s')) \<Rightarrow> runs step legal es s')"

lemma runs_Cons:
  "runs step legal (e # es) s = Some (Inr s') \<longleftrightarrow>
     legal e s \<and> (\<exists>out s1. step e s = Some (Inr (out, s1)) \<and> runs step legal es s1 = Some (Inr s'))"
  by (auto split: option.splits sum.splits)

lemma runs_step:
  "legal e s \<Longrightarrow> step e s = Some (Inr (out, s1)) \<Longrightarrow> runs step legal (e # es) s = runs step legal es s1"
  by simp

lemma runs_append:
  "runs step legal (xs @ ys) s =
     (case runs step legal xs s of None \<Rightarrow> None | Some (Inl err) \<Rightarrow> Some (Inl err) | Some (Inr s') \<Rightarrow> runs step legal ys s')"
  by (induction xs arbitrary: s) (auto split: option.splits sum.splits)

text \<open>The contract of an invariant, and of one that also excludes panics.\<close>

locale invariant_machine =
  fixes step :: "'e \<Rightarrow> 's \<Rightarrow> ('o \<times> 's) res option"
    and legal :: "'e \<Rightarrow> 's \<Rightarrow> bool"
    and inv :: "'s \<Rightarrow> bool"
  assumes step_inv: "inv s \<Longrightarrow> legal e s \<Longrightarrow> step e s = Some (Inr (out, s')) \<Longrightarrow> inv s'"
begin

lemma runs_inv: "inv s \<Longrightarrow> runs step legal es s = Some (Inr s') \<Longrightarrow> inv s'"
proof (induction es arbitrary: s)
  case (Cons e es)
  then show ?case by (auto split: if_splits option.splits sum.splits prod.splits dest: step_inv)
qed simp

end

locale safe_machine = invariant_machine +
  assumes step_no_panic: "inv s \<Longrightarrow> legal e s \<Longrightarrow> step e s \<noteq> Some (Inl err)"
begin

lemma runs_no_panic: "inv s \<Longrightarrow> runs step legal es s \<noteq> Some (Inl err)"
proof (induction es arbitrary: s)
  case (Cons e es)
  then show ?case
    by (auto split: if_splits option.splits sum.splits prod.splits dest: step_inv simp: step_no_panic)
qed simp

lemma runs_safe: "inv s \<Longrightarrow> runs step legal es s = Some r \<Longrightarrow> \<exists>s'. r = Inr s' \<and> inv s'"
  by (cases r) (auto simp: runs_no_panic dest: runs_inv)

end

locale monotone_machine = invariant_machine +
  fixes level :: "'s \<Rightarrow> int"
  assumes step_level: "inv s \<Longrightarrow> legal e s \<Longrightarrow> step e s = Some (Inr (out, s')) \<Longrightarrow> level s \<le> level s'"
begin

lemma runs_level: "inv s \<Longrightarrow> runs step legal es s = Some (Inr s') \<Longrightarrow> level s \<le> level s'"
proof (induction es arbitrary: s)
  case (Cons e es)
  from Cons.prems obtain out s1 where s1: "legal e s" "step e s = Some (Inr (out, s1))"
    "runs step legal es s1 = Some (Inr s')"
    by (auto split: if_splits option.splits sum.splits prod.splits)
  with Cons step_inv step_level show ?case by (meson order_trans)
qed simp

end

end
