(* ===== verification/RaftState.thy ===== *)
theory RaftState
  imports Prelude
begin

text \<open>
  The state of one Raft peer (\<open>mp2/src/raft/raft.go\<close>): the log entries, the
  timers, the \<open>Raft\<close> struct, the role changes, the delivery of committed entries
  on the apply channel, and \<open>Make\<close>, \<open>Kill\<close>, \<open>GetState\<close>.
  Go's \<open>int\<close> terms and indices are HOL integers: they only ever grow by one per
  election or per command, so the 64-bit bound is out of reach of any run.
  The mutex is not modelled as a value: every definition below is one section of code
  that runs between \<open>rf.mu.Lock()\<close> and \<open>rf.mu.Unlock()\<close>, and steps of
  different goroutines interleave between such sections only.
\<close>

section \<open>Constants and messages\<close>

datatype role = LEADER | CANDIDATE | FOLLOWER

definition NULL :: int where "NULL = -1"
definition ELECTIONTIMEOUT_MAX :: int where "ELECTIONTIMEOUT_MAX = 400"
definition ELECTIONTIMEOUT_MIN :: int where "ELECTIONTIMEOUT_MIN = 200"

text \<open>
  A command is Go's \<open>interface{}\<close>: \<open>None\<close> is \<open>nil\<close>, the command of the
  zero entry that \<open>make([]LogEntry, 1)\<close> puts at index 0.
\<close>

record 'c LogEntry =
  entryTerm :: int
  Command :: "'c option"

record 'c ApplyMsg =
  CommandValid :: bool
  ApplyCommand :: "'c option"
  CommandIndex :: int

section \<open>Timers\<close>

text \<open>
  A \<open>time.Timer\<close> is running or not, and its channel of capacity one holds a tick or
  not. \<open>Stop\<close> reports whether it stopped a running timer and leaves the channel
  alone. Durations are not part of the state: when a running timer fires is up to the
  scheduler (\<open>timer_fire\<close>).
\<close>

record Timer =
  running :: bool
  tick :: bool

definition timer_New :: Timer where
  "timer_New = \<lparr>running = True, tick = False\<rparr>"

definition timer_Stop :: "Timer \<Rightarrow> bool \<times> Timer" where
  "timer_Stop t = (running t, t\<lparr>running := False\<rparr>)"

definition timer_Reset :: "Timer \<Rightarrow> Timer" where
  "timer_Reset t = t\<lparr>running := True\<rparr>"

definition timer_fire :: "Timer \<Rightarrow> Timer" where
  "timer_fire t = (if running t then \<lparr>running = False, tick = True\<rparr> else t)"

text \<open>\<open>resetTimer\<close>: stop, drain the channel if the timer had already gone off, restart.\<close>

definition resetTimer :: "Timer \<Rightarrow> Timer" where
  "resetTimer t =
     (let (stopped, t1) = timer_Stop t;
          t2 = (if \<not> stopped then t1\<lparr>tick := False\<rparr> else t1)
      in timer_Reset t2)"

text \<open>
  \<open>randomTimeoutVal\<close>: a duration in nanoseconds. \<open>rand.Intn(k)\<close> panics for
  \<open>k \<le> 0\<close> and otherwise yields some number below \<open>k\<close>; \<open>r\<close> is the
  source's raw random number, reduced to that range.
\<close>

definition Millisecond :: int where "Millisecond = 1000000"
definition HEARTBEAT_INTERVAL :: int where "HEARTBEAT_INTERVAL = 150 * Millisecond"

definition randomTimeoutVal :: "int \<Rightarrow> int \<Rightarrow> int \<Rightarrow> int res" where
  "randomTimeoutVal r mn mx =
     (if mx - mn \<le> 0 then Inl (Panicked ''invalid argument to Intn'')
      else Inr ((mn + r mod (mx - mn)) * Millisecond))"

text \<open>A timer that is running has no stale tick: the invariant \<open>resetTimer\<close> relies on.\<close>

definition timer_ok :: "Timer \<Rightarrow> bool" where
  "timer_ok t \<longleftrightarrow> \<not> (running t \<and> tick t)"

lemmas timer_defs = timer_New_def timer_Stop_def timer_Reset_def timer_fire_def resetTimer_def
  timer_ok_def

lemma resetTimer_fresh: "timer_ok t \<Longrightarrow> resetTimer t = timer_New"
  by (cases t) (auto simp: timer_defs)

lemma timer_ok_ops [simp, intro]:
  "timer_ok timer_New"
  "timer_ok t \<Longrightarrow> timer_ok (snd (timer_Stop t))"
  "timer_ok t \<Longrightarrow> timer_ok (resetTimer t)"
  "timer_ok t \<Longrightarrow> timer_ok (timer_fire t)"
  by (auto simp: timer_defs)

section \<open>The peer\<close>

record 'c Raft =
  peers :: nat \<comment> \<open>\<open>len(rf.peers)\<close>\<close>
  me :: int
  dead :: int
  state :: role
  currentTerm :: int
  votedFor :: int
  log :: "'c LogEntry list"
  commitIndex :: int
  lastApplied :: int
  nextIndex :: "int list"
  matchIndex :: "int list"
  applyMsgCh :: "'c ApplyMsg list" \<comment> \<open>everything sent on the channel, oldest first\<close>
  electionTimer :: Timer
  heartBeatTimer :: Timer

definition Make :: "nat \<Rightarrow> int \<Rightarrow> 'c Raft" where
  "Make n i =
     \<lparr>peers = n, me = i, dead = 0, state = FOLLOWER, currentTerm = 0, votedFor = NULL,
      log = [\<lparr>entryTerm = 0, Command = None\<rparr>], commitIndex = 0, lastApplied = 0,
      nextIndex = replicate n 1, matchIndex = replicate n 0, applyMsgCh = [],
      electionTimer = timer_New, heartBeatTimer = timer_New\<rparr>"

definition GetState :: "'c Raft \<Rightarrow> int \<times> bool" where
  "GetState rf = (currentTerm rf, state rf = LEADER)"

definition Kill :: "'c Raft \<Rightarrow> 'c Raft" where
  "Kill rf = rf\<lparr>dead := 1\<rparr>"

definition killed :: "'c Raft \<Rightarrow> bool" where
  "killed rf \<longleftrightarrow> dead rf = 1"

definition Min :: "int \<Rightarrow> int \<Rightarrow> int" where
  "Min a b = (if a < b then a else b)"

definition Max :: "int \<Rightarrow> int \<Rightarrow> int" where
  "Max a b = (if a > b then a else b)"

section \<open>Role changes\<close>

definition TurnFollower :: "int \<Rightarrow> int \<Rightarrow> 'c Raft \<Rightarrow> 'c Raft" where
  "TurnFollower Term voteFor rf =
     rf\<lparr>state := FOLLOWER, currentTerm := Term, votedFor := voteFor,
        heartBeatTimer := snd (timer_Stop (heartBeatTimer rf)),
        electionTimer := resetTimer (electionTimer rf)\<rparr>"

definition TurnCandidate :: "'c Raft \<Rightarrow> 'c Raft" where
  "TurnCandidate rf =
     rf\<lparr>state := CANDIDATE, currentTerm := currentTerm rf + 1, votedFor := me rf,
        heartBeatTimer := snd (timer_Stop (heartBeatTimer rf)),
        electionTimer := resetTimer (electionTimer rf)\<rparr>"

text \<open>
  \<open>TurnLeader\<close> up to its \<open>Unlock\<close>: the loop over \<open>rf.peers\<close> resets both
  index slices. The rest runs without the lock: one \<open>sendHeartBeat\<close> goroutine per
  other peer is started, and the heartbeat timer is reset.
\<close>

definition reset_indices :: "int \<Rightarrow> 'c Raft \<Rightarrow> 'c Raft res" where
  "reset_indices i rf =
     bind_res (upd (nextIndex rf) i (len (log rf))) (\<lambda>ni.
     bind_res (upd (matchIndex rf) i 0) (\<lambda>mi.
       Inr (rf\<lparr>nextIndex := ni, matchIndex := mi\<rparr>)))"

definition TurnLeader_locked :: "'c Raft \<Rightarrow> 'c Raft res" where
  "TurnLeader_locked rf =
     for_res (indices (peers rf)) reset_indices
       (rf\<lparr>state := LEADER, electionTimer := snd (timer_Stop (electionTimer rf))\<rparr>)"

definition other_peers :: "'c Raft \<Rightarrow> int list" where
  "other_peers rf = filter (\<lambda>i. i \<noteq> me rf) (indices (peers rf))"

definition TurnLeader_unlocked :: "'c Raft \<Rightarrow> 'c Raft \<times> int list" where
  "TurnLeader_unlocked rf =
     (rf\<lparr>heartBeatTimer := resetTimer (heartBeatTimer rf)\<rparr>, other_peers rf)"

definition TurnLeader :: "'c Raft \<Rightarrow> ('c Raft \<times> int list) res" where
  "TurnLeader rf = map_res TurnLeader_unlocked (TurnLeader_locked rf)"

section \<open>Delivering committed entries\<close>

text \<open>
  \<open>applymsg\<close>: the loop counts \<open>n = commitIndex - lastApplied\<close> down to zero and
  sends the entry at \<open>commitIndex + 1 - n\<close>. The service always receives, so the
  send does not block.
\<close>

fun apply_loop :: "nat \<Rightarrow> 'c Raft \<Rightarrow> 'c Raft res" where
  "apply_loop 0 rf = Inr rf"
| "apply_loop (Suc n) rf =
     (let i = commitIndex rf + 1 - int (Suc n) in
      bind_res (idx (log rf) i) (\<lambda>e.
        apply_loop n (rf\<lparr>applyMsgCh := applyMsgCh rf @
          [\<lparr>CommandValid = True, ApplyCommand = Command e, CommandIndex = i\<rparr>]\<rparr>)))"

definition applymsg :: "'c Raft \<Rightarrow> 'c Raft res" where
  "applymsg rf =
     (if killed rf then Inr rf
      else bind_res (apply_loop (nat (commitIndex rf - lastApplied rf)) rf) (\<lambda>rf1.
             Inr (rf1\<lparr>lastApplied := commitIndex rf1\<rparr>)))"

section \<open>Invariant of a peer\<close>

text \<open>
  The messages delivered so far carry the indices \<open>1, 2, \<dots>, lastApplied\<close>, in this
  order; a live peer has delivered everything it knows to be committed; the slices have
  the lengths the loops over the peers rely on.
\<close>

definition delivered_in_order :: "'c Raft \<Rightarrow> bool" where
  "delivered_in_order rf \<longleftrightarrow>
     map CommandIndex (applyMsgCh rf) = map int [1..<Suc (nat (lastApplied rf))] \<and>
     list_all CommandValid (applyMsgCh rf)"

definition raft_ok :: "'c Raft \<Rightarrow> bool" where
  "raft_ok rf \<longleftrightarrow>
     0 \<le> me rf \<and> me rf < int (peers rf) \<and>
     length (nextIndex rf) = peers rf \<and> length (matchIndex rf) = peers rf \<and>
     log rf \<noteq> [] \<and> 0 \<le> currentTerm rf \<and>
     0 \<le> lastApplied rf \<and> lastApplied rf \<le> commitIndex rf \<and>
     (\<not> killed rf \<longrightarrow> lastApplied rf = commitIndex rf) \<and>
     delivered_in_order rf \<and>
     timer_ok (electionTimer rf) \<and> timer_ok (heartBeatTimer rf)"

lemma raft_okD:
  assumes "raft_ok rf"
  shows "0 \<le> me rf" "me rf < int (peers rf)" "length (nextIndex rf) = peers rf"
    "length (matchIndex rf) = peers rf" "log rf \<noteq> []" "0 \<le> currentTerm rf"
    "0 \<le> lastApplied rf" "lastApplied rf \<le> commitIndex rf" "0 \<le> commitIndex rf"
    "\<not> killed rf \<Longrightarrow> lastApplied rf = commitIndex rf" "delivered_in_order rf"
    "timer_ok (electionTimer rf)" "timer_ok (heartBeatTimer rf)"
  using assms by (auto simp: raft_ok_def)

lemma raft_ok_Make: "0 \<le> i \<Longrightarrow> i < int n \<Longrightarrow> raft_ok (Make n i)"
  by (simp add: raft_ok_def Make_def delivered_in_order_def)

lemma raft_ok_Kill [inv_intros]: "raft_ok rf \<Longrightarrow> raft_ok (Kill rf)"
  by (auto simp: raft_ok_def Kill_def killed_def delivered_in_order_def)

lemma raft_ok_TurnFollower [inv_intros]:
  "raft_ok rf \<Longrightarrow> 0 \<le> t \<Longrightarrow> raft_ok (TurnFollower t v rf)"
  by (auto simp: raft_ok_def TurnFollower_def killed_def delivered_in_order_def)

lemma raft_ok_TurnCandidate [inv_intros]: "raft_ok rf \<Longrightarrow> raft_ok (TurnCandidate rf)"
  by (auto simp: raft_ok_def TurnCandidate_def killed_def delivered_in_order_def)

lemma reset_indices_prefix:
  assumes "k \<le> length (nextIndex rf)" and "k \<le> length (matchIndex rf)"
  shows "for_res (indices k) reset_indices rf =
     Inr (rf\<lparr>nextIndex := replicate k (len (log rf)) @ drop k (nextIndex rf),
             matchIndex := replicate k 0 @ drop k (matchIndex rf)\<rparr>)"
  using assms
proof (induction k)
  case 0
  then show ?case by (simp add: indices_def)
next
  case (Suc k)
  have *: "(replicate k v @ drop k xs)[k := v] = replicate (Suc k) v @ drop (Suc k) xs"
    if "k < length xs" for v :: int and xs
    using that by (simp add: list_update_append Cons_nth_drop_Suc [symmetric] replicate_append_same)
  from Suc show ?case
    by (simp add: indices_Suc for_res_append reset_indices_def upd_def len_def * del: replicate_Suc)
qed

lemma TurnLeader_locked_ok:
  assumes "raft_ok rf"
  shows "TurnLeader_locked rf =
     Inr (rf\<lparr>state := LEADER, electionTimer := snd (timer_Stop (electionTimer rf)),
             nextIndex := replicate (peers rf) (len (log rf)),
             matchIndex := replicate (peers rf) 0\<rparr>)"
  using raft_okD [OF assms]
  by (simp add: TurnLeader_locked_def reset_indices_prefix)

lemma raft_ok_TurnLeader_locked:
  "raft_ok rf \<Longrightarrow> TurnLeader_locked rf = Inr rf' \<Longrightarrow> raft_ok rf'"
  by (auto simp: TurnLeader_locked_ok) (auto simp: raft_ok_def killed_def delivered_in_order_def)

lemma raft_ok_TurnLeader_unlocked [inv_intros]:
  "raft_ok rf \<Longrightarrow> raft_ok (fst (TurnLeader_unlocked rf))"
  by (auto simp: TurnLeader_unlocked_def raft_ok_def killed_def delivered_in_order_def)

section \<open>What \<open>applymsg\<close> delivers\<close>

definition entry_msg :: "'c LogEntry list \<Rightarrow> nat \<Rightarrow> 'c ApplyMsg" where
  "entry_msg lg i = \<lparr>CommandValid = True, ApplyCommand = Command (lg ! i), CommandIndex = int i\<rparr>"

lemma apply_loop_sends:
  assumes "n \<le> Suc c" "c < length (log rf)" "commitIndex rf = int c"
  shows "apply_loop n rf =
    Inr (rf\<lparr>applyMsgCh := applyMsgCh rf @ map (entry_msg (log rf)) [Suc c - n..<Suc c]\<rparr>)"
  using assms
proof (induction n arbitrary: rf)
  case 0
  then show ?case by simp
next
  case (Suc n)
  have i: "commitIndex rf + 1 - int (Suc n) = int (c - n)" using Suc.prems by simp
  have up: "[Suc c - Suc n..<Suc c] = (c - n) # [Suc c - n..<Suc c]"
    using Suc.prems by (subst upt_conv_Cons) (auto simp: Suc_diff_le)
  have at: "idx (log rf) (int (c - n)) = Inr (log rf ! (c - n))"
    using Suc.prems by (intro idx_int) simp
  let ?rf = "rf\<lparr>applyMsgCh := applyMsgCh rf @ [entry_msg (log rf) (c - n)]\<rparr>"
  have "apply_loop (Suc n) rf = apply_loop n ?rf"
    unfolding apply_loop.simps Let_def i at by (simp add: entry_msg_def)
  also have "\<dots> = Inr (?rf\<lparr>applyMsgCh := applyMsgCh ?rf @ map (entry_msg (log ?rf)) [Suc c - n..<Suc c]\<rparr>)"
    using Suc.prems by (intro Suc.IH) simp_all
  finally show ?case unfolding up by simp
qed

lemma applymsg_sends:
  assumes "0 \<le> lastApplied rf" "lastApplied rf \<le> commitIndex rf" "commitIndex rf < len (log rf)"
    and "\<not> killed rf"
  shows "applymsg rf =
    Inr (rf\<lparr>lastApplied := commitIndex rf,
            applyMsgCh := applyMsgCh rf @
              map (entry_msg (log rf)) [Suc (nat (lastApplied rf))..<Suc (nat (commitIndex rf))]\<rparr>)"
proof -
  let ?c = "nat (commitIndex rf)" and ?n = "nat (commitIndex rf - lastApplied rf)"
  have "Suc ?c - ?n = Suc (nat (lastApplied rf))" using assms by simp
  moreover have "?n \<le> Suc ?c" "?c < length (log rf)" "commitIndex rf = int ?c"
    using assms by (auto simp: len_def)
  ultimately show ?thesis
    using assms apply_loop_sends [of ?n ?c rf] by (simp add: applymsg_def del: upt_Suc)
qed

lemma applymsg_idle: "commitIndex rf \<le> lastApplied rf \<Longrightarrow> \<not> killed rf \<Longrightarrow>
  applymsg rf = Inr (rf\<lparr>lastApplied := commitIndex rf\<rparr>)"
  by (simp add: applymsg_def)

lemma entry_msg_list [simp]:
  "map CommandIndex (map (entry_msg lg) is) = map int is"
  "list_all CommandValid (map (entry_msg lg) is)"
  by (auto simp: entry_msg_def list_all_iff)

lemma delivered_extend:
  assumes "delivered_in_order rf" "0 \<le> lastApplied rf" "lastApplied rf \<le> c"
  shows "delivered_in_order (rf\<lparr>lastApplied := c, applyMsgCh := applyMsgCh rf @
           map (entry_msg lg) [Suc (nat (lastApplied rf))..<Suc (nat c)]\<rparr>)"
proof -
  let ?l = "nat (lastApplied rf)"
  have "[1..<Suc ?l] @ [Suc ?l..<Suc (nat c)] = [1..<Suc (nat c)]"
    using assms by (metis One_nat_def Suc_le_mono le0 nat_mono upt_add_eq_append le_add_diff_inverse)
  then have "map int [1..<Suc ?l] @ map int [Suc ?l..<Suc (nat c)] = map int [1..<Suc (nat c)]"
    by (metis map_append)
  with assms(1) show ?thesis
    by (auto simp: delivered_in_order_def list_all_iff entry_msg_def o_def simp del: upt_Suc)
qed

end
