(* ===== verification/RaftElection.thy ===== *)
theory RaftElection
  imports RaftState
begin

text \<open>
  Leader election in \<open>mp2/src/raft/raft.go\<close>: the \<open>RequestVote\<close> handler, the
  election timeout, and the candidate's side (\<open>startElection\<close>, \<open>sendvote\<close>).
\<close>

section \<open>Messages\<close>

record RequestVoteArgs =
  rvTerm :: int
  CandidateId :: int
  LastLogIndex :: int
  LastLogTerm :: int

record RequestVoteReply =
  rvReplyTerm :: int
  VoteGranted :: bool

text \<open>The reply as the RPC layer allocates it, before the handler writes to it.\<close>

definition RequestVoteReply_zero :: RequestVoteReply where
  "RequestVoteReply_zero = \<lparr>rvReplyTerm = 0, VoteGranted = False\<rparr>"

section \<open>The vote handler\<close>

definition RequestVote :: "RequestVoteArgs \<Rightarrow> 'c Raft \<Rightarrow> (RequestVoteReply \<times> 'c Raft) res" where
  "RequestVote args rf =
     (if killed rf then Inr (RequestVoteReply_zero, rf)
      else if rvTerm args < currentTerm rf \<or>
              (rvTerm args = currentTerm rf \<and> votedFor rf \<noteq> NULL \<and> votedFor rf \<noteq> CandidateId args)
      then Inr (\<lparr>rvReplyTerm = currentTerm rf, VoteGranted = False\<rparr>, rf)
      else
        (let rf1 = (if rvTerm args > currentTerm rf
                    then (let r = rf\<lparr>currentTerm := rvTerm args, votedFor := NULL\<rparr>
                          in if state r \<noteq> FOLLOWER then TurnFollower (rvTerm args) NULL r else r)
                    else rf);
             deny = Inr (\<lparr>rvReplyTerm = currentTerm rf1, VoteGranted = False\<rparr>, rf1)
         in if votedFor rf1 = NULL \<or> votedFor rf1 = CandidateId args
            then bind_res (idx (log rf1) (len (log rf1) - 1)) (\<lambda>e.
                   if entryTerm e < LastLogTerm args \<or>
                      (entryTerm e = LastLogTerm args \<and> len (log rf1) - 1 \<le> LastLogIndex args)
                   then Inr (\<lparr>rvReplyTerm = currentTerm rf1, VoteGranted = True\<rparr>,
                             rf1\<lparr>votedFor := CandidateId args,
                                 electionTimer := resetTimer (electionTimer rf1)\<rparr>)
                   else deny)
            else deny))"

section \<open>The candidate\<close>

text \<open>
  \<open>checkElectionTimeout\<close>: a non-blocking receive from the election timer; the flag
  tells whether \<open>startElection\<close> follows.
\<close>

definition checkElectionTimeout :: "'c Raft \<Rightarrow> 'c Raft \<times> bool" where
  "checkElectionTimeout rf =
     (if killed rf then (rf, False)
      else if tick (electionTimer rf)
      then (TurnCandidate (rf\<lparr>electionTimer := (electionTimer rf)\<lparr>tick := False\<rparr>\<rparr>), True)
      else (rf, False))"

text \<open>
  \<open>startElection\<close>: the arguments are read in a critical section of their own, the
  vote counter starts at one, and one \<open>sendvote\<close> goroutine per other peer starts.
\<close>

definition startElection :: "'c Raft \<Rightarrow> (RequestVoteArgs \<times> int \<times> int list) option res" where
  "startElection rf =
     (if killed rf then Inr None
      else bind_res (idx (log rf) (len (log rf) - 1)) (\<lambda>e.
        Inr (Some (\<lparr>rvTerm = currentTerm rf, CandidateId = me rf,
                   LastLogIndex = len (log rf) - 1, LastLogTerm = entryTerm e\<rparr>,
                  1, other_peers rf))))"

text \<open>
  \<open>sendvote\<close> after its RPC returned (\<open>success\<close>) with \<open>reply\<close>: the peer, the
  vote counter of this election and whether this reply made the peer leader, in which
  case \<open>TurnLeader\<close> runs next, after the lock was released.
\<close>

definition sendvote :: "bool \<Rightarrow> RequestVoteReply \<Rightarrow> int \<Rightarrow> 'c Raft \<Rightarrow> 'c Raft \<times> int \<times> bool" where
  "sendvote success reply voteNum rf =
     (if killed rf then (rf, voteNum, False)
      else if state rf \<noteq> CANDIDATE then (rf, voteNum, False)
      else if \<not> success then (rf, voteNum, False)
      else
        (let rf1 = (if rvReplyTerm reply > currentTerm rf
                    then TurnFollower (rvReplyTerm reply) NULL rf else rf)
         in if VoteGranted reply \<and> state rf1 = CANDIDATE
            then (let voteNum1 = voteNum + 1
                  in if voteNum1 > int (peers rf1 div 2)
                     then (rf1\<lparr>state := LEADER\<rparr>, voteNum1, True)
                     else (rf1, voteNum1, False))
            else (rf1, voteNum, False)))"

section \<open>The handler on every branch\<close>

text \<open>A log is at least as up to date: later last term, or equal last term and no shorter.\<close>

definition up_to_date :: "RequestVoteArgs \<Rightarrow> 'c Raft \<Rightarrow> bool" where
  "up_to_date args rf \<longleftrightarrow>
     entryTerm (last (log rf)) < LastLogTerm args \<or>
     entryTerm (last (log rf)) = LastLogTerm args \<and> len (log rf) - 1 \<le> LastLogIndex args"

text \<open>What may be voted for: a new term, or this term with the vote free or already given.\<close>

definition may_vote :: "RequestVoteArgs \<Rightarrow> 'c Raft \<Rightarrow> bool" where
  "may_vote args rf \<longleftrightarrow>
     currentTerm rf < rvTerm args \<or>
     currentTerm rf = rvTerm args \<and> votedFor rf \<in> {NULL, CandidateId args}"

definition adopt_term :: "RequestVoteArgs \<Rightarrow> 'c Raft \<Rightarrow> 'c Raft" where
  "adopt_term args rf =
     (if rvTerm args > currentTerm rf
      then if state rf \<noteq> FOLLOWER then TurnFollower (rvTerm args) NULL rf
           else rf\<lparr>currentTerm := rvTerm args, votedFor := NULL\<rparr>
      else rf)"

lemma adopt_term_simps [simp]:
  "log (adopt_term args rf) = log rf"
  "me (adopt_term args rf) = me rf"
  "peers (adopt_term args rf) = peers rf"
  "killed (adopt_term args rf) = killed rf"
  "rvTerm args > currentTerm rf \<Longrightarrow> votedFor (adopt_term args rf) = NULL"
  "rvTerm args \<le> currentTerm rf \<Longrightarrow> adopt_term args rf = rf"
  "currentTerm (adopt_term args rf) = max (rvTerm args) (currentTerm rf)"
  by (auto simp: adopt_term_def TurnFollower_def killed_def)

lemma RequestVote_steps:
  "RequestVote args rf =
     (if killed rf then Inr (RequestVoteReply_zero, rf)
      else if \<not> may_vote args rf then Inr (\<lparr>rvReplyTerm = currentTerm rf, VoteGranted = False\<rparr>, rf)
      else bind_res (idx (log rf) (len (log rf) - 1)) (\<lambda>e.
        if entryTerm e < LastLogTerm args \<or>
           (entryTerm e = LastLogTerm args \<and> len (log rf) - 1 \<le> LastLogIndex args)
        then Inr (\<lparr>rvReplyTerm = rvTerm args, VoteGranted = True\<rparr>,
                (adopt_term args rf)\<lparr>votedFor := CandidateId args,
                   electionTimer := resetTimer (electionTimer (adopt_term args rf))\<rparr>)
        else Inr (\<lparr>rvReplyTerm = rvTerm args, VoteGranted = False\<rparr>, adopt_term args rf)))"
proof -
  have no: "(rvTerm args < currentTerm rf \<or> rvTerm args = currentTerm rf \<and>
      votedFor rf \<noteq> NULL \<and> votedFor rf \<noteq> CandidateId args) \<longleftrightarrow> \<not> may_vote args rf"
    by (auto simp: may_vote_def)
  have adopt: "(if rvTerm args > currentTerm rf
      then if state (rf\<lparr>currentTerm := rvTerm args, votedFor := NULL\<rparr>) \<noteq> FOLLOWER
           then TurnFollower (rvTerm args) NULL (rf\<lparr>currentTerm := rvTerm args, votedFor := NULL\<rparr>)
           else rf\<lparr>currentTerm := rvTerm args, votedFor := NULL\<rparr>
      else rf) = adopt_term args rf"
    by (simp add: adopt_term_def TurnFollower_def)
  have free: "votedFor (adopt_term args rf) = NULL \<or> votedFor (adopt_term args rf) = CandidateId args"
    and t: "currentTerm (adopt_term args rf) = rvTerm args" if "may_vote args rf"
    using that by (cases "rvTerm args > currentTerm rf"; force simp: may_vote_def)+
  show ?thesis
  proof (cases "killed rf \<or> \<not> may_vote args rf")
    case True
    then show ?thesis unfolding RequestVote_def no by auto
  next
    case False
    then have m: "may_vote args rf" and "\<not> killed rf" by simp_all
    then show ?thesis
      unfolding RequestVote_def no Let_def adopt
      by (simp only: free [OF m] t [OF m] adopt_term_simps(1) if_True if_False simp_thms)
  qed
qed

lemma RequestVote_cases:
  assumes "log rf \<noteq> []"
  shows "RequestVote args rf =
     (if killed rf then Inr (RequestVoteReply_zero, rf)
      else if \<not> may_vote args rf then Inr (\<lparr>rvReplyTerm = currentTerm rf, VoteGranted = False\<rparr>, rf)
      else if up_to_date args rf
      then Inr (\<lparr>rvReplyTerm = rvTerm args, VoteGranted = True\<rparr>,
                (adopt_term args rf)\<lparr>votedFor := CandidateId args,
                   electionTimer := resetTimer (electionTimer (adopt_term args rf))\<rparr>)
      else Inr (\<lparr>rvReplyTerm = rvTerm args, VoteGranted = False\<rparr>, adopt_term args rf))"
  using assms by (simp add: RequestVote_steps idx_last up_to_date_def)

text \<open>The three ways in which the handler returns.\<close>

lemma RequestVote_shape:
  assumes "RequestVote args rf = Inr (reply, rf')"
  obtains (refused) "rf' = rf" "\<not> VoteGranted reply"
  | (denied) "may_vote args rf" "rf' = adopt_term args rf" "\<not> VoteGranted reply"
      "rvReplyTerm reply = rvTerm args"
  | (granted) "may_vote args rf" "VoteGranted reply" "rvReplyTerm reply = rvTerm args"
      "rf' = (adopt_term args rf)\<lparr>votedFor := CandidateId args,
                electionTimer := resetTimer (electionTimer (adopt_term args rf))\<rparr>"
proof (cases "killed rf \<or> \<not> may_vote args rf")
  case True
  with assms have "rf' = rf \<and> \<not> VoteGranted reply"
    unfolding RequestVote_steps by (cases "killed rf") (auto simp: RequestVoteReply_zero_def)
  then show ?thesis using refused by blast
next
  case False
  then have g: "\<not> killed rf" "may_vote args rf" by simp_all
  obtain e where at: "idx (log rf) (len (log rf) - 1) = Inr e"
    using assms g by (cases "idx (log rf) (len (log rf) - 1)") (simp_all add: RequestVote_steps)
  have
    e: "(if entryTerm e < LastLogTerm args \<or>
           (entryTerm e = LastLogTerm args \<and> len (log rf) - 1 \<le> LastLogIndex args)
        then Inr (\<lparr>rvReplyTerm = rvTerm args, VoteGranted = True\<rparr>,
                (adopt_term args rf)\<lparr>votedFor := CandidateId args,
                   electionTimer := resetTimer (electionTimer (adopt_term args rf))\<rparr>)
        else Inr (\<lparr>rvReplyTerm = rvTerm args, VoteGranted = False\<rparr>, adopt_term args rf))
      = (Inr (reply, rf') :: (RequestVoteReply \<times> 'a Raft) res)"
    using assms unfolding RequestVote_steps at bind_res_simps
    by (simp only: g if_False if_True not_True_eq_False)
  show ?thesis
  proof (cases "VoteGranted reply")
    case True
    with e have "rvReplyTerm reply = rvTerm args" "rf' = (adopt_term args rf)\<lparr>votedFor := CandidateId args,
                electionTimer := resetTimer (electionTimer (adopt_term args rf))\<rparr>"
      by (auto split: if_split_asm)
    with True False granted show ?thesis by blast
  next
    case ng: False
    with e have "rvReplyTerm reply = rvTerm args" "rf' = adopt_term args rf"
      by (auto split: if_split_asm)
    with ng False denied show ?thesis by blast
  qed
qed

lemma raft_ok_adopt_term [inv_intros]: "raft_ok rf \<Longrightarrow> raft_ok (adopt_term args rf)"
  by (auto simp: raft_ok_def adopt_term_def TurnFollower_def killed_def delivered_in_order_def)

lemma raft_ok_vote [inv_intros]:
  "raft_ok rf \<Longrightarrow> raft_ok (rf\<lparr>votedFor := v, electionTimer := resetTimer (electionTimer rf)\<rparr>)"
  by (auto simp: raft_ok_def killed_def delivered_in_order_def)

lemma RequestVote_returns:
  assumes "raft_ok rf"
  shows "\<exists>reply rf'. RequestVote args rf = Inr (reply, rf') \<and> raft_ok rf'"
  using assms raft_okD(5) [OF assms]
  by (auto simp: RequestVote_cases intro: inv_intros)

lemma RequestVote_frame:
  assumes "log rf \<noteq> []" "RequestVote args rf = Inr (reply, rf')"
  shows "log rf' = log rf" "commitIndex rf' = commitIndex rf" "me rf' = me rf"
    "peers rf' = peers rf" "applyMsgCh rf' = applyMsgCh rf" "dead rf' = dead rf"
    "nextIndex rf' = nextIndex rf" "matchIndex rf' = matchIndex rf"
    "lastApplied rf' = lastApplied rf"
  using assms by (auto simp: RequestVote_cases adopt_term_def TurnFollower_def split: if_splits)

lemma RequestVote_term:
  assumes "log rf \<noteq> []" "RequestVote args rf = Inr (reply, rf')"
  shows "currentTerm rf \<le> currentTerm rf'"
  using assms by (auto simp: RequestVote_cases split: if_splits)

lemma RequestVote_grants:
  assumes "log rf \<noteq> []" "RequestVote args rf = Inr (reply, rf')"
  shows "VoteGranted reply \<longleftrightarrow> \<not> killed rf \<and> may_vote args rf \<and> up_to_date args rf"
  using assms by (auto simp: RequestVote_cases RequestVoteReply_zero_def split: if_splits)

lemma RequestVote_granted_state:
  assumes "log rf \<noteq> []" "RequestVote args rf = Inr (reply, rf')" "VoteGranted reply"
  shows "currentTerm rf' = rvTerm args" "votedFor rf' = CandidateId args"
    "rvReplyTerm reply = rvTerm args" "currentTerm rf \<le> rvTerm args"
  using assms by (auto simp: RequestVote_cases may_vote_def RequestVoteReply_zero_def split: if_splits)

end
