(* ===== verification/RaftLog.thy ===== *)
theory RaftLog
  imports RaftState
begin

text \<open>
  Log replication in \<open>mp2/src/raft/raft.go\<close>: the follower's \<open>AppendEntries\<close>
  handler and the leader's \<open>Start\<close>. The handler's search for the first conflicting
  entry is compared with a reference merge of two lists.
\<close>

section \<open>Messages\<close>

record 'c AppendEntriesArgs =
  aeTerm :: int
  LeaderId :: int
  PrevLogIndex :: int
  PrevLogTerm :: int
  Entries :: "'c LogEntry list"
  LeaderCommit :: int

record AppendEntriesReply =
  aeReplyTerm :: int
  Success :: bool

definition AppendEntriesReply_zero :: AppendEntriesReply where
  "AppendEntriesReply_zero = \<lparr>aeReplyTerm = 0, Success = False\<rparr>"

section \<open>The handler\<close>

text \<open>The loop over \<open>args.Entries\<close>: \<open>i\<close> is the loop index.\<close>

fun find_point :: "'c LogEntry list \<Rightarrow> int \<Rightarrow> int \<Rightarrow> 'c LogEntry list \<Rightarrow> int res" where
  "find_point lg prev i [] = Inr NULL"
| "find_point lg prev i (entry # es) =
     (let curr_idx = prev + 1 + i in
      if curr_idx > len lg - 1 then Inr curr_idx
      else bind_res (idx lg curr_idx) (\<lambda>e.
             if entryTerm e \<noteq> entryTerm entry then Inr curr_idx
             else find_point lg prev (i + 1) es))"

definition append_new :: "'c AppendEntriesArgs \<Rightarrow> 'c Raft \<Rightarrow> 'c Raft res" where
  "append_new args rf =
     bind_res (find_point (log rf) (PrevLogIndex args) 0 (Entries args)) (\<lambda>point.
       if point \<noteq> NULL
       then bind_res (slice_to (log rf) point) (\<lambda>old.
            bind_res (slice_from (Entries args) (point - 1 - PrevLogIndex args)) (\<lambda>new.
              Inr (rf\<lparr>log := old @ new\<rparr>)))
       else Inr rf)"

definition advance_commit :: "int \<Rightarrow> 'c Raft \<Rightarrow> 'c Raft" where
  "advance_commit leaderCommit rf =
     (if leaderCommit > commitIndex rf
      then rf\<lparr>commitIndex := Min (len (log rf)) leaderCommit\<rparr> else rf)"

definition step_down :: "'c AppendEntriesArgs \<Rightarrow> 'c Raft \<Rightarrow> 'c Raft" where
  "step_down args rf =
     (let rf1 = (if aeTerm args > currentTerm rf
                 then rf\<lparr>currentTerm := aeTerm args, votedFor := NULL\<rparr> else rf);
          rf2 = (if state rf1 \<noteq> FOLLOWER then TurnFollower (aeTerm args) NULL rf1 else rf1)
      in rf2\<lparr>electionTimer := resetTimer (electionTimer rf2)\<rparr>)"

definition AppendEntries ::
  "'c AppendEntriesArgs \<Rightarrow> 'c Raft \<Rightarrow> (AppendEntriesReply \<times> 'c Raft) res" where
  "AppendEntries args rf =
     (if killed rf then Inr (AppendEntriesReply_zero, rf)
      else if aeTerm args < currentTerm rf
      then Inr (\<lparr>aeReplyTerm = currentTerm rf, Success = False\<rparr>, rf)
      else
        (let rf1 = step_down args rf;
             fail = Inr (\<lparr>aeReplyTerm = currentTerm rf1, Success = False\<rparr>, rf1)
         in if len (log rf1) - 1 < PrevLogIndex args then fail
            else bind_res (idx (log rf1) (PrevLogIndex args)) (\<lambda>e.
                   if entryTerm e \<noteq> PrevLogTerm args then fail
                   else bind_res (append_new args rf1) (\<lambda>rf2.
                        bind_res (applymsg (advance_commit (LeaderCommit args) rf2)) (\<lambda>rf3.
                          Inr (\<lparr>aeReplyTerm = 0, Success = True\<rparr>, rf3))))))"

section \<open>A command enters the leader's log\<close>

definition Start :: "'c option \<Rightarrow> 'c Raft \<Rightarrow> ((int \<times> int \<times> bool) \<times> 'c Raft) res" where
  "Start command rf =
     (let isLeader = (state rf = LEADER); Term = currentTerm rf in
      if \<not> isLeader then Inr ((-1, -1, False), rf)
      else
        (let rf1 = rf\<lparr>log := log rf @ [\<lparr>entryTerm = currentTerm rf, Command = command\<rparr>]\<rparr> in
         bind_res (upd (matchIndex rf1) (me rf1) (len (log rf1) - 1)) (\<lambda>mi.
         bind_res (upd (nextIndex rf1) (me rf1) (len (log rf1))) (\<lambda>ni.
           Inr ((len (log rf1) - 1, Term, isLeader),
                rf1\<lparr>matchIndex := mi, nextIndex := ni\<rparr>)))))"

section \<open>The reference merge\<close>

text \<open>
  The entries after the agreed prefix, against the new ones: keep what agrees in its
  term, and from the first disagreement (or the end) on take the new entries.
\<close>

fun merge_entries :: "'c LogEntry list \<Rightarrow> 'c LogEntry list \<Rightarrow> 'c LogEntry list" where
  "merge_entries xs [] = xs"
| "merge_entries [] (e # es) = e # es"
| "merge_entries (x # xs) (e # es) =
     (if entryTerm x = entryTerm e then x # merge_entries xs es else e # es)"

lemma merge_entries_Nil [simp]: "merge_entries [] es = es"
  by (cases es) simp_all

lemma merge_entries_terms:
  "map entryTerm (take (length es) (merge_entries xs es)) = map entryTerm es"
  by (induction xs es rule: merge_entries.induct) auto

lemma merge_entries_length: "length es \<le> length (merge_entries xs es)"
  by (induction xs es rule: merge_entries.induct) auto

lemma merge_entries_absorb:
  "merge_entries (merge_entries xs (es @ fs)) es = merge_entries xs (es @ fs)"
proof (induction es arbitrary: xs)
  case (Cons e es)
  have "merge_entries (es @ fs) es = es @ fs" using Cons.IH [of "[]"] by simp
  with Cons.IH show ?case by (cases xs) auto
qed simp

lemma merge_entries_same: "merge_entries (take n xs) xs = xs"
  by (induction xs arbitrary: n) (auto simp: take_Cons split: nat.splits)

text \<open>Where agreement in the term means agreement, the merge holds the new entries.\<close>

lemma merge_entries_prefix:
  assumes "\<forall>i. i < length xs \<and> i < length es \<and> entryTerm (xs ! i) = entryTerm (es ! i) \<longrightarrow> xs ! i = es ! i"
  shows "take (length es) (merge_entries xs es) = es"
  using assms
proof (induction xs es rule: merge_entries.induct)
  case (3 x xs e es)
  show ?case
  proof (cases "entryTerm x = entryTerm e")
    case True
    with "3.prems" have "x = e" by (auto dest: spec [of _ 0])
    moreover have "take (length es) (merge_entries xs es) = es"
      using True "3.prems" by (intro "3.IH") (auto dest: spec [of _ "Suc _"])
    ultimately show ?thesis using True by simp
  qed simp
qed simp_all

text \<open>The search loop and the two slice expressions compute this merge.\<close>

lemma find_point_merge:
  assumes "0 \<le> prev" "q = nat prev + 1 + i" "q \<le> length lg"
  shows "\<exists>pt. find_point lg prev (int i) es = Inr pt \<and>
    (pt = NULL \<and> merge_entries (drop q lg) es = drop q lg \<or>
     (\<exists>k < length es. pt = int (q + k) \<and> q + k \<le> length lg \<and>
        merge_entries (drop q lg) es = take k (drop q lg) @ drop k es))"
  using assms
proof (induction es arbitrary: i q)
  case Nil
  then show ?case by simp
next
  case (Cons e es)
  have pq: "prev + 1 + int i = int q" using Cons.prems by simp
  show ?case
  proof (cases "q < length lg")
    case False
    then show ?thesis
      using Cons.prems by (auto simp: Let_def pq len_def intro!: exI [of _ 0])
  next
    case True
    then have d: "drop q lg = lg ! q # drop (Suc q) lg" by (simp add: Cons_nth_drop_Suc)
    show ?thesis
    proof (cases "entryTerm (lg ! q) = entryTerm e")
      case False
      with True show ?thesis
        by (auto simp: Let_def pq len_def idx_int d intro!: exI [of _ 0])
    next
      case eq: True
      obtain pt where pt: "find_point lg prev (int (Suc i)) es = Inr pt"
        and cases: "pt = NULL \<and> merge_entries (drop (Suc q) lg) es = drop (Suc q) lg \<or>
          (\<exists>k < length es. pt = int (Suc q + k) \<and> Suc q + k \<le> length lg \<and>
             merge_entries (drop (Suc q) lg) es = take k (drop (Suc q) lg) @ drop k es)"
        using Cons.IH [of "Suc q" "Suc i"] Cons.prems True by auto
      have f: "find_point lg prev (int i) (e # es) = Inr pt"
        using True eq pt unfolding find_point.simps Let_def pq by (simp add: len_def idx_int add.commute)
      from cases show ?thesis
      proof (elim disjE exE conjE)
        fix k assume "k < length es" "pt = int (Suc q + k)" "Suc q + k \<le> length lg"
          "merge_entries (drop (Suc q) lg) es = take k (drop (Suc q) lg) @ drop k es"
        then show ?thesis using f eq by (auto simp: d intro!: exI [of _ "Suc k"])
      qed (use f eq in \<open>auto simp: d\<close>)
    qed
  qed
qed

lemma append_new_merge:
  assumes "0 \<le> PrevLogIndex args" "PrevLogIndex args < len (log rf)"
  defines "p \<equiv> Suc (nat (PrevLogIndex args))"
  shows "append_new args rf =
     Inr (rf\<lparr>log := take p (log rf) @ merge_entries (drop p (log rf)) (Entries args)\<rparr>)"
proof -
  have p: "p \<le> length (log rf)" "int p = PrevLogIndex args + 1" using assms by (auto simp: len_def)
  obtain pt where pt: "find_point (log rf) (PrevLogIndex args) 0 (Entries args) = Inr pt"
    and cases: "pt = NULL \<and> merge_entries (drop p (log rf)) (Entries args) = drop p (log rf) \<or>
      (\<exists>k < length (Entries args). pt = int (p + k) \<and> p + k \<le> length (log rf) \<and>
        merge_entries (drop p (log rf)) (Entries args) =
          take k (drop p (log rf)) @ drop k (Entries args))"
    using find_point_merge [of "PrevLogIndex args" p 0 "log rf" "Entries args"] assms p by auto
  from cases show ?thesis
  proof (elim disjE exE conjE)
    fix k assume k: "k < length (Entries args)" "pt = int (p + k)" "p + k \<le> length (log rf)"
      and m: "merge_entries (drop p (log rf)) (Entries args) =
          take k (drop p (log rf)) @ drop k (Entries args)"
    have "pt - 1 - PrevLogIndex args = int k" "pt \<noteq> NULL" using k p by (auto simp: NULL_def)
    then show ?thesis
      using k by (simp add: append_new_def pt slice_to_def slice_from_def len_def m
        nat_int_add take_add flip: of_nat_add)
  qed (auto simp: append_new_def pt)
qed

section \<open>The handler on every branch\<close>

text \<open>
  Arguments as a leader builds them: the index before the entries is a real index, and
  the leader knows nothing to be committed beyond the entries it describes.
\<close>

definition wf_args :: "'c AppendEntriesArgs \<Rightarrow> bool" where
  "wf_args args \<longleftrightarrow> 0 \<le> PrevLogIndex args \<and> 0 \<le> aeTerm args \<and>
     LeaderCommit args \<le> PrevLogIndex args + len (Entries args)"

definition log_matches :: "'c AppendEntriesArgs \<Rightarrow> 'c LogEntry list \<Rightarrow> bool" where
  "log_matches args lg \<longleftrightarrow>
     PrevLogIndex args < len lg \<and> entryTerm (lg ! nat (PrevLogIndex args)) = PrevLogTerm args"

definition follower_log :: "'c AppendEntriesArgs \<Rightarrow> 'c LogEntry list \<Rightarrow> 'c LogEntry list" where
  "follower_log args lg =
     (let p = Suc (nat (PrevLogIndex args)) in take p lg @ merge_entries (drop p lg) (Entries args))"

definition deliver :: "int \<Rightarrow> 'c Raft \<Rightarrow> 'c Raft" where
  "deliver c rf = rf\<lparr>commitIndex := c, lastApplied := c, applyMsgCh := applyMsgCh rf @
     map (entry_msg (log rf)) [Suc (nat (lastApplied rf))..<Suc (nat c)]\<rparr>"

lemma step_down_simps [simp]:
  "log (step_down args rf) = log rf"
  "me (step_down args rf) = me rf"
  "peers (step_down args rf) = peers rf"
  "dead (step_down args rf) = dead rf"
  "commitIndex (step_down args rf) = commitIndex rf"
  "lastApplied (step_down args rf) = lastApplied rf"
  "applyMsgCh (step_down args rf) = applyMsgCh rf"
  "nextIndex (step_down args rf) = nextIndex rf"
  "matchIndex (step_down args rf) = matchIndex rf"
  "state (step_down args rf) = FOLLOWER"
  by (auto simp: step_down_def TurnFollower_def Let_def)

lemma step_down_term: "aeTerm args \<ge> currentTerm rf \<Longrightarrow> currentTerm (step_down args rf) = aeTerm args"
  by (auto simp: step_down_def TurnFollower_def Let_def)

lemma killed_step_down [simp]: "killed (step_down args rf) = killed rf"
  by (simp add: killed_def)

lemma raft_ok_step_down [inv_intros]:
  "raft_ok rf \<Longrightarrow> 0 \<le> aeTerm args \<Longrightarrow> raft_ok (step_down args rf)"
  by (auto simp: step_down_def TurnFollower_def Let_def raft_ok_def killed_def delivered_in_order_def)

lemma length_follower_log:
  assumes "0 \<le> PrevLogIndex args" "PrevLogIndex args < len lg"
  shows "PrevLogIndex args + len (Entries args) < len (follower_log args lg)"
proof -
  let ?p = "Suc (nat (PrevLogIndex args))"
  have "length (take ?p lg) = ?p" using assms by (simp add: len_def)
  then have "?p + length (Entries args) \<le> length (follower_log args lg)"
    using merge_entries_length [of "Entries args" "drop ?p lg"]
    by (simp add: follower_log_def Let_def del: length_take)
  with assms(1) show ?thesis by (simp add: len_def)
qed

lemma follower_log_nonempty: "lg \<noteq> [] \<Longrightarrow> follower_log args lg \<noteq> []"
  by (simp add: follower_log_def Let_def)

lemma applymsg_advance:
  assumes "raft_ok rf" "\<not> killed rf" "c < len (log rf)"
  shows "applymsg (advance_commit c rf) = Inr (deliver (max (commitIndex rf) c) rf)"
proof (cases "commitIndex rf < c")
  case True
  then show ?thesis
    using assms raft_okD [OF assms(1)] applymsg_sends [of "rf\<lparr>commitIndex := c\<rparr>"]
    by (simp add: advance_commit_def deliver_def Min_def killed_def del: upt_Suc)
next
  case False
  then show ?thesis
    using assms raft_okD [OF assms(1)]
    by (simp add: advance_commit_def deliver_def applymsg_idle)
qed

lemma raft_ok_deliver [inv_intros]:
  assumes "raft_ok rf" "lastApplied rf \<le> c"
  shows "raft_ok (deliver c rf)"
  using assms raft_okD [OF assms(1)] delivered_extend [of rf c "log rf"]
  by (auto simp: raft_ok_def deliver_def killed_def delivered_in_order_def simp del: upt_Suc)

lemma raft_ok_log [inv_intros]: "raft_ok rf \<Longrightarrow> lg \<noteq> [] \<Longrightarrow> raft_ok (rf\<lparr>log := lg\<rparr>)"
  by (auto simp: raft_ok_def killed_def delivered_in_order_def)

lemma AppendEntries_cases:
  assumes "raft_ok rf" "wf_args args"
  shows "AppendEntries args rf =
    (if killed rf then Inr (AppendEntriesReply_zero, rf)
     else if aeTerm args < currentTerm rf
     then Inr (\<lparr>aeReplyTerm = currentTerm rf, Success = False\<rparr>, rf)
     else if \<not> log_matches args (log rf)
     then Inr (\<lparr>aeReplyTerm = aeTerm args, Success = False\<rparr>, step_down args rf)
     else Inr (\<lparr>aeReplyTerm = 0, Success = True\<rparr>,
               deliver (max (commitIndex rf) (LeaderCommit args))
                 ((step_down args rf)\<lparr>log := follower_log args (log rf)\<rparr>)))"
proof (cases "killed rf \<or> aeTerm args < currentTerm rf \<or> len (log rf) - 1 < PrevLogIndex args")
  case True
  then show ?thesis by (auto simp: AppendEntries_def Let_def log_matches_def step_down_term)
next
  case False
  let ?rf1 = "step_down args rf"
  let ?rf2 = "?rf1\<lparr>log := follower_log args (log rf)\<rparr>"
  have P: "0 \<le> PrevLogIndex args" "PrevLogIndex args < len (log rf)"
    using False assms(2) by (auto simp: wf_args_def)
  have new: "append_new args ?rf1 = Inr ?rf2"
    using append_new_merge [of args ?rf1] P by (simp add: follower_log_def Let_def)
  have "LeaderCommit args < len (follower_log args (log rf))"
    using length_follower_log [OF P] assms(2) by (auto simp: wf_args_def)
  moreover have "raft_ok ?rf2"
    using assms follower_log_nonempty raft_okD(5)
    by (intro inv_intros) (auto simp: wf_args_def)
  ultimately have app: "applymsg (advance_commit (LeaderCommit args) ?rf2) =
      Inr (deliver (max (commitIndex rf) (LeaderCommit args)) ?rf2)"
    using False applymsg_advance [of ?rf2 "LeaderCommit args"] by (simp add: killed_def)
  have guards: "\<not> killed rf" "\<not> aeTerm args < currentTerm rf"
      "\<not> len (log ?rf1) - 1 < PrevLogIndex args" "currentTerm ?rf1 = aeTerm args"
    and ix: "idx (log ?rf1) (PrevLogIndex args) = Inr (log rf ! nat (PrevLogIndex args))"
    using False P by (simp_all add: idx_in step_down_term)
  have m: "log_matches args (log rf) \<longleftrightarrow> entryTerm (log rf ! nat (PrevLogIndex args)) = PrevLogTerm args"
    using P by (simp add: log_matches_def)
  show ?thesis
    unfolding AppendEntries_def Let_def ix bind_res_simps new app m
    by (simp only: guards if_False bind_res_simps)
qed

lemma AppendEntries_returns:
  assumes "raft_ok rf" "wf_args args"
  shows "\<exists>reply rf'. AppendEntries args rf = Inr (reply, rf') \<and> raft_ok rf'"
proof -
  have "raft_ok (step_down args rf)" using assms by (auto simp: wf_args_def intro: inv_intros)
  moreover from this have "raft_ok (deliver (max (commitIndex rf) (LeaderCommit args))
      ((step_down args rf)\<lparr>log := follower_log args (log rf)\<rparr>))"
    using raft_okD [OF assms(1)] by (auto intro!: inv_intros follower_log_nonempty)
  ultimately show ?thesis using assms by (simp add: AppendEntries_cases)
qed

lemma deliver_simps [simp]:
  "log (deliver c rf) = log rf" "me (deliver c rf) = me rf" "peers (deliver c rf) = peers rf"
  "state (deliver c rf) = state rf" "currentTerm (deliver c rf) = currentTerm rf"
  "votedFor (deliver c rf) = votedFor rf" "commitIndex (deliver c rf) = c"
  "dead (deliver c rf) = dead rf" "nextIndex (deliver c rf) = nextIndex rf"
  "matchIndex (deliver c rf) = matchIndex rf"
  "electionTimer (deliver c rf) = electionTimer rf"
  "heartBeatTimer (deliver c rf) = heartBeatTimer rf"
  by (simp_all add: deliver_def)

lemma AppendEntries_term:
  assumes "raft_ok rf" "wf_args args" "AppendEntries args rf = Inr (reply, rf')"
  shows "currentTerm rf \<le> currentTerm rf'" "commitIndex rf \<le> commitIndex rf'"
    "me rf' = me rf" "peers rf' = peers rf" "dead rf' = dead rf"
  using assms by (auto simp: AppendEntries_cases step_down_term split: if_splits)

section \<open>What \<open>Start\<close> returns\<close>

lemma Start_ok:
  assumes "raft_ok rf"
  shows "Start c rf =
    (if state rf \<noteq> LEADER then Inr ((-1, -1, False), rf)
     else Inr ((len (log rf), currentTerm rf, True),
       rf\<lparr>log := log rf @ [\<lparr>entryTerm = currentTerm rf, Command = c\<rparr>],
          matchIndex := (matchIndex rf)[nat (me rf) := len (log rf)],
          nextIndex := (nextIndex rf)[nat (me rf) := len (log rf) + 1]\<rparr>))"
  using raft_okD [OF assms] by (simp add: Start_def Let_def upd_def len_def add.commute)

lemma Start_returns:
  assumes "raft_ok rf"
  shows "\<exists>r rf'. Start c rf = Inr (r, rf') \<and> raft_ok rf'"
  using assms
  by (auto simp: Start_ok raft_ok_def killed_def delivered_in_order_def)

end
