(* ===== verification/RaftLeader.thy ===== *)
theory RaftLeader
  imports RaftLog
begin

text \<open>
  The leader in \<open>mp2/src/raft/raft.go\<close>: the heartbeat loop, and \<open>sendHeartBeat\<close>
  before and after its RPC, with the search for the new commit index.
\<close>

section \<open>Quorums\<close>

text \<open>
  What a decision by majority relies on: two deciding groups share a member. The code's
  test is \<open>total > len(peers)/2\<close>.
\<close>

locale quorum_system =
  fixes members :: "'p set" and quorum :: "'p set \<Rightarrow> bool"
  assumes quorum_members: "quorum Q \<Longrightarrow> Q \<subseteq> members"
    and quorum_intersect: "quorum Q \<Longrightarrow> quorum Q' \<Longrightarrow> Q \<inter> Q' \<noteq> {}"
begin

lemma quorum_nonempty: "quorum Q \<Longrightarrow> Q \<noteq> {}"
  using quorum_intersect by blast

lemma quorum_common: "quorum Q \<Longrightarrow> quorum Q' \<Longrightarrow> \<exists>v \<in> members. v \<in> Q \<and> v \<in> Q'"
  using quorum_intersect quorum_members by blast

text \<open>A choice each member makes at most once has at most one outcome with a quorum.\<close>

lemma quorum_choice_unique:
  assumes "quorum {v \<in> members. choice v = Some a}" "quorum {v \<in> members. choice v = Some b}"
  shows "a = b"
  using quorum_common [OF assms] by auto

end

definition majority :: "nat \<Rightarrow> int set \<Rightarrow> bool" where
  "majority n Q \<longleftrightarrow> Q \<subseteq> {0..<int n} \<and> int (card Q) > int (n div 2)"

lemma majority_intersect:
  assumes "majority n Q" "majority n Q'"
  shows "Q \<inter> Q' \<noteq> {}"
proof
  assume "Q \<inter> Q' = {}"
  have fin: "finite Q" "finite Q'"
    using assms by (auto simp: majority_def intro: finite_subset)
  then have "card Q + card Q' = card (Q \<union> Q')" using \<open>Q \<inter> Q' = {}\<close> by (simp add: card_Un_disjoint)
  also have "\<dots> \<le> card {0..<int n}" using assms by (intro card_mono) (auto simp: majority_def)
  finally have "card Q + card Q' \<le> n" by simp
  moreover have "n div 2 < card Q" "n div 2 < card Q'" using assms by (simp_all add: majority_def)
  ultimately show False by presburger
qed

interpretation majorities: quorum_system "{0..<int n}" "majority n" for n
  by unfold_locales (simp_all add: majority_intersect, simp add: majority_def)

section \<open>Sending\<close>

text \<open>
  \<open>sendHeartBeat\<close> up to its RPC: \<open>None\<close> when it returns without calling. The
  index and slice expressions panic for a next index below 1 or beyond the log.
\<close>

definition sendHeartBeat_args :: "int \<Rightarrow> 'c Raft \<Rightarrow> 'c AppendEntriesArgs option res" where
  "sendHeartBeat_args peerId rf =
     (if killed rf then Inr None
      else if state rf \<noteq> LEADER then Inr None
      else bind_res (idx (nextIndex rf) peerId) (\<lambda>next.
           bind_res (slice_from (log rf) next) (\<lambda>entries.
           bind_res (idx (log rf) (next - 1)) (\<lambda>prev.
             Inr (Some \<lparr>aeTerm = currentTerm rf, LeaderId = me rf, PrevLogIndex = next - 1,
                        PrevLogTerm = entryTerm prev, Entries = entries,
                        LeaderCommit = commitIndex rf\<rparr>)))))"

text \<open>
  The receive in \<open>handleLeader\<close>: it blocks (\<open>None\<close>) until the heartbeat timer
  has a tick; then one \<open>sendHeartBeat\<close> goroutine for each other peer starts and the
  timer is reset.
\<close>

definition handleLeader_tick :: "'c Raft \<Rightarrow> ('c Raft \<times> int list) option" where
  "handleLeader_tick rf =
     (if tick (heartBeatTimer rf)
      then Some (rf\<lparr>heartBeatTimer := resetTimer ((heartBeatTimer rf)\<lparr>tick := False\<rparr>)\<rparr>,
                 other_peers rf)
      else None)"

section \<open>The reply\<close>

text \<open>How many peers are believed to hold the entry at index \<open>i\<close>.\<close>

definition replicas :: "int \<Rightarrow> 'c Raft \<Rightarrow> int" where
  "replicas i rf = foldl (\<lambda>total m. if m \<ge> i then total + 1 else total) 0 (matchIndex rf)"

text \<open>The loop \<open>for i := len(rf.log)-1; i > rf.commitIndex; i--\<close>, with \<open>k = i - commitIndex\<close>.\<close>

fun commit_scan :: "nat \<Rightarrow> 'c Raft \<Rightarrow> 'c Raft" where
  "commit_scan 0 rf = rf"
| "commit_scan (Suc k) rf =
     (let i = commitIndex rf + int (Suc k); half = int (peers rf div 2) in
      if replicas i rf > half then rf\<lparr>commitIndex := Max i (commitIndex rf)\<rparr>
      else commit_scan k rf)"

definition sendHeartBeat_reply ::
  "int \<Rightarrow> bool \<Rightarrow> AppendEntriesReply \<Rightarrow> 'c Raft \<Rightarrow> 'c Raft res" where
  "sendHeartBeat_reply peerId success reply rf =
     (if killed rf then Inr rf
      else if \<not> success then Inr rf
      else if state rf \<noteq> LEADER then Inr rf
      else if aeReplyTerm reply > currentTerm rf
      then Inr (TurnFollower (aeReplyTerm reply) NULL rf)
      else if Success reply
      then bind_res (upd (nextIndex rf) peerId (len (log rf))) (\<lambda>ni.
           bind_res (idx ni peerId) (\<lambda>next.
           bind_res (upd (matchIndex rf) peerId (next - 1)) (\<lambda>mi.
             let rf1 = rf\<lparr>nextIndex := ni, matchIndex := mi\<rparr> in
             applymsg (commit_scan (nat (len (log rf1) - 1 - commitIndex rf1)) rf1))))
      else bind_res (idx (nextIndex rf) peerId) (\<lambda>next.
           bind_res (upd (nextIndex rf) peerId (next - 1)) (\<lambda>ni.
             Inr (rf\<lparr>nextIndex := ni\<rparr>))))"

section \<open>The commit index after a reply\<close>

definition holders :: "int \<Rightarrow> 'c Raft \<Rightarrow> int set" where
  "holders i rf = {j \<in> {0..<int (length (matchIndex rf))}. i \<le> matchIndex rf ! nat j}"

lemma foldl_count: "foldl (\<lambda>total m. if m \<ge> i then total + 1 else total) t xs =
    t + int (card {j. j < length xs \<and> i \<le> xs ! j})" for i t :: int
proof (induction xs arbitrary: t rule: rev_induct)
  case (snoc x xs)
  have "{j. j < length (xs @ [x]) \<and> i \<le> (xs @ [x]) ! j} =
      {j. j < length xs \<and> i \<le> xs ! j} \<union> (if i \<le> x then {length xs} else {})"
    by (auto simp: nth_append less_Suc_eq)
  then show ?case using snoc by (simp add: card_insert_if)
qed simp

lemma replicas_holders: "replicas i rf = int (card (holders i rf))"
proof -
  have "holders i rf = int ` {j. j < length (matchIndex rf) \<and> i \<le> matchIndex rf ! j}"
  proof (rule set_eqI)
    fix x
    show "x \<in> holders i rf \<longleftrightarrow> x \<in> int ` {j. j < length (matchIndex rf) \<and> i \<le> matchIndex rf ! j}"
      by (cases x) (auto simp: holders_def image_iff)
  qed
  then show ?thesis by (simp add: replicas_def foldl_count card_image)
qed

lemma commit_scan_spec:
  defines "maj i rf \<equiv> replicas i rf > int (peers rf div 2)"
  shows "\<exists>c. commit_scan k rf = rf\<lparr>commitIndex := c\<rparr> \<and>
     commitIndex rf \<le> c \<and> c \<le> commitIndex rf + int k \<and>
     (c = commitIndex rf \<or> maj c rf) \<and>
     (\<forall>i. c < i \<and> i \<le> commitIndex rf + int k \<longrightarrow> \<not> maj i rf)"
proof (induction k)
  case 0
  then show ?case by (auto intro!: exI [of _ "commitIndex rf"])
next
  case (Suc k)
  show ?case
  proof (cases "maj (commitIndex rf + int (Suc k)) rf")
    case True
    then show ?thesis
      by (auto simp: Let_def maj_def Max_def intro!: exI [of _ "commitIndex rf + int (Suc k)"])
  next
    case False
    from Suc obtain c where "commit_scan k rf = rf\<lparr>commitIndex := c\<rparr>"
      "commitIndex rf \<le> c" "c \<le> commitIndex rf + int k" "c = commitIndex rf \<or> maj c rf"
      "\<forall>i. c < i \<and> i \<le> commitIndex rf + int k \<longrightarrow> \<not> maj i rf" by auto
    moreover from False this(5) have "\<not> maj i rf" if "c < i" "i \<le> commitIndex rf + int (Suc k)" for i
      using that by (cases "i = commitIndex rf + int (Suc k)") auto
    ultimately show ?thesis
      using False by (auto simp: Let_def maj_def intro!: exI [of _ c])
  qed
qed

lemma sendHeartBeat_args_ok:
  assumes "raft_ok rf" "\<not> killed rf" "state rf = LEADER" "0 \<le> p" "p < int (peers rf)"
    and "1 \<le> nextIndex rf ! nat p" "nextIndex rf ! nat p \<le> len (log rf)"
  shows "sendHeartBeat_args p rf =
    Inr (Some \<lparr>aeTerm = currentTerm rf, LeaderId = me rf,
       PrevLogIndex = nextIndex rf ! nat p - 1,
       PrevLogTerm = entryTerm (log rf ! nat (nextIndex rf ! nat p - 1)),
       Entries = drop (nat (nextIndex rf ! nat p)) (log rf), LeaderCommit = commitIndex rf\<rparr>)"
  using assms raft_okD [OF assms(1)]
  by (simp add: sendHeartBeat_args_def idx_def slice_from_def len_def)

text \<open>What a leader sends while its commit index lies within its log is well formed.\<close>

lemma sendHeartBeat_args_wf:
  assumes "raft_ok rf" "commitIndex rf < len (log rf)" "sendHeartBeat_args p rf = Inr (Some args)"
  shows "wf_args args" "aeTerm args = currentTerm rf" "state rf = LEADER" "LeaderId args = me rf"
    "take (nat (PrevLogIndex args) + 1) (log rf) @ Entries args = log rf"
    "log_matches args (log rf)"
  using assms raft_okD [OF assms(1)]
  by (auto simp: sendHeartBeat_args_def bind_res_Inr slice_Inr wf_args_def log_matches_def len_def
      nat_diff_distrib split: if_splits)

lemma raft_ok_indices [inv_intros]:
  "raft_ok rf \<Longrightarrow> length ni = peers rf \<Longrightarrow> length mi = peers rf \<Longrightarrow>
     raft_ok (rf\<lparr>nextIndex := ni, matchIndex := mi\<rparr>)"
  by (auto simp: raft_ok_def killed_def delivered_in_order_def)

lemma raft_ok_nextIndex [inv_intros]:
  "raft_ok rf \<Longrightarrow> length ni = peers rf \<Longrightarrow> raft_ok (rf\<lparr>nextIndex := ni\<rparr>)"
  by (auto simp: raft_ok_def killed_def delivered_in_order_def)

text \<open>After an accepted heartbeat the leader delivers up to its new commit index.\<close>

lemma applymsg_commit_scan:
  assumes "raft_ok rf" "\<not> killed rf"
  shows "\<exists>c. applymsg (commit_scan (nat (len (log rf) - 1 - commitIndex rf)) rf) = Inr (deliver c rf) \<and>
     commitIndex rf \<le> c \<and> (c = commitIndex rf \<or> c < len (log rf) \<and> replicas c rf > int (peers rf div 2)) \<and>
     (\<forall>i. c < i \<and> i < len (log rf) \<longrightarrow> replicas i rf \<le> int (peers rf div 2))"
proof -
  let ?k = "nat (len (log rf) - 1 - commitIndex rf)"
  obtain c where c: "commit_scan ?k rf = rf\<lparr>commitIndex := c\<rparr>" "commitIndex rf \<le> c"
    "c \<le> commitIndex rf + int ?k" "c = commitIndex rf \<or> replicas c rf > int (peers rf div 2)"
    "\<forall>i. c < i \<and> i \<le> commitIndex rf + int ?k \<longrightarrow> \<not> replicas i rf > int (peers rf div 2)"
    using commit_scan_spec [of ?k rf] by blast
  have "applymsg (rf\<lparr>commitIndex := c\<rparr>) = Inr (deliver c rf)"
  proof (cases "c = commitIndex rf")
    case True
    then show ?thesis
      using assms raft_okD [OF assms(1)] by (simp add: applymsg_idle deliver_def)
  next
    case False
    then have "c < len (log rf)" using c by linarith
    then show ?thesis
      using assms raft_okD [OF assms(1)] c(2) applymsg_sends [of "rf\<lparr>commitIndex := c\<rparr>"]
      by (simp add: deliver_def killed_def del: upt_Suc)
  qed
  moreover have "c = commitIndex rf \<or> c < len (log rf)" using c(2,3) by linarith
  moreover have "replicas i rf \<le> int (peers rf div 2)" if "c < i" "i < len (log rf)" for i
  proof -
    have "i \<le> commitIndex rf + int ?k" using that c(2) by linarith
    then show ?thesis using c(5) that by auto
  qed
  ultimately show ?thesis using c(2,4) unfolding c(1) by (intro exI [of _ c]) blast
qed

lemma sendHeartBeat_reply_cases:
  assumes "raft_ok rf" "0 \<le> p" "p < int (peers rf)"
  shows "\<exists>rf'. sendHeartBeat_reply p success reply rf = Inr rf' \<and>
    (if killed rf \<or> \<not> success \<or> state rf \<noteq> LEADER then rf' = rf
     else if aeReplyTerm reply > currentTerm rf then rf' = TurnFollower (aeReplyTerm reply) NULL rf
     else if Success reply
     then (\<exists>c. let rf1 = rf\<lparr>nextIndex := (nextIndex rf)[nat p := len (log rf)],
                            matchIndex := (matchIndex rf)[nat p := len (log rf) - 1]\<rparr> in
        rf' = deliver c rf1 \<and> commitIndex rf \<le> c \<and>
        (c = commitIndex rf \<or> c < len (log rf) \<and> replicas c rf1 > int (peers rf div 2)) \<and>
        (\<forall>i. c < i \<and> i < len (log rf) \<longrightarrow> replicas i rf1 \<le> int (peers rf div 2)))
     else rf' = rf\<lparr>nextIndex := (nextIndex rf)[nat p := nextIndex rf ! nat p - 1]\<rparr>)"
proof (cases "killed rf \<or> \<not> success \<or> state rf \<noteq> LEADER \<or> aeReplyTerm reply > currentTerm rf \<or> \<not> Success reply")
  case True
  then show ?thesis
    using assms raft_okD [OF assms(1)]
    by (auto simp: sendHeartBeat_reply_def idx_def upd_def len_def)
next
  case False
  let ?rf1 = "rf\<lparr>nextIndex := (nextIndex rf)[nat p := len (log rf)],
                 matchIndex := (matchIndex rf)[nat p := len (log rf) - 1]\<rparr>"
  have ok1: "raft_ok ?rf1" using assms raft_okD [OF assms(1)] by (intro raft_ok_indices) auto
  have "sendHeartBeat_reply p success reply rf =
     applymsg (commit_scan (nat (len (log ?rf1) - 1 - commitIndex ?rf1)) ?rf1)"
    using False assms raft_okD [OF assms(1)]
    by (simp add: sendHeartBeat_reply_def Let_def idx_def upd_def len_def)
  moreover have "\<not> killed ?rf1" using False by (simp add: killed_def)
  ultimately show ?thesis
    using False applymsg_commit_scan [OF ok1] by (simp add: Let_def) blast
qed

lemma sendHeartBeat_reply_returns:
  assumes "raft_ok rf" "0 \<le> p" "p < int (peers rf)"
  shows "\<exists>rf'. sendHeartBeat_reply p success reply rf = Inr rf' \<and> raft_ok rf'"
proof -
  obtain rf' where r: "sendHeartBeat_reply p success reply rf = Inr rf'" and
    c: "if killed rf \<or> \<not> success \<or> state rf \<noteq> LEADER then rf' = rf
     else if aeReplyTerm reply > currentTerm rf then rf' = TurnFollower (aeReplyTerm reply) NULL rf
     else if Success reply
     then (\<exists>c. let rf1 = rf\<lparr>nextIndex := (nextIndex rf)[nat p := len (log rf)],
                            matchIndex := (matchIndex rf)[nat p := len (log rf) - 1]\<rparr> in
        rf' = deliver c rf1 \<and> commitIndex rf \<le> c \<and>
        (c = commitIndex rf \<or> c < len (log rf) \<and> replicas c rf1 > int (peers rf div 2)) \<and>
        (\<forall>i. c < i \<and> i < len (log rf) \<longrightarrow> replicas i rf1 \<le> int (peers rf div 2)))
     else rf' = rf\<lparr>nextIndex := (nextIndex rf)[nat p := nextIndex rf ! nat p - 1]\<rparr>"
    using sendHeartBeat_reply_cases [OF assms] by blast
  have "raft_ok rf'"
    using c assms raft_okD [OF assms(1)]
    by (auto simp: Let_def split: if_splits
        intro!: raft_ok_TurnFollower raft_ok_deliver raft_ok_indices raft_ok_nextIndex)
  with r show ?thesis by blast
qed

end
