(* ===== verification/RaftNode.thy ===== *)
theory RaftNode
  imports RaftElection RaftLeader
begin

text \<open>
  One running peer of \<open>mp2/src/raft/raft.go\<close>: its \<open>Raft\<close> struct, the position of
  its \<open>maintain\<close> goroutine, and the goroutines that are between the two critical
  sections of becoming leader. An event is one critical section of one goroutine (an RPC
  handler, the processing of a reply, an iteration step of \<open>maintain\<close>) or a timer
  going off.
\<close>

datatype maintain_pc =
    MaintainTop \<comment> \<open>at the test of the \<open>for\<close> loop\<close>
  | InHandleLeader \<comment> \<open>calling \<open>handleLeader\<close>\<close>
  | WaitHeartBeat \<comment> \<open>blocked in the \<open>select\<close> of \<open>handleLeader\<close>\<close>
  | InElectionCheck \<comment> \<open>calling \<open>checkElectionTimeout\<close>\<close>
  | InStartElection \<comment> \<open>calling \<open>startElection\<close>\<close>
  | MaintainExited

record 'c Proc =
  raft :: "'c Raft"
  pc :: maintain_pc
  promoting :: nat \<comment> \<open>goroutines about to run \<open>TurnLeader\<close>\<close>
  arming :: nat \<comment> \<open>goroutines in \<open>TurnLeader\<close> after its \<open>Unlock\<close>\<close>

datatype 'c event =
    E_RequestVote RequestVoteArgs
  | E_AppendEntries "'c AppendEntriesArgs"
  | E_Start "'c option"
  | E_Kill
  | E_FireElection
  | E_FireHeartBeat
  | E_Maintain
  | E_VoteReply bool RequestVoteReply int
  | E_Promote
  | E_Arm
  | E_SendHeartBeat int
  | E_HeartBeatReply int bool AppendEntriesReply

datatype 'c outcome =
    O_None
  | O_Vote RequestVoteReply
  | O_Append AppendEntriesReply
  | O_Start int int bool
  | O_Election RequestVoteArgs int "int list"
  | O_HeartBeats "int list"
  | O_Args "'c AppendEntriesArgs option"
  | O_Votes int bool

section \<open>The steps\<close>

text \<open>
  One section of \<open>maintain\<close>. The killed test that ends an iteration and the one of
  the \<open>for\<close> loop see the same flag, so the former is left to the latter.
\<close>

definition maintain_step :: "'c Proc \<Rightarrow> ('c outcome \<times> 'c Proc) res option" where
  "maintain_step p =
     (let rf = raft p in
      case pc p of
        MaintainTop \<Rightarrow>
          Some (Inr (O_None, p\<lparr>pc := if killed rf then MaintainExited
                                     else if state rf = LEADER then InHandleLeader
                                     else InElectionCheck\<rparr>))
      | InHandleLeader \<Rightarrow>
          Some (Inr (O_None, p\<lparr>pc := if killed rf then MaintainTop else WaitHeartBeat\<rparr>))
      | WaitHeartBeat \<Rightarrow>
          (case handleLeader_tick rf of
             None \<Rightarrow> None
           | Some (rf1, ps) \<Rightarrow> Some (Inr (O_HeartBeats ps, p\<lparr>raft := rf1, pc := MaintainTop\<rparr>)))
      | InElectionCheck \<Rightarrow>
          (let (rf1, timeout) = checkElectionTimeout rf
           in Some (Inr (O_None, p\<lparr>raft := rf1,
                                   pc := if timeout then InStartElection else MaintainTop\<rparr>)))
      | InStartElection \<Rightarrow>
          Some (map_res (\<lambda>r. case r of
                  None \<Rightarrow> (O_None, p\<lparr>pc := MaintainTop\<rparr>)
                | Some (args, n, ps) \<Rightarrow> (O_Election args n ps, p\<lparr>pc := MaintainTop\<rparr>))
                (startElection rf))
      | MaintainExited \<Rightarrow> None)"

fun proc_step :: "'c event \<Rightarrow> 'c Proc \<Rightarrow> ('c outcome \<times> 'c Proc) res option" where
  "proc_step (E_RequestVote args) p =
     Some (map_res (\<lambda>(reply, rf). (O_Vote reply, p\<lparr>raft := rf\<rparr>)) (RequestVote args (raft p)))"
| "proc_step (E_AppendEntries args) p =
     Some (map_res (\<lambda>(reply, rf). (O_Append reply, p\<lparr>raft := rf\<rparr>)) (AppendEntries args (raft p)))"
| "proc_step (E_Start c) p =
     Some (map_res (\<lambda>((i, t, l), rf). (O_Start i t l, p\<lparr>raft := rf\<rparr>)) (Start c (raft p)))"
| "proc_step E_Kill p = Some (Inr (O_None, p\<lparr>raft := Kill (raft p)\<rparr>))"
| "proc_step E_FireElection p =
     Some (Inr (O_None, p\<lparr>raft := (raft p)\<lparr>electionTimer := timer_fire (electionTimer (raft p))\<rparr>\<rparr>))"
| "proc_step E_FireHeartBeat p =
     Some (Inr (O_None, p\<lparr>raft := (raft p)\<lparr>heartBeatTimer := timer_fire (heartBeatTimer (raft p))\<rparr>\<rparr>))"
| "proc_step E_Maintain p = maintain_step p"
| "proc_step (E_VoteReply success reply n) p =
     (let (rf, n1, won) = sendvote success reply n (raft p)
      in Some (Inr (O_Votes n1 won,
           p\<lparr>raft := rf, promoting := promoting p + (if won then 1 else 0)\<rparr>)))"
| "proc_step E_Promote p =
     (if promoting p = 0 then None
      else Some (map_res (\<lambda>rf. (O_None, p\<lparr>raft := rf, promoting := promoting p - 1,
                                          arming := arming p + 1\<rparr>))
                  (TurnLeader_locked (raft p))))"
| "proc_step E_Arm p =
     (if arming p = 0 then None
      else let (rf, ps) = TurnLeader_unlocked (raft p)
           in Some (Inr (O_HeartBeats ps, p\<lparr>raft := rf, arming := arming p - 1\<rparr>)))"
| "proc_step (E_SendHeartBeat peer) p =
     Some (map_res (\<lambda>a. (O_Args a, p)) (sendHeartBeat_args peer (raft p)))"
| "proc_step (E_HeartBeatReply peer success reply) p =
     Some (map_res (\<lambda>rf. (O_None, p\<lparr>raft := rf\<rparr>)) (sendHeartBeat_reply peer success reply (raft p)))"

definition spawn :: "nat \<Rightarrow> int \<Rightarrow> 'c Proc" where
  "spawn n i = \<lparr>raft = Make n i, pc = MaintainTop, promoting = 0, arming = 0\<rparr>"

section \<open>Which events keep a peer running\<close>

text \<open>
  Arguments of \<open>AppendEntries\<close> are well formed, heartbeats and replies concern real
  peers, and a leader's next index for the peer it calls lies within its log.
\<close>

fun legal_event :: "'c event \<Rightarrow> 'c Proc \<Rightarrow> bool" where
  "legal_event (E_AppendEntries args) p = wf_args args"
| "legal_event (E_SendHeartBeat peer) p =
     (0 \<le> peer \<and> peer < int (peers (raft p)) \<and>
      1 \<le> nextIndex (raft p) ! nat peer \<and> nextIndex (raft p) ! nat peer \<le> len (log (raft p)))"
| "legal_event (E_HeartBeatReply peer success reply) p = (0 \<le> peer \<and> peer < int (peers (raft p)))"
| "legal_event _ p = True"

definition any_event :: "'c event \<Rightarrow> 'c Proc \<Rightarrow> bool" where
  "any_event e p = True"

lemma raft_ok_timers [inv_intros]:
  "raft_ok rf \<Longrightarrow> timer_ok t \<Longrightarrow> raft_ok (rf\<lparr>electionTimer := t\<rparr>)"
  "raft_ok rf \<Longrightarrow> timer_ok t \<Longrightarrow> raft_ok (rf\<lparr>heartBeatTimer := t\<rparr>)"
  by (auto simp: raft_ok_def killed_def delivered_in_order_def)

lemma raft_ok_fire [inv_intros]:
  "raft_ok rf \<Longrightarrow> raft_ok (rf\<lparr>electionTimer := timer_fire (electionTimer rf)\<rparr>)"
  "raft_ok rf \<Longrightarrow> raft_ok (rf\<lparr>heartBeatTimer := timer_fire (heartBeatTimer rf)\<rparr>)"
  by (auto intro!: raft_ok_timers dest: raft_okD(12,13))

lemma timer_ok_drained [simp]: "timer_ok (t\<lparr>tick := False\<rparr>)"
  by (simp add: timer_ok_def)

lemma raft_ok_sendvote [inv_intros]:
  "raft_ok rf \<Longrightarrow> sendvote success reply n rf = (rf', n', won) \<Longrightarrow> raft_ok rf'"
  by (auto simp: sendvote_def Let_def raft_ok_def TurnFollower_def killed_def delivered_in_order_def
      split: if_splits)

lemma raft_ok_checkElectionTimeout:
  "raft_ok rf \<Longrightarrow> raft_ok (fst (checkElectionTimeout rf))"
  by (auto simp: checkElectionTimeout_def intro!: raft_ok_TurnCandidate raft_ok_timers)

lemma raft_ok_handleLeader_tick:
  "raft_ok rf \<Longrightarrow> handleLeader_tick rf = Some (rf', ps) \<Longrightarrow> raft_ok rf'"
  by (auto simp: handleLeader_tick_def intro!: raft_ok_timers split: if_splits)

lemma startElection_ok:
  assumes "raft_ok rf"
  shows "startElection rf = Inr (if killed rf then None
     else Some (\<lparr>rvTerm = currentTerm rf, CandidateId = me rf, LastLogIndex = len (log rf) - 1,
                LastLogTerm = entryTerm (last (log rf))\<rparr>, 1, other_peers rf))"
  using raft_okD(5) [OF assms] by (simp add: startElection_def idx_last)

lemma maintain_step_ok:
  assumes "raft_ok (raft p)" "maintain_step p = Some r"
  shows "\<exists>out p'. r = Inr (out, p') \<and> raft_ok (raft p')"
  using assms raft_ok_checkElectionTimeout [OF assms(1)]
  by (auto simp: maintain_step_def Let_def startElection_ok prod.case_eq_if
      split: maintain_pc.splits option.splits if_splits dest: raft_ok_handleLeader_tick)

lemma proc_step_ok:
  assumes "raft_ok (raft p)" "legal_event e p" "proc_step e p = Some r"
  shows "\<exists>out p'. r = Inr (out, p') \<and> raft_ok (raft p')"
proof (cases e)
  case (E_RequestVote args)
  then show ?thesis using assms RequestVote_returns [OF assms(1), of args] by auto
next
  case (E_AppendEntries args)
  then show ?thesis using assms AppendEntries_returns [OF assms(1), of args] by auto
next
  case (E_Start c)
  then show ?thesis using assms Start_returns [OF assms(1), of c] by auto
next
  case E_Maintain
  then show ?thesis using assms maintain_step_ok by auto
next
  case (E_SendHeartBeat peer)
  then show ?thesis
    using assms sendHeartBeat_args_ok [OF assms(1), of peer]
    by (cases "killed (raft p) \<or> state (raft p) \<noteq> LEADER") (auto simp: sendHeartBeat_args_def)
next
  case (E_HeartBeatReply peer success reply)
  then show ?thesis using assms sendHeartBeat_reply_returns [OF assms(1), of peer success reply] by auto
next
  case E_Promote
  then show ?thesis
    using assms raft_ok_TurnLeader_locked [OF assms(1)] TurnLeader_locked_ok [OF assms(1)]
    by (auto split: if_splits)
next
  case E_Arm
  then show ?thesis
    using assms raft_ok_TurnLeader_unlocked [OF assms(1)] by (auto split: if_splits prod.splits)
next
  case (E_VoteReply success reply n)
  then show ?thesis using assms by (auto split: prod.splits intro: raft_ok_sendvote)
qed (use assms in \<open>auto intro: inv_intros\<close>)

interpretation peer: safe_machine proc_step legal_event "\<lambda>p. raft_ok (raft p)"
  by unfold_locales (auto dest: proc_step_ok)

section \<open>Terms and commit indices only grow\<close>

lemma sendvote_mono:
  "sendvote success reply n rf = (rf', n', won) \<Longrightarrow>
     currentTerm rf \<le> currentTerm rf' \<and> commitIndex rf' = commitIndex rf \<and> log rf' = log rf"
  by (auto simp: sendvote_def Let_def TurnFollower_def split: if_splits)

lemma maintain_mono:
  "raft_ok (raft p) \<Longrightarrow> maintain_step p = Some (Inr (out, p')) \<Longrightarrow>
     currentTerm (raft p) \<le> currentTerm (raft p') \<and> commitIndex (raft p') = commitIndex (raft p)
     \<and> log (raft p') = log (raft p)"
  by (auto simp: maintain_step_def Let_def startElection_ok checkElectionTimeout_def
      TurnCandidate_def handleLeader_tick_def
      split: maintain_pc.splits option.splits if_splits)

lemma heartbeat_reply_mono:
  assumes "raft_ok rf" "0 \<le> p" "p < int (peers rf)" "sendHeartBeat_reply p success reply rf = Inr rf'"
  shows "currentTerm rf \<le> currentTerm rf' \<and> commitIndex rf \<le> commitIndex rf' \<and> log rf' = log rf"
  using sendHeartBeat_reply_cases [OF assms(1-3), of success reply] assms(4)
  by (auto simp: Let_def TurnFollower_def split: if_splits)

lemma proc_step_mono:
  assumes "raft_ok (raft p)" "legal_event e p" "proc_step e p = Some (Inr (out, p'))"
  shows "currentTerm (raft p) \<le> currentTerm (raft p') \<and> commitIndex (raft p) \<le> commitIndex (raft p')"
proof (cases e)
  case (E_RequestVote args)
  then show ?thesis
    using assms raft_okD(5) [OF assms(1)]
    by (auto simp: map_res_Inr dest: RequestVote_term RequestVote_frame)
next
  case (E_AppendEntries args)
  then show ?thesis
    using assms by (auto simp: map_res_Inr dest: AppendEntries_term)
next
  case (E_Start c)
  then show ?thesis using assms by (auto simp: map_res_Inr Start_ok split: if_splits)
next
  case E_Maintain
  then show ?thesis using assms maintain_mono by auto
next
  case (E_HeartBeatReply peer success reply)
  then show ?thesis using assms heartbeat_reply_mono [of "raft p" peer success reply]
    by (auto simp: map_res_Inr)
next
  case (E_VoteReply success reply n)
  then show ?thesis using assms by (auto split: prod.splits dest!: sendvote_mono)
next
  case E_Promote
  then show ?thesis using assms
    by (auto simp: map_res_Inr TurnLeader_locked_ok split: if_splits)
qed (use assms in \<open>auto simp: Kill_def TurnLeader_unlocked_def map_res_Inr split: if_splits\<close>)

interpretation peer_term: monotone_machine proc_step legal_event "\<lambda>p. raft_ok (raft p)"
    "\<lambda>p. currentTerm (raft p)"
  by unfold_locales (auto dest: proc_step_mono)

interpretation peer_commit: monotone_machine proc_step legal_event "\<lambda>p. raft_ok (raft p)"
    "\<lambda>p. commitIndex (raft p)"
  by unfold_locales (auto dest: proc_step_mono)

section \<open>Frames of the role, the term and the vote\<close>

text \<open>
  The part of the state elections are about, together with the heartbeat timer. These
  facts need no invariant: they hold whenever the code returns.
\<close>

definition core :: "'c Raft \<Rightarrow> int \<times> nat \<times> role \<times> int \<times> int \<times> Timer" where
  "core rf = (me rf, peers rf, state rf, currentTerm rf, votedFor rf, heartBeatTimer rf)"

lemma core_eq [simp]: "core rf' = core rf \<longleftrightarrow> me rf' = me rf \<and> peers rf' = peers rf \<and>
    state rf' = state rf \<and> currentTerm rf' = currentTerm rf \<and> votedFor rf' = votedFor rf \<and>
    heartBeatTimer rf' = heartBeatTimer rf"
  by (simp add: core_def)

lemma apply_loop_frame: "apply_loop n rf = Inr rf' \<Longrightarrow> core rf' = core rf"
  by (induction n arbitrary: rf) (auto simp: Let_def bind_res_Inr)

lemma applymsg_frame: "applymsg rf = Inr rf' \<Longrightarrow> core rf' = core rf"
  by (auto simp: applymsg_def bind_res_Inr dest!: apply_loop_frame split: if_splits)

lemma append_new_frame: "append_new args rf = Inr rf' \<Longrightarrow> core rf' = core rf"
  by (auto simp: append_new_def bind_res_Inr split: if_splits)

lemma advance_commit_frame: "core (advance_commit c rf) = core rf"
  by (simp add: advance_commit_def)

lemma commit_scan_frame: "core (commit_scan k rf) = core rf"
  using commit_scan_spec [of k rf] by auto

lemma reset_indices_frame: "for_res is reset_indices rf = Inr rf' \<Longrightarrow> core rf' = core rf"
  by (induction "is" arbitrary: rf) (auto simp: bind_res_Inr reset_indices_def)

lemma TurnLeader_locked_core:
  "TurnLeader_locked rf = Inr rf' \<Longrightarrow> core rf' = core (rf\<lparr>state := LEADER\<rparr>)"
  by (auto simp: TurnLeader_locked_def dest!: reset_indices_frame)

lemma Start_core: "Start c rf = Inr (r, rf') \<Longrightarrow> core rf' = core rf"
  by (auto simp: Start_def Let_def bind_res_Inr split: if_splits)

lemma heartbeat_reply_core:
  "sendHeartBeat_reply p success reply rf = Inr rf' \<Longrightarrow> core rf' = core rf \<or>
     aeReplyTerm reply > currentTerm rf \<and> rf' = TurnFollower (aeReplyTerm reply) NULL rf"
  by (auto simp: sendHeartBeat_reply_def Let_def bind_res_Inr commit_scan_frame [unfolded core_eq]
      split: if_splits dest!: applymsg_frame)

text \<open>
  What \<open>AppendEntries\<close> does to it: nothing, except that a request of this or a later
  term makes the peer a follower of that term. The vote of a peer that was already a
  follower in this term stays.
\<close>

lemma AppendEntries_core:
  assumes "AppendEntries args rf = Inr (reply, rf')"
  shows "core rf' = core rf \<or>
    (currentTerm rf \<le> aeTerm args \<and> core rf' = core (step_down args rf))"
  using assms
  by (auto simp: AppendEntries_def Let_def bind_res_Inr advance_commit_frame [unfolded core_eq]
      split: if_splits dest!: append_new_frame applymsg_frame)

lemma step_down_cases:
  assumes "currentTerm rf \<le> aeTerm args"
  shows "state (step_down args rf) = FOLLOWER \<and> currentTerm (step_down args rf) = aeTerm args \<and>
     (currentTerm rf = aeTerm args \<and> state rf = FOLLOWER \<longrightarrow> votedFor (step_down args rf) = votedFor rf) \<and>
     (state rf = FOLLOWER \<longrightarrow> heartBeatTimer (step_down args rf) = heartBeatTimer rf)"
  using assms by (auto simp: step_down_def Let_def TurnFollower_def)

text \<open>What \<open>RequestVote\<close> does to it.\<close>

lemma RequestVote_core:
  assumes "RequestVote args rf = Inr (reply, rf')"
  shows "me rf' = me rf" "peers rf' = peers rf" "currentTerm rf \<le> currentTerm rf'"
    "currentTerm rf < currentTerm rf' \<Longrightarrow> state rf' = FOLLOWER"
    "currentTerm rf = currentTerm rf' \<Longrightarrow> state rf' = state rf"
    "currentTerm rf = currentTerm rf' \<Longrightarrow> \<not> VoteGranted reply \<Longrightarrow> votedFor rf' = votedFor rf"
    "VoteGranted reply \<Longrightarrow> currentTerm rf' = rvTerm args"
    "VoteGranted reply \<Longrightarrow> votedFor rf' = CandidateId args"
    "VoteGranted reply \<Longrightarrow> currentTerm rf = rvTerm args \<Longrightarrow> votedFor rf \<in> {NULL, CandidateId args}"
    "VoteGranted reply \<Longrightarrow> rvReplyTerm reply = rvTerm args"
    "state rf = FOLLOWER \<Longrightarrow> state rf' = FOLLOWER \<and> heartBeatTimer rf' = heartBeatTimer rf"
  using assms
  by (cases rule: RequestVote_shape; auto simp: adopt_term_def may_vote_def TurnFollower_def split: if_splits)+

section \<open>A deposed leader that waits for its heartbeat timer\<close>

text \<open>
  \<open>TurnFollower\<close> stops the heartbeat timer; the \<open>maintain\<close> goroutine of a peer
  that was leader waits for exactly this timer, and is the only one that looks at the
  election timer.
\<close>

definition deposed_waiting :: "'c Proc \<Rightarrow> bool" where
  "deposed_waiting p \<longleftrightarrow>
     pc p = WaitHeartBeat \<and> state (raft p) = FOLLOWER \<and>
     \<not> running (heartBeatTimer (raft p)) \<and> \<not> tick (heartBeatTimer (raft p)) \<and>
     promoting p = 0 \<and> arming p = 0"


lemma deposed_waiting_step:
  assumes "deposed_waiting p" "proc_step e p = Some (Inr (out, p'))"
  shows "deposed_waiting p'"
proof (cases e)
  case (E_AppendEntries args)
  then show ?thesis
    using assms step_down_cases [of "raft p" args]
    by (auto simp: deposed_waiting_def map_res_Inr dest!: AppendEntries_core)
next
  case (E_RequestVote args)
  then show ?thesis
    using assms by (auto simp: deposed_waiting_def map_res_Inr dest!: RequestVote_core(11))
qed (use assms in \<open>auto simp: deposed_waiting_def map_res_Inr timer_fire_def Kill_def sendvote_def
        Start_def maintain_step_def handleLeader_tick_def sendHeartBeat_reply_def
        split: prod.splits if_splits\<close>)

interpretation deposed: invariant_machine proc_step any_event deposed_waiting
  by unfold_locales (rule deposed_waiting_step)

end
