(* ===== verification/RaftCluster.thy ===== *)
theory RaftCluster
  imports RaftNode
begin

text \<open>
  Several peers of \<open>mp2/src/raft/raft.go\<close> and the goroutines that talk between
  them: one \<open>sendvote\<close> per election and peer, one \<open>sendHeartBeat\<close> per call.
  An RPC runs its handler at the callee at some moment between call and return, or never;
  the caller then sees the reply, or a failure even though the handler ran
  (\<open>labrpc\<close> loses requests and replies, and reorders them).
\<close>

section \<open>Goroutines\<close>

datatype vote_goroutine =
    Idle \<comment> \<open>no goroutine for this peer\<close>
  | Calling
  | Returned bool RequestVoteReply \<comment> \<open>\<open>Call\<close> returned; the reply is not processed yet\<close>
  | Counted \<comment> \<open>finished, and it incremented the vote counter\<close>
  | Ignored \<comment> \<open>finished otherwise\<close>

record Election =
  cand :: int
  eargs :: RequestVoteArgs
  voteNum :: int
  votes :: "int \<Rightarrow> vote_goroutine"

datatype 'c hb_goroutine =
    HB_Start
  | HB_Calling "'c AppendEntriesArgs"
  | HB_Returned "'c AppendEntriesArgs" bool AppendEntriesReply
  | HB_Done

record 'c HeartBeat =
  hbFrom :: int
  hbTo :: int
  hbState :: "'c hb_goroutine"

record 'c Cluster =
  servers :: nat
  procs :: "int \<Rightarrow> 'c Proc"
  elections :: "Election list"
  heartbeats :: "'c HeartBeat list"

definition init_cluster :: "nat \<Rightarrow> 'c Cluster" where
  "init_cluster n = \<lparr>servers = n, procs = spawn n, elections = [], heartbeats = []\<rparr>"

section \<open>Steps\<close>

datatype 'c action =
    Local int "'c event"
  | CallVote nat int bool \<comment> \<open>the handler runs; the flag: its reply arrives\<close>
  | FailVote nat int
  | VoteReturn nat int
  | HeartBeatCall nat
  | CallAppend nat bool
  | FailAppend nat
  | HeartBeatReturn nat

fun local_event :: "'c event \<Rightarrow> bool" where
  "local_event (E_Start c) = True"
| "local_event E_Kill = True"
| "local_event E_FireElection = True"
| "local_event E_FireHeartBeat = True"
| "local_event E_Maintain = True"
| "local_event E_Promote = True"
| "local_event E_Arm = True"
| "local_event _ = False"

definition on_proc :: "int \<Rightarrow> 'c event \<Rightarrow> ('c outcome \<Rightarrow> 'c Cluster \<Rightarrow> 'c Cluster) \<Rightarrow>
    'c Cluster \<Rightarrow> (unit \<times> 'c Cluster) res option" where
  "on_proc i e k c =
     (case proc_step e (procs c i) of
        None \<Rightarrow> None
      | Some r \<Rightarrow> Some (map_res (\<lambda>(out, p). ((), k out (c\<lparr>procs := (procs c)(i := p)\<rparr>))) r))"

text \<open>What a section starts: the goroutines of an election, or of a round of heartbeats.\<close>

fun spawn_goroutines :: "int \<Rightarrow> 'c outcome \<Rightarrow> 'c Cluster \<Rightarrow> 'c Cluster" where
  "spawn_goroutines i (O_Election args n ps) c =
     c\<lparr>elections := elections c @
        [\<lparr>cand = i, eargs = args, voteNum = n, votes = (\<lambda>j. if j \<in> set ps then Calling else Idle)\<rparr>]\<rparr>"
| "spawn_goroutines i (O_HeartBeats ps) c =
     c\<lparr>heartbeats := heartbeats c @ map (\<lambda>j. \<lparr>hbFrom = i, hbTo = j, hbState = HB_Start\<rparr>) ps\<rparr>"
| "spawn_goroutines i _ c = c"

definition set_election :: "nat \<Rightarrow> Election \<Rightarrow> 'c Cluster \<Rightarrow> 'c Cluster" where
  "set_election k e c = c\<lparr>elections := (elections c)[k := e]\<rparr>"

definition set_vote :: "nat \<Rightarrow> int \<Rightarrow> vote_goroutine \<Rightarrow> 'c Cluster \<Rightarrow> 'c Cluster" where
  "set_vote k j g c =
     (let e = elections c ! k in set_election k (e\<lparr>votes := (votes e)(j := g)\<rparr>) c)"

definition set_heartbeat :: "nat \<Rightarrow> 'c hb_goroutine \<Rightarrow> 'c Cluster \<Rightarrow> 'c Cluster" where
  "set_heartbeat k g c =
     c\<lparr>heartbeats := (heartbeats c)[k := (heartbeats c ! k)\<lparr>hbState := g\<rparr>]\<rparr>"

definition vote_reply :: "nat \<Rightarrow> int \<Rightarrow> bool \<Rightarrow> 'c outcome \<Rightarrow> 'c Cluster \<Rightarrow> 'c Cluster" where
  "vote_reply k j arrives out c =
     (case out of
        O_Vote reply \<Rightarrow>
          set_vote k j (if arrives then Returned True reply else Returned False RequestVoteReply_zero) c
      | _ \<Rightarrow> c)"

definition count_vote :: "nat \<Rightarrow> int \<Rightarrow> 'c outcome \<Rightarrow> 'c Cluster \<Rightarrow> 'c Cluster" where
  "count_vote k j out c =
     (case out of
        O_Votes n won \<Rightarrow>
          (let e = elections c ! k
           in set_election k (e\<lparr>voteNum := n,
                votes := (votes e)(j := if n \<noteq> voteNum e then Counted else Ignored)\<rparr>) c)
      | _ \<Rightarrow> c)"

definition begin_call :: "nat \<Rightarrow> 'c outcome \<Rightarrow> 'c Cluster \<Rightarrow> 'c Cluster" where
  "begin_call k out c =
     (case out of
        O_Args (Some args) \<Rightarrow> set_heartbeat k (HB_Calling args) c
      | O_Args None \<Rightarrow> set_heartbeat k HB_Done c
      | _ \<Rightarrow> c)"

definition append_reply ::
    "nat \<Rightarrow> 'c AppendEntriesArgs \<Rightarrow> bool \<Rightarrow> 'c outcome \<Rightarrow> 'c Cluster \<Rightarrow> 'c Cluster" where
  "append_reply k args arrives out c =
     (case out of
        O_Append reply \<Rightarrow>
          set_heartbeat k (if arrives then HB_Returned args True reply
                           else HB_Returned args False AppendEntriesReply_zero) c
      | _ \<Rightarrow> c)"

fun cluster_step :: "'c action \<Rightarrow> 'c Cluster \<Rightarrow> (unit \<times> 'c Cluster) res option" where
  "cluster_step (Local i e) c =
     (if 0 \<le> i \<and> i < int (servers c) \<and> local_event e then on_proc i e (spawn_goroutines i) c else None)"
| "cluster_step (CallVote k j arrives) c =
     (if k < length (elections c) \<and> votes (elections c ! k) j = Calling
      then on_proc j (E_RequestVote (eargs (elections c ! k))) (vote_reply k j arrives) c
      else None)"
| "cluster_step (FailVote k j) c =
     (if k < length (elections c) \<and> votes (elections c ! k) j = Calling
      then Some (Inr ((), set_vote k j (Returned False RequestVoteReply_zero) c))
      else None)"
| "cluster_step (VoteReturn k j) c =
     (if k < length (elections c)
      then let e = elections c ! k in
           case votes e j of
             Returned success reply \<Rightarrow>
               on_proc (cand e) (E_VoteReply success reply (voteNum e)) (count_vote k j) c
           | _ \<Rightarrow> None
      else None)"
| "cluster_step (HeartBeatCall k) c =
     (if k < length (heartbeats c) \<and> hbState (heartbeats c ! k) = HB_Start
      then let h = heartbeats c ! k in
           on_proc (hbFrom h) (E_SendHeartBeat (hbTo h)) (begin_call k) c
      else None)"
| "cluster_step (CallAppend k arrives) c =
     (if k < length (heartbeats c)
      then let h = heartbeats c ! k in
           case hbState h of
             HB_Calling args \<Rightarrow> on_proc (hbTo h) (E_AppendEntries args) (append_reply k args arrives) c
           | _ \<Rightarrow> None
      else None)"
| "cluster_step (FailAppend k) c =
     (if k < length (heartbeats c)
      then case hbState (heartbeats c ! k) of
             HB_Calling args \<Rightarrow> Some (Inr ((), set_heartbeat k (HB_Returned args False AppendEntriesReply_zero) c))
           | _ \<Rightarrow> None
      else None)"
| "cluster_step (HeartBeatReturn k) c =
     (if k < length (heartbeats c)
      then let h = heartbeats c ! k in
           case hbState h of
             HB_Returned args success reply \<Rightarrow>
               on_proc (hbFrom h) (E_HeartBeatReply (hbTo h) success reply)
                 (\<lambda>_. set_heartbeat k HB_Done) c
           | _ \<Rightarrow> None
      else None)"

section \<open>Schedules without the two races\<close>

text \<open>
  The code gives up the lock between winning an election and \<open>TurnLeader\<close>, and it
  counts a granted vote without comparing the term of the election with the current one.
  A schedule is orderly when no step of another goroutine falls into this gap and no vote
  of an older election is counted.
\<close>

definition stale_vote :: "nat \<Rightarrow> int \<Rightarrow> 'c Cluster \<Rightarrow> bool" where
  "stale_vote k j c \<longleftrightarrow>
     (let e = elections c ! k; rf = raft (procs c (cand e)) in
      case votes e j of
        Returned success reply \<Rightarrow>
          success \<and> VoteGranted reply \<and> state rf = CANDIDATE \<and> currentTerm rf \<noteq> rvTerm (eargs e)
      | _ \<Rightarrow> False)"

fun uses_stale_vote :: "'c action \<Rightarrow> 'c Cluster \<Rightarrow> bool" where
  "uses_stale_vote (VoteReturn k j) c = stale_vote k j c"
| "uses_stale_vote _ c = False"

fun is_promotion :: "int \<Rightarrow> 'c action \<Rightarrow> bool" where
  "is_promotion i (Local j E_Promote) = (j = i)"
| "is_promotion i _ = False"

definition overtakes_promotion :: "'c action \<Rightarrow> 'c Cluster \<Rightarrow> bool" where
  "overtakes_promotion a c \<longleftrightarrow>
     list_ex (\<lambda>i. promoting (procs c i) > 0 \<and> \<not> is_promotion i a) (indices (servers c))"

lemma is_promotionD: "is_promotion i a \<Longrightarrow> a = Local i E_Promote"
  by (cases "(i, a)" rule: is_promotion.cases) auto

definition orderly :: "'c action \<Rightarrow> 'c Cluster \<Rightarrow> bool" where
  "orderly a c \<longleftrightarrow> \<not> uses_stale_vote a c \<and> \<not> overtakes_promotion a c"

definition any_action :: "'c action \<Rightarrow> 'c Cluster \<Rightarrow> bool" where
  "any_action a c = True"

end
