(* ===== verification/RaftSafety.thy ===== *)
theory RaftSafety
  imports RaftCluster
begin

text \<open>
  Election safety of the cluster: in every orderly run there is at most one leader per
  term. The invariant relates the votes that count for an election with the state of the
  voters.
\<close>

section \<open>The invariant\<close>

definition nodes :: "'c Cluster \<Rightarrow> int set" where
  "nodes c = {0..<int (servers c)}"

abbreviation rf_at :: "'c Cluster \<Rightarrow> int \<Rightarrow> 'c Raft" where
  "rf_at c i \<equiv> raft (procs c i)"

abbreviation eterm :: "Election \<Rightarrow> int" where
  "eterm e \<equiv> rvTerm (eargs e)"

text \<open>The peers whose vote is counted or about to be counted.\<close>

definition voters :: "Election \<Rightarrow> int set" where
  "voters e = {j. votes e j = Counted \<or> (\<exists>r. votes e j = Returned True r \<and> VoteGranted r)}"

text \<open>An election is won when a counted vote brings the counter above half of the peers.\<close>

definition won :: "'c Cluster \<Rightarrow> Election \<Rightarrow> bool" where
  "won c e \<longleftrightarrow> voteNum e > int (servers c div 2) \<and> voteNum e > 1"

definition ids_ok :: "'c Cluster \<Rightarrow> bool" where
  "ids_ok c \<longleftrightarrow> (\<forall>i \<in> nodes c. me (rf_at c i) = i \<and> peers (rf_at c i) = servers c)"

definition election_ok :: "'c Cluster \<Rightarrow> Election \<Rightarrow> bool" where
  "election_ok c e \<longleftrightarrow> cand e \<in> nodes c \<and> CandidateId (eargs e) = cand e \<and>
     (\<forall>j. votes e j \<noteq> Idle \<longrightarrow> j \<in> nodes c \<and> j \<noteq> cand e) \<and>
     voteNum e = 1 + int (card {j. votes e j = Counted})"

definition voters_ok :: "'c Cluster \<Rightarrow> Election \<Rightarrow> bool" where
  "voters_ok c e \<longleftrightarrow> (\<forall>v \<in> voters e. eterm e < currentTerm (rf_at c v) \<or>
     currentTerm (rf_at c v) = eterm e \<and> votedFor (rf_at c v) = cand e \<and> state (rf_at c v) = FOLLOWER)"

definition once_ok :: "Election set \<Rightarrow> bool" where
  "once_ok E \<longleftrightarrow> (\<forall>e \<in> E. \<forall>e' \<in> E. eterm e = eterm e' \<and> voters e \<inter> voters e' \<noteq> {} \<longrightarrow> cand e = cand e')"

lemma onceD: "once_ok E \<Longrightarrow> e \<in> E \<Longrightarrow> e' \<in> E \<Longrightarrow> eterm e = eterm e' \<Longrightarrow> v \<in> voters e \<Longrightarrow>
    v \<in> voters e' \<Longrightarrow> cand e = cand e'"
  unfolding once_ok_def by blast

definition won_ok :: "'c Cluster \<Rightarrow> Election \<Rightarrow> bool" where
  "won_ok c e \<longleftrightarrow> (won c e \<longrightarrow>
     (eterm e < currentTerm (rf_at c (cand e)) \<or>
      currentTerm (rf_at c (cand e)) = eterm e \<and> state (rf_at c (cand e)) \<noteq> FOLLOWER) \<and>
     (\<forall>e' \<in> set (elections c). eterm e' = eterm e \<longrightarrow> cand e \<notin> voters e'))"

definition vote_own :: "'c Cluster \<Rightarrow> bool" where
  "vote_own c \<longleftrightarrow> (\<forall>i \<in> nodes c. state (rf_at c i) \<noteq> FOLLOWER \<longrightarrow> votedFor (rf_at c i) = i)"

definition elected :: "'c Cluster \<Rightarrow> int \<Rightarrow> int \<Rightarrow> bool" where
  "elected c i t \<longleftrightarrow> (\<exists>e \<in> set (elections c). cand e = i \<and> eterm e = t \<and> won c e)"

definition leaders_ok :: "'c Cluster \<Rightarrow> bool" where
  "leaders_ok c \<longleftrightarrow> (\<forall>i \<in> nodes c.
     (state (rf_at c i) = LEADER \<longrightarrow> elected c i (currentTerm (rf_at c i))) \<and>
     (promoting (procs c i) > 0 \<longrightarrow> state (rf_at c i) = LEADER))"

definition heartbeat_ok :: "'c Cluster \<Rightarrow> 'c HeartBeat \<Rightarrow> bool" where
  "heartbeat_ok c h \<longleftrightarrow> hbFrom h \<in> nodes c \<and> hbTo h \<in> nodes c \<and> hbFrom h \<noteq> hbTo h \<and>
     (\<forall>args. hbState h = HB_Calling args \<longrightarrow> elected c (hbFrom h) (aeTerm args))"

definition es_inv :: "'c Cluster \<Rightarrow> bool" where
  "es_inv c \<longleftrightarrow> ids_ok c \<and> vote_own c \<and> leaders_ok c \<and> once_ok (set (elections c)) \<and>
     (\<forall>e \<in> set (elections c). election_ok c e \<and> voters_ok c e \<and> won_ok c e) \<and>
     (\<forall>h \<in> set (heartbeats c). heartbeat_ok c h)"

lemmas es_defs = es_inv_def ids_ok_def vote_own_def leaders_ok_def once_ok_def election_ok_def
  voters_ok_def won_ok_def heartbeat_ok_def elected_def won_def nodes_def

section \<open>Elections won for the same term have the same winner\<close>

lemma voters_sub: "election_ok c e \<Longrightarrow> voters e \<subseteq> nodes c - {cand e}"
proof
  fix v assume ok: "election_ok c e" and "v \<in> voters e"
  then have "votes e v \<noteq> Idle" by (auto simp: voters_def)
  with ok show "v \<in> nodes c - {cand e}" by (auto simp: election_ok_def)
qed

lemma won_majority:
  assumes "election_ok c e" "won c e"
  shows "majority (servers c) (insert (cand e) (voters e))"
proof -
  have sub: "voters e \<subseteq> nodes c - {cand e}" and c: "cand e \<in> nodes c"
    using assms(1) voters_sub by (auto simp: election_ok_def)
  have fin: "finite (voters e)" using sub by (rule finite_subset) (simp add: nodes_def)
  have "card {j. votes e j = Counted} \<le> card (voters e)"
    using fin by (intro card_mono) (auto simp: voters_def)
  moreover have "card (insert (cand e) (voters e)) = Suc (card (voters e))"
    using sub fin by (subst card_insert_disjoint) auto
  ultimately show ?thesis
    using assms sub c by (auto simp: majority_def won_def election_ok_def nodes_def)
qed

lemma won_unique:
  assumes inv: "es_inv c" and e: "e \<in> set (elections c)" "won c e"
    and e': "e' \<in> set (elections c)" "won c e'" and t: "eterm e = eterm e'"
  shows "cand e = cand e'"
proof -
  have ok: "election_ok c e" "election_ok c e'" "won_ok c e" "won_ok c e'" "once_ok (set (elections c))"
    using inv e e' by (auto simp: es_inv_def)
  obtain v where "v \<in> insert (cand e) (voters e)" "v \<in> insert (cand e') (voters e')"
    using majorities.quorum_common [OF won_majority won_majority, OF ok(1) e(2) ok(2) e'(2)] by auto
  moreover have "cand e \<notin> voters e'" "cand e' \<notin> voters e"
    using ok(3,4) e e' t by (auto simp: won_ok_def)
  ultimately show ?thesis using ok(5) e(1) e'(1) t by (auto simp: once_ok_def)
qed

lemma elected_unique: "es_inv c \<Longrightarrow> elected c i t \<Longrightarrow> elected c j t \<Longrightarrow> i = j"
  by (auto simp: elected_def dest: won_unique)

lemma one_leader:
  assumes "es_inv c" "i \<in> nodes c" "j \<in> nodes c" "state (rf_at c i) = LEADER"
    "state (rf_at c j) = LEADER" "currentTerm (rf_at c i) = currentTerm (rf_at c j)"
  shows "i = j"
proof -
  have "elected c i (currentTerm (rf_at c i))" "elected c j (currentTerm (rf_at c i))"
    using assms by (auto simp: es_inv_def leaders_ok_def)
  then show ?thesis using assms(1) by (rule elected_unique [rotated])
qed

section \<open>Changes of one peer\<close>

text \<open>
  What a section of code may do to its own peer \<open>i\<close>, as far as elections are
  concerned; \<open>el t\<close> says that \<open>i\<close> won the election of term \<open>t\<close>.
\<close>

definition peer_change :: "(int \<Rightarrow> bool) \<Rightarrow> int \<Rightarrow> 'c Proc \<Rightarrow> 'c Proc \<Rightarrow> bool" where
  "peer_change el i p p' \<longleftrightarrow>
     me (raft p') = me (raft p) \<and> peers (raft p') = peers (raft p) \<and>
     currentTerm (raft p) \<le> currentTerm (raft p') \<and>
     (currentTerm (raft p') = currentTerm (raft p) \<longrightarrow>
        (state (raft p) = FOLLOWER \<and> votedFor (raft p) \<noteq> NULL \<longrightarrow>
           votedFor (raft p') = votedFor (raft p) \<and> state (raft p') = FOLLOWER) \<and>
        (state (raft p) \<noteq> FOLLOWER \<and> el (currentTerm (raft p)) \<longrightarrow> state (raft p') \<noteq> FOLLOWER)) \<and>
     (state (raft p') \<noteq> FOLLOWER \<longrightarrow> votedFor (raft p') = i) \<and>
     (state (raft p') = LEADER \<longrightarrow> el (currentTerm (raft p'))) \<and>
     (promoting p' > 0 \<longrightarrow> state (raft p') = LEADER)"

lemma peer_changeD:
  assumes "peer_change el i p p'"
  shows "me (raft p') = me (raft p)" "peers (raft p') = peers (raft p)"
    "currentTerm (raft p) \<le> currentTerm (raft p')"
    "currentTerm (raft p') = currentTerm (raft p) \<Longrightarrow> state (raft p) = FOLLOWER \<Longrightarrow>
       votedFor (raft p) \<noteq> NULL \<Longrightarrow> votedFor (raft p') = votedFor (raft p) \<and> state (raft p') = FOLLOWER"
    "currentTerm (raft p') = currentTerm (raft p) \<Longrightarrow> state (raft p) \<noteq> FOLLOWER \<Longrightarrow>
       el (currentTerm (raft p)) \<Longrightarrow> state (raft p') \<noteq> FOLLOWER"
    "state (raft p') \<noteq> FOLLOWER \<Longrightarrow> votedFor (raft p') = i"
    "state (raft p') = LEADER \<Longrightarrow> el (currentTerm (raft p'))"
    "promoting p' > 0 \<Longrightarrow> state (raft p') = LEADER"
  using assms unfolding peer_change_def by blast+

lemma es_inv_peer_change:
  assumes inv: "es_inv c" and i: "i \<in> nodes c" and ch: "peer_change (elected c i) i (procs c i) p'"
  shows "es_inv (c\<lparr>procs := (procs c)(i := p')\<rparr>)"
proof -
  let ?c = "c\<lparr>procs := (procs c)(i := p')\<rparr>"
  have el [simp]: "elected ?c j t = elected c j t" "won ?c e = won c e" "nodes ?c = nodes c" for j t e
    by (simp_all add: elected_def won_def nodes_def)
  have "voters_ok ?c e \<and> won_ok ?c e \<and> election_ok ?c e" if e: "e \<in> set (elections c)" for e
  proof (intro conjI)
    from inv e have *: "voters_ok c e" "won_ok c e" "election_ok c e" by (auto simp: es_inv_def)
    then have "cand e \<noteq> NULL" by (auto simp: election_ok_def nodes_def NULL_def)
    show "voters_ok ?c e"
      unfolding voters_ok_def
    proof
      fix v assume "v \<in> voters e"
      with *(1) have v: "eterm e < currentTerm (rf_at c v) \<or> currentTerm (rf_at c v) = eterm e \<and>
          votedFor (rf_at c v) = cand e \<and> state (rf_at c v) = FOLLOWER"
        by (simp add: voters_ok_def)
      show "eterm e < currentTerm (rf_at ?c v) \<or> currentTerm (rf_at ?c v) = eterm e \<and>
          votedFor (rf_at ?c v) = cand e \<and> state (rf_at ?c v) = FOLLOWER"
      proof (cases "v = i")
        case True
        note mono = peer_changeD(3) [OF ch] and keep = peer_changeD(4) [OF ch]
        have "eterm e < currentTerm (raft p') \<or> currentTerm (raft p') = eterm e \<and>
          votedFor (raft p') = cand e \<and> state (raft p') = FOLLOWER"
        proof (cases "eterm e < currentTerm (raft p')")
          case False
          with v mono True have "currentTerm (raft (procs c i)) = eterm e" "currentTerm (raft p') = eterm e"
            "votedFor (raft (procs c i)) = cand e" "state (raft (procs c i)) = FOLLOWER" by auto
          with keep \<open>cand e \<noteq> NULL\<close> show ?thesis by simp
        qed simp
        with True show ?thesis by simp
      qed (use v in simp)
    qed
    have "eterm e < currentTerm (rf_at ?c (cand e)) \<or>
        currentTerm (rf_at ?c (cand e)) = eterm e \<and> state (rf_at ?c (cand e)) \<noteq> FOLLOWER" if w: "won c e"
    proof (cases "cand e = i")
      case True
      from w *(2) have "eterm e < currentTerm (raft (procs c i)) \<or>
        currentTerm (raft (procs c i)) = eterm e \<and> state (raft (procs c i)) \<noteq> FOLLOWER"
        by (simp add: won_ok_def True)
      moreover have "elected c i (eterm e)" using e w True by (auto simp: elected_def)
      ultimately show ?thesis using True peer_changeD(3,5) [OF ch] by fastforce
    next
      case False
      with w *(2) show ?thesis by (simp add: won_ok_def)
    qed
    then show "won_ok ?c e" using *(2) by (simp add: won_ok_def)
    from * show "election_ok ?c e" by (auto simp: election_ok_def)
  qed
  moreover have "ids_ok ?c" "vote_own ?c" "leaders_ok ?c"
    using inv i peer_changeD(1,2) [OF ch] peer_changeD(6-8) [OF ch]
    by (auto simp: es_inv_def ids_ok_def vote_own_def leaders_ok_def)
  moreover have "\<forall>h \<in> set (heartbeats c). heartbeat_ok ?c h"
    using inv by (auto simp: es_inv_def heartbeat_ok_def)
  ultimately show ?thesis using inv by (auto simp: es_inv_def)
qed

section \<open>Changes of one election, and new goroutines\<close>

lemma set_election_sel [simp]:
  "servers (set_election k e c) = servers c" "procs (set_election k e c) = procs c"
  "heartbeats (set_election k e c) = heartbeats c"
  "elections (set_election k e c) = (elections c)[k := e]"
  "nodes (set_election k e c) = nodes c" "won (set_election k e c) e1 = won c e1"
  by (simp_all add: set_election_def nodes_def won_def)

lemma set_election_procs: "set_election k e (c\<lparr>procs := ps\<rparr>) = (set_election k e c)\<lparr>procs := ps\<rparr>"
  by (simp add: set_election_def)

lemma elected_set_election:
  assumes "k < length (elections c)" "cand e' = cand (elections c ! k)"
    "eargs e' = eargs (elections c ! k)" "voteNum (elections c ! k) \<le> voteNum e'" "elected c i t"
  shows "elected (set_election k e' c) i t"
proof -
  from assms(5) obtain m where m: "m < length (elections c)" "cand (elections c ! m) = i"
    "eterm (elections c ! m) = t" "won c (elections c ! m)"
    by (auto simp: elected_def in_set_conv_nth)
  have "(elections c)[k := e'] ! m \<in> set ((elections c)[k := e'])" using m by simp
  moreover have "won c ((elections c)[k := e'] ! m)"
    using m assms(4) by (cases "m = k") (auto simp: won_def)
  ultimately show ?thesis
    unfolding elected_def using m assms(1-3) by (cases "m = k") fastforce+
qed

lemma es_inv_set_election:
  assumes inv: "es_inv c" and k: "k < length (elections c)"
  defines "e \<equiv> elections c ! k"
  assumes same: "cand e' = cand e" "eargs e' = eargs e" "voteNum e \<le> voteNum e'"
    and ok: "election_ok c e'" "voters_ok c e'"
    and once: "\<And>e2. e2 \<in> set (elections c) \<Longrightarrow> eterm e2 = eterm e \<Longrightarrow>
      voters e2 \<inter> voters e' \<noteq> {} \<Longrightarrow> cand e2 = cand e"
    and won: "won c e' \<Longrightarrow> eterm e < currentTerm (rf_at c (cand e)) \<or>
      currentTerm (rf_at c (cand e)) = eterm e \<and> state (rf_at c (cand e)) \<noteq> FOLLOWER"
      "\<And>e2. won c e' \<Longrightarrow> e2 \<in> set (elections c) \<Longrightarrow> eterm e2 = eterm e \<Longrightarrow> cand e \<notin> voters e2"
      "\<And>e2. e2 \<in> set (elections c) \<Longrightarrow> won c e2 \<Longrightarrow> eterm e2 = eterm e \<Longrightarrow> cand e2 \<notin> voters e'"
  shows "es_inv (set_election k e' c)"
proof -
  let ?c = "set_election k e' c"
  have sub: "e1 = e' \<or> e1 \<in> set (elections c)" if "e1 \<in> set ((elections c)[k := e'])" for e1
    using set_update_subset_insert [of "elections c" k e'] that by auto
  have self: "cand e' \<notin> voters e'" using voters_sub [OF ok(1)] by blast
  have old: "election_ok c e1 \<and> voters_ok c e1 \<and> won_ok c e1" if "e1 \<in> set (elections c)" for e1
    using inv that by (auto simp: es_inv_def)
  have "election_ok ?c e1 \<and> voters_ok ?c e1" if "e1 \<in> set ((elections c)[k := e'])" for e1
    using sub [OF that] ok old by (auto simp: election_ok_def voters_ok_def)
  moreover have "won_ok ?c e1" if "e1 \<in> set ((elections c)[k := e'])" for e1
    using sub [OF that]
  proof
    assume "e1 = e'"
    then show ?thesis
      unfolding won_ok_def using won(1,2) same self by (auto dest!: sub)
  next
    assume e1: "e1 \<in> set (elections c)"
    then show ?thesis
      using old [OF e1] won(3) [OF e1] same unfolding won_ok_def by (auto dest!: sub)
  qed
  moreover have "once_ok (set (elections ?c))"
  proof -
    have old: "once_ok (set (elections c))" using inv by (simp add: es_inv_def)
    show ?thesis
      unfolding once_ok_def
    proof (intro ballI impI)
      fix e1 e2 assume 12: "e1 \<in> set (elections ?c)" "e2 \<in> set (elections ?c)"
        "eterm e1 = eterm e2 \<and> voters e1 \<inter> voters e2 \<noteq> {}"
      then have "e1 = e' \<or> e1 \<in> set (elections c)" "e2 = e' \<or> e2 \<in> set (elections c)"
        using sub by simp_all
      then consider "e1 = e'" "e2 = e'" | "e1 = e'" "e2 \<in> set (elections c)"
        | "e1 \<in> set (elections c)" "e2 = e'" | "e1 \<in> set (elections c)" "e2 \<in> set (elections c)"
        by blast
      then show "cand e1 = cand e2"
      proof cases
        case 2
        then have "cand e2 = cand e" using 12(3) same by (intro once) auto
        with 2 same show ?thesis by simp
      next
        case 3
        then have "cand e1 = cand e" using 12(3) same by (intro once) auto
        with 3 same show ?thesis by simp
      next
        case 4
        with 12(3) old show ?thesis unfolding once_ok_def by blast
      qed simp
    qed
  qed
  moreover have "ids_ok ?c" "vote_own ?c" using inv by (auto simp: es_inv_def ids_ok_def vote_own_def)
  moreover have mono: "elected c i t \<Longrightarrow> elected ?c i t" for i t
    using k same by (intro elected_set_election) (auto simp: e_def)
  then have "leaders_ok ?c" using inv by (auto simp: es_inv_def leaders_ok_def)
  moreover have "\<forall>h \<in> set (heartbeats ?c). heartbeat_ok ?c h"
    using inv mono by (auto simp: es_inv_def heartbeat_ok_def)
  ultimately show ?thesis by (auto simp: es_inv_def)
qed

text \<open>A vote goroutine that ends, or whose reply is lost or refuses the vote.\<close>

lemma voters_set: "voters (e\<lparr>votes := (votes e)(j := g)\<rparr>) =
    (if g = Counted \<or> (\<exists>r. g = Returned True r \<and> VoteGranted r) then insert j (voters e) else voters e - {j})"
  by (auto simp: voters_def)

lemma voters_voteNum [simp]: "voters (e\<lparr>voteNum := n\<rparr>) = voters e"
  by (simp add: voters_def)

lemma election_ok_upd:
  assumes "election_ok c e" "votes e j \<noteq> Idle"
    and "n = 1 + int (card {i. ((votes e)(j := g)) i = Counted})"
  shows "election_ok c (e\<lparr>voteNum := n, votes := (votes e)(j := g)\<rparr>)"
  using assms by (auto simp: election_ok_def)

lemma election_ok_uncounted:
  assumes "election_ok c e" "votes e j \<noteq> Idle" "votes e j \<noteq> Counted" "g \<noteq> Counted"
  shows "election_ok c (e\<lparr>votes := (votes e)(j := g)\<rparr>)"
proof -
  have "{i. ((votes e)(j := g)) i = Counted} = {i. votes e i = Counted}" using assms by auto
  then have "voteNum e = 1 + int (card {i. ((votes e)(j := g)) i = Counted})"
    using assms(1) by (simp only: election_ok_def)
  from election_ok_upd [OF assms(1,2) this] show ?thesis by simp
qed

lemma es_inv_vote_dropped:
  assumes inv: "es_inv c" and k: "k < length (elections c)"
    and old: "votes (elections c ! k) j \<noteq> Counted" "votes (elections c ! k) j \<noteq> Idle"
    and g: "g \<noteq> Counted" "g \<noteq> Idle" "\<And>r. g = Returned True r \<Longrightarrow> \<not> VoteGranted r"
  shows "es_inv (set_vote k j g c)"
proof -
  let ?e = "elections c ! k"
  let ?e' = "?e\<lparr>votes := (votes ?e)(j := g)\<rparr>"
  have mem: "?e \<in> set (elections c)" using k by simp
  then have ok: "election_ok c ?e" "voters_ok c ?e" "won_ok c ?e" "once_ok (set (elections c))"
    using inv by (auto simp: es_inv_def)
  have sub: "voters ?e' \<subseteq> voters ?e" using g by (auto simp: voters_set)
  have "es_inv (set_election k ?e' c)"
  proof (rule es_inv_set_election [OF inv k])
    show "election_ok c ?e'" using ok(1) old g by (intro election_ok_uncounted)
    show "voters_ok c ?e'" using ok(2) sub by (auto simp: voters_ok_def)
    fix e2 assume e2: "e2 \<in> set (elections c)" "eterm e2 = eterm ?e"
    show "voters e2 \<inter> voters ?e' \<noteq> {} \<Longrightarrow> cand e2 = cand ?e"
      using onceD [OF ok(4) e2(1) mem e2(2)] sub by blast
    show "won c e2 \<Longrightarrow> cand e2 \<notin> voters ?e'"
      using inv e2 mem sub by (auto simp: es_inv_def won_ok_def)
    show "won c ?e' \<Longrightarrow> cand ?e \<notin> voters e2"
      using ok(3) e2 by (auto simp: won_ok_def won_def)
  next
    show "won c ?e' \<Longrightarrow> eterm ?e < currentTerm (rf_at c (cand ?e)) \<or>
      currentTerm (rf_at c (cand ?e)) = eterm ?e \<and> state (rf_at c (cand ?e)) \<noteq> FOLLOWER"
      using ok(3) by (auto simp: won_ok_def won_def)
  qed simp_all
  then show ?thesis by (simp add: set_vote_def Let_def)
qed

text \<open>A vote that was just given: the voter is a follower of this candidate and term.\<close>

lemma es_inv_vote_granted:
  assumes inv: "es_inv c" and k: "k < length (elections c)"
    and old: "votes (elections c ! k) j = Calling"
    and j: "currentTerm (rf_at c j) = eterm (elections c ! k)"
      "votedFor (rf_at c j) = cand (elections c ! k)" "state (rf_at c j) = FOLLOWER"
  shows "es_inv (set_vote k j (Returned True r) c)"
proof -
  let ?e = "elections c ! k"
  let ?e' = "?e\<lparr>votes := (votes ?e)(j := Returned True r)\<rparr>"
  have mem: "?e \<in> set (elections c)" using k by simp
  then have ok: "election_ok c ?e" "voters_ok c ?e" "won_ok c ?e" "once_ok (set (elections c))"
    using inv by (auto simp: es_inv_def)
  have sub: "voters ?e' \<subseteq> insert j (voters ?e)" by (auto simp: voters_set)
  have "es_inv (set_election k ?e' c)"
  proof (rule es_inv_set_election [OF inv k])
    show "election_ok c ?e'" using ok(1) old by (intro election_ok_uncounted) simp_all
    show "voters_ok c ?e'" using ok(2) sub j by (auto simp: voters_ok_def)
    fix e2 assume e2: "e2 \<in> set (elections c)" "eterm e2 = eterm ?e"
    have v2: "votedFor (rf_at c j) = cand e2" if "j \<in> voters e2"
    proof -
      have "voters_ok c e2" using inv e2 by (simp add: es_inv_def)
      with that have "eterm e2 < currentTerm (rf_at c j) \<or> votedFor (rf_at c j) = cand e2"
        by (auto simp: voters_ok_def)
      with e2 j show ?thesis by simp
    qed
    show "cand e2 = cand ?e" if common: "voters e2 \<inter> voters ?e' \<noteq> {}"
    proof -
      from common sub obtain v where "v \<in> voters e2" "v = j \<or> v \<in> voters ?e" by blast
      then show ?thesis using onceD [OF ok(4) e2(1) mem e2(2)] v2 j(2) by auto
    qed
    show "cand e2 \<notin> voters ?e'" if w: "won c e2"
    proof -
      have "won_ok c e2" using inv e2 by (auto simp: es_inv_def)
      then have "eterm e2 < currentTerm (rf_at c (cand e2)) \<or> state (rf_at c (cand e2)) \<noteq> FOLLOWER"
        "\<forall>e' \<in> set (elections c). eterm e' = eterm e2 \<longrightarrow> cand e2 \<notin> voters e'"
        using w unfolding won_ok_def by blast+
      then have "cand e2 \<noteq> j" "cand e2 \<notin> voters ?e" using e2(2) j mem by auto
      with sub show ?thesis by blast
    qed
    show "won c ?e' \<Longrightarrow> cand ?e \<notin> voters e2"
      using ok(3) e2 by (auto simp: won_ok_def won_def)
  next
    show "won c ?e' \<Longrightarrow> eterm ?e < currentTerm (rf_at c (cand ?e)) \<or>
      currentTerm (rf_at c (cand ?e)) = eterm ?e \<and> state (rf_at c (cand ?e)) \<noteq> FOLLOWER"
      using ok(3) by (auto simp: won_ok_def won_def)
  qed simp_all
  then show ?thesis by (simp add: set_vote_def Let_def)
qed

text \<open>A vote of the current election is counted, perhaps the one that wins it.\<close>

lemma es_inv_vote_counted:
  assumes inv: "es_inv c" and k: "k < length (elections c)"
    and old: "votes (elections c ! k) j = Returned True r" "VoteGranted r"
    and i: "currentTerm (rf_at c (cand (elections c ! k))) = eterm (elections c ! k)"
      "state (rf_at c (cand (elections c ! k))) = CANDIDATE"
  shows "es_inv (set_election k ((elections c ! k)\<lparr>voteNum := voteNum (elections c ! k) + 1,
      votes := (votes (elections c ! k))(j := Counted)\<rparr>) c)"
proof -
  let ?e = "elections c ! k"
  let ?e' = "?e\<lparr>voteNum := voteNum ?e + 1, votes := (votes ?e)(j := Counted)\<rparr>"
  have mem: "?e \<in> set (elections c)" using k by simp
  then have ok: "election_ok c ?e" "voters_ok c ?e" "won_ok c ?e" "once_ok (set (elections c))"
    using inv by (auto simp: es_inv_def)
  have sub: "voters ?e' = voters ?e" using old by (auto simp: voters_def)
  show ?thesis
  proof (rule es_inv_set_election [OF inv k])
    have "{i. ((votes ?e)(j := Counted)) i = Counted} = insert j {i. votes ?e i = Counted}" by auto
    moreover have "{i. votes ?e i = Counted} \<subseteq> nodes c"
      using voters_sub [OF ok(1)] by (auto simp: voters_def)
    then have "finite {i. votes ?e i = Counted}" by (rule finite_subset) (simp add: nodes_def)
    ultimately have "voteNum ?e + 1 = 1 + int (card {i. ((votes ?e)(j := Counted)) i = Counted})"
      using ok(1) old by (simp only: election_ok_def) simp
    then show "election_ok c ?e'" using ok(1) old by (intro election_ok_upd) simp_all
    show "voters_ok c ?e'" using ok(2) sub by (auto simp: voters_ok_def)
    fix e2 assume e2: "e2 \<in> set (elections c)" "eterm e2 = eterm ?e"
    show "voters e2 \<inter> voters ?e' \<noteq> {} \<Longrightarrow> cand e2 = cand ?e"
      using onceD [OF ok(4) e2(1) mem e2(2)] sub by blast
    show "won c e2 \<Longrightarrow> cand e2 \<notin> voters ?e'"
      using inv e2 mem sub by (auto simp: es_inv_def won_ok_def)
    have "voters_ok c e2" using inv e2 by (auto simp: es_inv_def)
    then show "cand ?e \<notin> voters e2" using i e2 by (auto simp: voters_ok_def)
  qed (use i in simp_all)
qed

text \<open>New goroutines: an election that starts, a round of heartbeats, one heartbeat's progress.\<close>

lemma es_inv_new_election:
  assumes inv: "es_inv c" and i: "i \<in> nodes c"
    and e: "cand e = i" "CandidateId (eargs e) = i" "voteNum e = 1"
      "\<And>j. votes e j = (if j \<in> nodes c - {i} then Calling else Idle)"
  shows "es_inv (c\<lparr>elections := elections c @ [e]\<rparr>)"
proof -
  let ?c = "c\<lparr>elections := elections c @ [e]\<rparr>"
  have none: "voters e = {}" "{j. votes e j = Counted} = {}" using e(4) by (auto simp: voters_def)
  have sel [simp]: "won ?c e1 = won c e1" "nodes ?c = nodes c" for e1
    by (simp_all add: won_def nodes_def)
  have mono: "elected c j t \<Longrightarrow> elected ?c j t" for j t by (auto simp: elected_def)
  have "\<not> won c e" using e(3) by (simp add: won_def)
  then have "election_ok ?c e \<and> voters_ok ?c e \<and> won_ok ?c e"
    using none e i by (auto simp: election_ok_def voters_ok_def won_ok_def)
  moreover have "election_ok ?c e1 \<and> voters_ok ?c e1 \<and> won_ok ?c e1"
    if "e1 \<in> set (elections c)" for e1
  proof -
    have "election_ok c e1" "voters_ok c e1" "won_ok c e1" using inv that by (auto simp: es_inv_def)
    then show ?thesis using none by (simp add: election_ok_def voters_ok_def won_ok_def)
  qed
  moreover have "once_ok (set (elections ?c))"
    using inv none by (simp add: es_inv_def once_ok_def)
  moreover have "ids_ok ?c" "vote_own ?c" "leaders_ok ?c" "\<forall>h \<in> set (heartbeats ?c). heartbeat_ok ?c h"
    using inv mono by (auto simp: es_inv_def ids_ok_def vote_own_def leaders_ok_def heartbeat_ok_def)
  ultimately show ?thesis by (auto simp: es_inv_def)
qed

lemma es_inv_heartbeats:
  assumes inv: "es_inv c" and hs: "\<forall>h \<in> set hs. heartbeat_ok c h"
  shows "es_inv (c\<lparr>heartbeats := hs\<rparr>)"
proof -
  let ?c = "c\<lparr>heartbeats := hs\<rparr>"
  have [simp]: "won ?c e = won c e" "nodes ?c = nodes c" "elected ?c = elected c" for e
    by (simp_all add: won_def nodes_def elected_def fun_eq_iff)
  have "heartbeat_ok ?c h = heartbeat_ok c h" "election_ok ?c e = election_ok c e"
    "voters_ok ?c e = voters_ok c e" "won_ok ?c e = won_ok c e" for h e
    by (simp_all add: heartbeat_ok_def election_ok_def voters_ok_def won_ok_def)
  then show ?thesis using inv hs
    by (simp add: es_inv_def ids_ok_def vote_own_def leaders_ok_def)
qed

lemma es_inv_set_heartbeat:
  assumes inv: "es_inv c" and k: "k < length (heartbeats c)"
    and g: "\<And>args. g = HB_Calling args \<Longrightarrow> elected c (hbFrom (heartbeats c ! k)) (aeTerm args)"
  shows "es_inv (set_heartbeat k g c)"
proof -
  have "heartbeat_ok c (heartbeats c ! k)" using inv k by (auto simp: es_inv_def)
  then have "heartbeat_ok c ((heartbeats c ! k)\<lparr>hbState := g\<rparr>)" using g by (auto simp: heartbeat_ok_def)
  moreover have "set ((heartbeats c)[k := (heartbeats c ! k)\<lparr>hbState := g\<rparr>])
      \<subseteq> insert ((heartbeats c ! k)\<lparr>hbState := g\<rparr>) (set (heartbeats c))"
    by (rule set_update_subset_insert)
  ultimately show ?thesis
    unfolding set_heartbeat_def using inv by (intro es_inv_heartbeats) (auto simp: es_inv_def)
qed

section \<open>What the sections of code do to their peer\<close>

lemma peer_change_core:
  assumes "me (raft p') = me (raft p) \<and> peers (raft p') = peers (raft p) \<and>
      state (raft p') = state (raft p) \<and> currentTerm (raft p') = currentTerm (raft p) \<and>
      votedFor (raft p') = votedFor (raft p)"
    and "promoting p' \<le> promoting p"
    and "state (raft p) \<noteq> FOLLOWER \<Longrightarrow> votedFor (raft p) = i"
    and "state (raft p) = LEADER \<Longrightarrow> el (currentTerm (raft p))"
    and "promoting p > 0 \<Longrightarrow> state (raft p) = LEADER"
  shows "peer_change el i p p'"
  using assms by (auto simp: peer_change_def)

lemma peer_change_TurnFollower:
  assumes "currentTerm (raft p) < t" "promoting p' = 0" "core (raft p') = core (TurnFollower t v (raft p))"
  shows "peer_change el i p p'"
  using assms by (auto simp: peer_change_def TurnFollower_def)

lemma peer_change_vote:
  assumes "RequestVote args (raft p) = Inr (reply, rf)" "promoting p = 0"
    and "state (raft p) \<noteq> FOLLOWER \<Longrightarrow> votedFor (raft p) = i"
    and "state (raft p) = LEADER \<Longrightarrow> el (currentTerm (raft p))"
    and "0 \<le> i" "CandidateId args \<noteq> i"
  shows "peer_change el i p (p\<lparr>raft := rf\<rparr>)"
    and "VoteGranted reply \<Longrightarrow> currentTerm rf = rvTerm args \<and> votedFor rf = CandidateId args \<and> state rf = FOLLOWER"
proof -
  note R = RequestVote_core [OF assms(1)]
  have own: "state (raft p) = FOLLOWER" if "currentTerm rf = currentTerm (raft p)" "VoteGranted reply"
  proof (rule ccontr)
    assume "state (raft p) \<noteq> FOLLOWER"
    then have "votedFor (raft p) = i" by (rule assms(3))
    moreover have "votedFor (raft p) \<in> {NULL, CandidateId args}"
      using that R(7) [OF that(2)] by (intro R(9)) auto
    ultimately show False using assms(5,6) by (auto simp: NULL_def)
  qed
  show "VoteGranted reply \<Longrightarrow> currentTerm rf = rvTerm args \<and> votedFor rf = CandidateId args \<and> state rf = FOLLOWER"
    using R(3-5) R(7,8) own by (cases "currentTerm rf = currentTerm (raft p)") auto
  show "peer_change el i p (p\<lparr>raft := rf\<rparr>)"
  proof (cases "currentTerm rf = currentTerm (raft p)")
    case True
    then have st: "state rf = state (raft p)" using R(5) by simp
    show ?thesis
    proof (cases "VoteGranted reply")
      case granted: True
      then have "votedFor (raft p) \<in> {NULL, CandidateId args}" using R(7) R(9) True by auto
      then show ?thesis
        using True st own [OF True granted] R(1,2) R(8) [OF granted] assms(2)
        by (auto simp: peer_change_def)
    next
      case False
      then have "votedFor rf = votedFor (raft p)" using R(6) True by simp
      then show ?thesis using True st R(1,2) assms(2-4) by (auto simp: peer_change_def)
    qed
  next
    case False
    then have "currentTerm (raft p) < currentTerm rf" using R(3) by simp
    with R(4) show ?thesis using R(1,2) assms(2) by (auto simp: peer_change_def)
  qed
qed

lemma peer_change_append:
  assumes "AppendEntries args (raft p) = Inr (reply, rf)" "promoting p = 0"
    and "state (raft p) \<noteq> FOLLOWER \<Longrightarrow> votedFor (raft p) = i"
    and "state (raft p) = LEADER \<Longrightarrow> el (currentTerm (raft p))"
    and "\<not> el (aeTerm args)"
  shows "peer_change el i p (p\<lparr>raft := rf\<rparr>)"
  using AppendEntries_core [OF assms(1)]
proof
  assume "core rf = core (raft p)"
  then show ?thesis using assms by (intro peer_change_core) auto
next
  assume c: "currentTerm (raft p) \<le> aeTerm args \<and> core rf = core (step_down args (raft p))"
  have "me (step_down args (raft p)) = me (raft p)" "peers (step_down args (raft p)) = peers (raft p)"
    by simp_all
  with c show ?thesis
    using step_down_cases [of "raft p" args] assms(2,5)
    unfolding peer_change_def by auto
qed

lemma peer_change_reply:
  assumes "sendHeartBeat_reply q success reply (raft p) = Inr rf" "promoting p = 0"
    and "state (raft p) \<noteq> FOLLOWER \<Longrightarrow> votedFor (raft p) = i"
    and "state (raft p) = LEADER \<Longrightarrow> el (currentTerm (raft p))"
  shows "peer_change el i p (p\<lparr>raft := rf\<rparr>)"
  using heartbeat_reply_core [OF assms(1)]
proof
  assume "core rf = core (raft p)"
  then show ?thesis using assms by (intro peer_change_core) auto
next
  assume "aeReplyTerm reply > currentTerm (raft p) \<and> rf = TurnFollower (aeReplyTerm reply) NULL (raft p)"
  then show ?thesis
    using assms by (intro peer_change_TurnFollower [of _ "aeReplyTerm reply" _ NULL]) auto
qed

lemma peer_change_maintain:
  assumes "maintain_step p = Some (Inr (out, p'))" "promoting p = 0" "me (raft p) = i"
    and "state (raft p) \<noteq> FOLLOWER \<Longrightarrow> votedFor (raft p) = i"
    and "state (raft p) = LEADER \<Longrightarrow> el (currentTerm (raft p))"
  shows "peer_change el i p p'"
proof -
  consider "me (raft p') = me (raft p) \<and> peers (raft p') = peers (raft p) \<and>
      state (raft p') = state (raft p) \<and> currentTerm (raft p') = currentTerm (raft p) \<and>
      votedFor (raft p') = votedFor (raft p)" "promoting p' = promoting p"
    | rf where "raft p' = TurnCandidate rf" "core rf = core (raft p)" "promoting p' = promoting p"
    using assms(1)
    by (auto simp: maintain_step_def Let_def map_res_Inr checkElectionTimeout_def handleLeader_tick_def
        split: maintain_pc.splits option.splits if_splits)
  then show ?thesis
  proof cases
    case 1
    then show ?thesis using assms by (intro peer_change_core) auto
  next
    case 2
    then show ?thesis using assms(2,3) by (auto simp: peer_change_def TurnCandidate_def)
  qed
qed

lemma peer_change_local:
  assumes "proc_step e p = Some (Inr (out, p'))" "local_event e" "me (raft p) = i"
    and "state (raft p) \<noteq> FOLLOWER \<Longrightarrow> votedFor (raft p) = i"
    and "state (raft p) = LEADER \<Longrightarrow> el (currentTerm (raft p))"
    and "promoting p > 0 \<Longrightarrow> e = E_Promote \<and> state (raft p) = LEADER"
  shows "peer_change el i p p'"
proof (cases e)
  case E_Maintain
  then show ?thesis using assms peer_change_maintain [of p out p' i el] by auto
next
  case (E_Start c)
  then show ?thesis using assms by (intro peer_change_core) (auto simp: map_res_Inr dest!: Start_core)
next
  case E_Promote
  then show ?thesis
    using assms by (auto simp: map_res_Inr peer_change_def dest!: TurnLeader_locked_core split: if_splits)
qed (use assms in \<open>auto intro!: peer_change_core simp: Kill_def TurnLeader_unlocked_def split: if_splits\<close>)

text \<open>A reply to a vote request that is not counted, and one that is.\<close>

lemma sendvote_cases:
  assumes "sendvote success reply n rf = (rf', n', w)"
  obtains (same) "rf' = rf" "n' = n" "\<not> w"
  | (down) "rf' = TurnFollower (rvReplyTerm reply) NULL rf" "currentTerm rf < rvReplyTerm reply"
      "n' = n" "\<not> w"
  | (counted) "success" "VoteGranted reply" "state rf = CANDIDATE" "n' = n + 1"
      "rvReplyTerm reply \<le> currentTerm rf"
      "w \<longleftrightarrow> n + 1 > int (peers rf div 2)" "rf' = (if w then rf\<lparr>state := LEADER\<rparr> else rf)"
proof (cases "killed rf \<or> state rf \<noteq> CANDIDATE \<or> \<not> success")
  case True
  then have "sendvote success reply n rf = (rf, n, False)" by (auto simp: sendvote_def)
  with assms same show ?thesis by simp
next
  case live: False
  show ?thesis
  proof (cases "rvReplyTerm reply > currentTerm rf")
    case True
    with assms live down show ?thesis by (simp add: sendvote_def Let_def TurnFollower_def)
  next
    case False
    show ?thesis
    proof (cases "VoteGranted reply")
      case True
      with assms live False show ?thesis
        by (intro counted) (auto simp: sendvote_def Let_def split: if_splits)
    next
      case ng: False
      with assms live False same show ?thesis by (simp add: sendvote_def Let_def)
    qed
  qed
qed

lemma local_outcome:
  assumes "proc_step e p = Some (Inr (out, p'))" "local_event e"
  shows "out = O_Election args n ps \<Longrightarrow> CandidateId args = me (raft p) \<and> n = 1 \<and> ps = other_peers (raft p)"
    "out = O_HeartBeats ps \<Longrightarrow> ps = other_peers (raft p)"
  using assms
  by (cases e; auto simp: maintain_step_def startElection_def Let_def map_res_Inr bind_res_Inr
      handleLeader_tick_def TurnLeader_unlocked_def split: maintain_pc.splits option.splits if_splits prod.splits)+

section \<open>Every orderly step keeps the invariant\<close>

lemma orderly_promoting:
  assumes "orderly a c" "i \<in> nodes c" "promoting (procs c i) > 0"
  shows "a = Local i E_Promote"
proof -
  have "is_promotion i a"
    using assms unfolding orderly_def overtakes_promotion_def list_ex_iff set_indices nodes_def by blast
  then show ?thesis by (rule is_promotionD)
qed

lemma es_inv_at:
  assumes "es_inv c" "i \<in> nodes c"
  shows "me (rf_at c i) = i" "peers (rf_at c i) = servers c"
    "state (rf_at c i) \<noteq> FOLLOWER \<Longrightarrow> votedFor (rf_at c i) = i"
    "state (rf_at c i) = LEADER \<Longrightarrow> elected c i (currentTerm (rf_at c i))"
    "promoting (procs c i) > 0 \<Longrightarrow> state (rf_at c i) = LEADER"
  using assms by (auto simp: es_inv_def ids_ok_def vote_own_def leaders_ok_def)

lemma other_peers_nodes:
  "es_inv c \<Longrightarrow> i \<in> nodes c \<Longrightarrow> set (other_peers (rf_at c i)) = nodes c - {i}"
  using es_inv_at(1,2) [of c i] by (auto simp: other_peers_def nodes_def)

lemma on_procD:
  "on_proc i e k c = Some (Inr (u, c')) \<Longrightarrow>
     \<exists>out p. proc_step e (procs c i) = Some (Inr (out, p)) \<and> c' = k out (c\<lparr>procs := (procs c)(i := p)\<rparr>)"
  by (auto simp: on_proc_def map_res_Inr split: option.splits)

lemma es_inv_local:
  assumes inv: "es_inv c" and ord: "orderly (Local i e) c"
    and st: "cluster_step (Local i e) c = Some (Inr (u, c'))"
  shows "es_inv c'"
proof -
  have i: "i \<in> nodes c" and loc: "local_event e" using st by (auto simp: nodes_def split: if_splits)
  obtain out p where p: "proc_step e (procs c i) = Some (Inr (out, p))"
    and c': "c' = spawn_goroutines i out (c\<lparr>procs := (procs c)(i := p)\<rparr>)"
    using st by (auto split: if_splits dest!: on_procD)
  let ?c = "c\<lparr>procs := (procs c)(i := p)\<rparr>"
  have "peer_change (elected c i) i (procs c i) p"
  proof (rule peer_change_local [OF p loc es_inv_at(1) [OF inv i]])
    assume "promoting (procs c i) > 0"
    then show "e = E_Promote \<and> state (rf_at c i) = LEADER"
      using orderly_promoting [OF ord i] es_inv_at(5) [OF inv i] by auto
  qed (use es_inv_at(3,4) [OF inv i] in blast)+
  then have inv': "es_inv ?c" by (rule es_inv_peer_change [OF inv i])
  have n: "nodes ?c = nodes c" by (simp add: nodes_def)
  show ?thesis
  proof (cases out)
    case (O_Election args m ps)
    then have e: "CandidateId args = i" "m = 1" "set ps = nodes c - {i}"
      using local_outcome(1) [OF p loc] other_peers_nodes [OF inv i] es_inv_at(1) [OF inv i] by auto
    have "es_inv (?c\<lparr>elections := elections ?c @
        [\<lparr>cand = i, eargs = args, voteNum = m, votes = (\<lambda>j. if j \<in> set ps then Calling else Idle)\<rparr>]\<rparr>)"
      by (rule es_inv_new_election [OF inv', of i]) (use e i n in simp_all)
    then show ?thesis unfolding c' O_Election by simp
  next
    case (O_HeartBeats ps)
    then have "set ps = nodes c - {i}"
      using local_outcome(2) [OF p loc] other_peers_nodes [OF inv i] by simp
    then have "\<forall>h \<in> set (map (\<lambda>j. \<lparr>hbFrom = i, hbTo = j, hbState = HB_Start\<rparr>) ps). heartbeat_ok ?c h"
      using i n by (auto simp: heartbeat_ok_def)
    moreover have "\<forall>h \<in> set (heartbeats c). heartbeat_ok ?c h" using inv' by (simp add: es_inv_def)
    ultimately show ?thesis
      unfolding c' O_HeartBeats spawn_goroutines.simps by (intro es_inv_heartbeats [OF inv']) auto
  qed (use inv' in \<open>simp_all add: c'\<close>)
qed

lemma no_promotion:
  "orderly a c \<Longrightarrow> i \<in> nodes c \<Longrightarrow> \<not> is_promotion i a \<Longrightarrow> promoting (procs c i) = 0"
  using orderly_promoting [of a c i] by (cases "promoting (procs c i)") auto

lemma es_inv_call_vote:
  assumes inv: "es_inv c" and ord: "orderly (CallVote k j arrives) c"
    and st: "cluster_step (CallVote k j arrives) c = Some (Inr (u, c'))"
  shows "es_inv c'"
proof -
  let ?e = "elections c ! k"
  have k: "k < length (elections c)" and old: "votes ?e j = Calling"
    using st by (auto split: if_splits)
  then have "election_ok c ?e" "votes ?e j \<noteq> Idle" using inv by (simp_all add: es_inv_def)
  then have j: "j \<in> nodes c" and ci: "CandidateId (eargs ?e) = cand ?e" "cand ?e \<noteq> j"
    unfolding election_ok_def by blast+
  obtain reply rf where r: "RequestVote (eargs ?e) (rf_at c j) = Inr (reply, rf)"
    and c': "c' = vote_reply k j arrives (O_Vote reply) (c\<lparr>procs := (procs c)(j := (procs c j)\<lparr>raft := rf\<rparr>)\<rparr>)"
    using st k old by (auto simp: map_res_Inr dest!: on_procD)
  let ?c = "c\<lparr>procs := (procs c)(j := (procs c j)\<lparr>raft := rf\<rparr>)\<rparr>"
  have p0: "promoting (procs c j) = 0" using no_promotion [OF ord j] by simp
  have j0: "0 \<le> j" "CandidateId (eargs ?e) \<noteq> j" using j ci by (auto simp: nodes_def)
  note ch = peer_change_vote [where el = "elected c j", OF r p0 es_inv_at(3,4) [OF inv j] j0]
  have inv': "es_inv ?c" by (rule es_inv_peer_change [OF inv j]) (rule ch(1), simp_all)
  show ?thesis
  proof (cases "arrives \<and> VoteGranted reply")
    case True
    then have "currentTerm rf = eterm ?e" "votedFor rf = cand ?e" "state rf = FOLLOWER"
      using ch(2) ci by auto
    then have "es_inv (set_vote k j (Returned True reply) ?c)"
      using k old by (intro es_inv_vote_granted [OF inv']) simp_all
    with True show ?thesis by (simp add: c' vote_reply_def)
  next
    case False
    have "es_inv (set_vote k j (if arrives then Returned True reply else Returned False RequestVoteReply_zero) ?c)"
      using k old False by (intro es_inv_vote_dropped [OF inv']) (auto split: if_splits)
    then show ?thesis by (simp add: c' vote_reply_def)
  qed
qed

lemma es_inv_vote_return:
  assumes inv: "es_inv c" and ord: "orderly (VoteReturn k j) c"
    and st: "cluster_step (VoteReturn k j) c = Some (Inr (u, c'))"
  shows "es_inv c'"
proof -
  let ?e = "elections c ! k"
  let ?i = "cand ?e"
  have k: "k < length (elections c)" using st by (auto split: if_splits)
  obtain s r where old: "votes ?e j = Returned s r"
    using st k by (auto simp: Let_def split: vote_goroutine.splits)
  obtain rf n w where sv: "sendvote s r (voteNum ?e) (rf_at c ?i) = (rf, n, w)"
    by (metis prod_cases3)
  let ?p = "(procs c ?i)\<lparr>raft := rf, promoting := promoting (procs c ?i) + (if w then 1 else 0)\<rparr>"
  let ?c = "c\<lparr>procs := (procs c)(?i := ?p)\<rparr>"
  let ?e' = "?e\<lparr>voteNum := n, votes := (votes ?e)(j := if n \<noteq> voteNum ?e then Counted else Ignored)\<rparr>"
  have c': "c' = set_election k ?e' ?c"
    using st k old sv by (auto simp: Let_def count_vote_def dest!: on_procD)
  have ok: "election_ok c ?e" using inv k by (simp add: es_inv_def)
  then have i: "?i \<in> nodes c" by (simp add: election_ok_def)
  have p0: "promoting (procs c ?i) = 0" using no_promotion [OF ord i] by simp
  note at = es_inv_at [OF inv i]
  have uncounted: "es_inv c'" if ch: "peer_change (elected c ?i) ?i (procs c ?i) ?p" and n: "n = voteNum ?e"
  proof -
    have "es_inv (set_vote k j Ignored ?c)"
      using k old by (intro es_inv_vote_dropped es_inv_peer_change [OF inv i ch]) auto
    then show ?thesis by (simp add: c' n set_vote_def Let_def)
  qed
  from sv show ?thesis
  proof (cases rule: sendvote_cases)
    case same
    then have "peer_change (elected c ?i) ?i (procs c ?i) ?p"
      using at p0 by (intro peer_change_core) auto
    with same show ?thesis by (intro uncounted)
  next
    case down
    then have "peer_change (elected c ?i) ?i (procs c ?i) ?p"
      using p0 by (intro peer_change_TurnFollower [of _ "rvReplyTerm r" _ NULL]) auto
    with down show ?thesis by (intro uncounted)
  next
    case counted
    have tm: "currentTerm (rf_at c ?i) = eterm ?e"
      using ord counted old by (auto simp: orderly_def stale_vote_def Let_def)
    let ?c0 = "set_election k ?e' c"
    have e': "?e' = ?e\<lparr>voteNum := voteNum ?e + 1, votes := (votes ?e)(j := Counted)\<rparr>"
      using counted by simp
    have inv0: "es_inv ?c0"
      unfolding e' using counted old tm by (intro es_inv_vote_counted [OF inv k]) auto
    have el: "elected ?c0 ?i (currentTerm (rf_at c ?i))" if w
    proof -
      have "?e' \<in> set (elections ?c0)" using k by (simp add: set_update_memI)
      moreover have "won c ?e'"
        using counted that at(2) ok by (simp add: won_def election_ok_def)
      ultimately show ?thesis using tm unfolding elected_def by (intro bexI [of _ ?e']) simp_all
    qed
    have "peer_change (elected ?c0 ?i) ?i (procs ?c0 ?i) ?p"
      using counted el at(1-3) p0 unfolding peer_change_def by (cases w) auto
    then have "es_inv (?c0\<lparr>procs := (procs ?c0)(?i := ?p)\<rparr>)"
      using i by (intro es_inv_peer_change [OF inv0]) simp_all
    then show ?thesis unfolding c' set_election_procs by (simp only: set_election_sel)
  qed
qed

lemma elected_peer [simp]: "elected (c\<lparr>procs := ps\<rparr>) i t = elected c i t"
  by (simp add: elected_def won_def)

lemma es_inv_step:
  assumes inv: "es_inv c" and ord: "orderly a c" and st: "cluster_step a c = Some (Inr (u, c'))"
  shows "es_inv c'"
proof (cases a)
  case (Local i e)
  then show ?thesis using assms by (auto intro: es_inv_local simp del: cluster_step.simps)
next
  case (CallVote k j b)
  then show ?thesis using assms by (auto intro: es_inv_call_vote simp del: cluster_step.simps)
next
  case (VoteReturn k j)
  then show ?thesis using assms by (auto intro: es_inv_vote_return simp del: cluster_step.simps)
next
  case (FailVote k j)
  then show ?thesis using st inv by (auto intro!: es_inv_vote_dropped split: if_splits)
next
  case (FailAppend k)
  then show ?thesis
    using st inv by (auto intro!: es_inv_set_heartbeat split: if_splits hb_goroutine.splits)
next
  case (HeartBeatCall k)
  let ?h = "heartbeats c ! k"
  have k: "k < length (heartbeats c)" using st HeartBeatCall by (auto split: if_splits)
  then have h: "hbFrom ?h \<in> nodes c" using inv by (simp add: es_inv_def heartbeat_ok_def)
  obtain args where args: "sendHeartBeat_args (hbTo ?h) (rf_at c (hbFrom ?h)) = Inr args"
    and c': "c' = begin_call k (O_Args args) c"
    using st HeartBeatCall k by (auto simp: Let_def map_res_Inr split: if_splits dest!: on_procD)
  have "args = Some a \<Longrightarrow> elected c (hbFrom ?h) (aeTerm a)" for a
    using args es_inv_at(4) [OF inv h] by (auto simp: sendHeartBeat_args_def bind_res_Inr split: if_splits)
  then show ?thesis
    using k unfolding c' begin_call_def
    by (auto intro!: es_inv_set_heartbeat [OF inv] split: option.splits)
next
  case (CallAppend k b)
  let ?h = "heartbeats c ! k"
  have k: "k < length (heartbeats c)" using st CallAppend by (auto split: if_splits)
  then have hok: "heartbeat_ok c ?h" using inv by (simp add: es_inv_def)
  obtain args where args: "hbState ?h = HB_Calling args"
    using st CallAppend k by (auto simp: Let_def split: hb_goroutine.splits)
  obtain reply rf where r: "AppendEntries args (rf_at c (hbTo ?h)) = Inr (reply, rf)"
    and c': "c' = append_reply k args b (O_Append reply)
       (c\<lparr>procs := (procs c)(hbTo ?h := (procs c (hbTo ?h))\<lparr>raft := rf\<rparr>)\<rparr>)"
    using st CallAppend k args by (auto simp: Let_def map_res_Inr dest!: on_procD)
  let ?c = "c\<lparr>procs := (procs c)(hbTo ?h := (procs c (hbTo ?h))\<lparr>raft := rf\<rparr>)\<rparr>"
  have to: "hbTo ?h \<in> nodes c" and ne: "\<not> elected c (hbTo ?h) (aeTerm args)"
    using hok args elected_unique [OF inv] by (auto simp: heartbeat_ok_def)
  have p0: "promoting (procs c (hbTo ?h)) = 0"
    using no_promotion [OF ord to] CallAppend by simp
  have "es_inv ?c"
    by (rule es_inv_peer_change [OF inv to])
       (rule peer_change_append [where el = "elected c (hbTo ?h)", OF r p0 es_inv_at(3,4) [OF inv to] ne], simp_all)
  then have "es_inv (set_heartbeat k g ?c)" if "\<forall>a. g \<noteq> HB_Calling a" for g
    using k that by (intro es_inv_set_heartbeat) auto
  then show ?thesis by (simp add: c' append_reply_def)
next
  case (HeartBeatReturn k)
  let ?h = "heartbeats c ! k"
  have k: "k < length (heartbeats c)" using st HeartBeatReturn by (auto split: if_splits)
  then have fr: "hbFrom ?h \<in> nodes c" using inv by (simp add: es_inv_def heartbeat_ok_def)
  obtain a s r where old: "hbState ?h = HB_Returned a s r"
    using st HeartBeatReturn k by (auto simp: Let_def split: hb_goroutine.splits)
  obtain rf where r: "sendHeartBeat_reply (hbTo ?h) s r (rf_at c (hbFrom ?h)) = Inr rf"
    and c': "c' = set_heartbeat k HB_Done
       (c\<lparr>procs := (procs c)(hbFrom ?h := (procs c (hbFrom ?h))\<lparr>raft := rf\<rparr>)\<rparr>)"
    using st HeartBeatReturn k old by (auto simp: Let_def map_res_Inr dest!: on_procD)
  have p0: "promoting (procs c (hbFrom ?h)) = 0"
    using no_promotion [OF ord fr] HeartBeatReturn by simp
  have "es_inv (c\<lparr>procs := (procs c)(hbFrom ?h := (procs c (hbFrom ?h))\<lparr>raft := rf\<rparr>)\<rparr>)"
    by (rule es_inv_peer_change [OF inv fr])
       (rule peer_change_reply [where el = "elected c (hbFrom ?h)", OF r p0 es_inv_at(3,4) [OF inv fr]], simp_all)
  then show ?thesis unfolding c' using k by (intro es_inv_set_heartbeat) auto
qed

interpretation election_safety: invariant_machine cluster_step orderly es_inv
  by unfold_locales (rule es_inv_step)

lemma es_inv_init: "es_inv (init_cluster n)"
  by (auto simp: es_defs init_cluster_def spawn_def Make_def NULL_def)

end
