(* ===== verification/RaftMatching.thy ===== *)
theory RaftMatching
  imports RaftSafety
begin

text \<open>
  Log matching of the cluster: in every orderly run, two logs that hold an entry of the same
  term at the same index agree up to this index, and the terms along a log never decrease.
  The invariant speaks of a set of logs: those of the peers, and those the calls in flight
  were cut from. An accepted \<open>AppendEntries\<close> leaves the callee with a log of this set.
\<close>

section \<open>Merging logs that agree where their terms agree\<close>

definition matching :: "'c LogEntry list \<Rightarrow> 'c LogEntry list \<Rightarrow> bool" where
  "matching g g' \<longleftrightarrow> (\<forall>k. k < length g \<and> k < length g' \<and> entryTerm (g ! k) = entryTerm (g' ! k) \<longrightarrow>
     take (Suc k) g = take (Suc k) g')"

lemma matchingD: "matching g g' \<Longrightarrow> k < length g \<Longrightarrow> k < length g' \<Longrightarrow>
    entryTerm (g ! k) = entryTerm (g' ! k) \<Longrightarrow> take (Suc k) g = take (Suc k) g'"
  by (simp add: matching_def)

lemma matching_refl [simp]: "matching g g"
  by (simp add: matching_def)

lemma matching_sym: "matching g g' \<Longrightarrow> matching g' g"
  by (simp add: matching_def)

lemma matching_nth: "matching g g' \<Longrightarrow> k < length g \<Longrightarrow> k < length g' \<Longrightarrow>
    entryTerm (g ! k) = entryTerm (g' ! k) \<Longrightarrow> g ! k = g' ! k"
  by (drule (3) matchingD) (metis lessI nth_take)

text \<open>A new entry whose term occurs nowhere at or beyond its index.\<close>

lemma matching_snoc:
  assumes "matching g g'" "\<And>k. k < length g' \<Longrightarrow> entryTerm (g' ! k) = entryTerm e \<Longrightarrow> k < length g"
  shows "matching (g @ [e]) g'"
  unfolding matching_def
proof (intro allI impI, elim conjE)
  fix k assume k: "k < length (g @ [e])" "k < length g'" "entryTerm ((g @ [e]) ! k) = entryTerm (g' ! k)"
  have "k \<noteq> length g" using k assms(2) [of k] by auto
  with k have "k < length g" by simp
  with k assms(1) show "take (Suc k) (g @ [e]) = take (Suc k) g'"
    by (auto simp: matching_def nth_append)
qed

lemma merge_entries_either:
  assumes "\<And>k. k < length xs \<Longrightarrow> k < length es \<Longrightarrow> entryTerm (xs ! k) = entryTerm (es ! k) \<Longrightarrow> xs ! k = es ! k"
  shows "merge_entries xs es = xs \<or> merge_entries xs es = es"
  using assms
proof (induction xs es rule: merge_entries.induct)
  case (3 x xs e es)
  show ?case
  proof (cases "entryTerm x = entryTerm e")
    case True
    with "3.prems" [of 0] have "x = e" by simp
    moreover have "merge_entries xs es = xs \<or> merge_entries xs es = es"
      using "3.prems" [of "Suc _"] by (intro "3.IH" [OF True]) auto
    ultimately show ?thesis using True by auto
  qed simp
qed simp_all

text \<open>The arguments of a call, cut from the log \<open>g\<close>.\<close>

definition cut_from :: "'c LogEntry list \<Rightarrow> 'c AppendEntriesArgs \<Rightarrow> bool" where
  "cut_from g args \<longleftrightarrow> 0 \<le> PrevLogIndex args \<and> PrevLogIndex args < len g \<and>
     PrevLogTerm args = entryTerm (g ! nat (PrevLogIndex args)) \<and>
     Entries args = drop (Suc (nat (PrevLogIndex args))) g"

lemma follower_log_either:
  assumes "matching lg g" "cut_from g args" "log_matches args lg"
  shows "follower_log args lg = lg \<or> follower_log args lg = g"
proof -
  let ?p = "nat (PrevLogIndex args)"
  have p: "?p < length lg" "?p < length g" "entryTerm (lg ! ?p) = entryTerm (g ! ?p)"
    using assms(2,3) by (auto simp: cut_from_def log_matches_def len_def)
  then have same: "take (Suc ?p) lg = take (Suc ?p) g" using assms(1) by (intro matchingD)
  have "merge_entries (drop (Suc ?p) lg) (drop (Suc ?p) g) = drop (Suc ?p) lg \<or>
        merge_entries (drop (Suc ?p) lg) (drop (Suc ?p) g) = drop (Suc ?p) g"
    by (intro merge_entries_either) (simp add: matching_nth [OF assms(1)] less_diff_conv add.commute)
  moreover have "follower_log args lg =
      take (Suc ?p) lg @ merge_entries (drop (Suc ?p) lg) (drop (Suc ?p) g)"
    using assms(2) by (simp add: follower_log_def cut_from_def)
  ultimately show ?thesis using same by (metis append_take_drop_id)
qed

section \<open>What the sections of code do to the log\<close>

lemma apply_loop_log: "apply_loop n rf = Inr rf' \<Longrightarrow> log rf' = log rf"
  by (induction n arbitrary: rf) (auto simp: Let_def bind_res_Inr)

lemma applymsg_log: "applymsg rf = Inr rf' \<Longrightarrow> log rf' = log rf"
  by (auto simp: applymsg_def bind_res_Inr dest!: apply_loop_log split: if_splits)

lemma commit_scan_log [simp]: "log (commit_scan k rf) = log rf"
  using commit_scan_spec [of k rf] by auto

lemma advance_commit_log [simp]: "log (advance_commit i rf) = log rf"
  by (simp add: advance_commit_def)

lemma reset_indices_log: "for_res is reset_indices rf = Inr rf' \<Longrightarrow> log rf' = log rf"
  by (induction "is" arbitrary: rf) (auto simp: bind_res_Inr reset_indices_def)

lemma TurnLeader_locked_log: "TurnLeader_locked rf = Inr rf' \<Longrightarrow> log rf' = log rf"
  by (auto simp: TurnLeader_locked_def dest!: reset_indices_log)

lemma heartbeat_reply_log: "sendHeartBeat_reply q success reply rf = Inr rf' \<Longrightarrow> log rf' = log rf"
  by (auto simp: sendHeartBeat_reply_def Let_def bind_res_Inr TurnFollower_def
      split: if_splits dest!: applymsg_log)

lemma RequestVote_log:
  assumes "RequestVote args rf = Inr (reply, rf')"
  shows "log rf' = log rf"
  using assms by (cases rule: RequestVote_shape) simp_all

lemma Start_log: "Start c rf = Inr (r, rf') \<Longrightarrow> log rf' = log rf \<or>
    state rf = LEADER \<and> log rf' = log rf @ [\<lparr>entryTerm = currentTerm rf, Command = c\<rparr>]"
  by (auto simp: Start_def Let_def bind_res_Inr split: if_splits)

lemma AppendEntries_log:
  assumes "AppendEntries args rf = Inr (reply, rf')"
  shows "log rf' = log rf \<or> log_matches args (log rf) \<and> log rf' = follower_log args (log rf) \<and>
     state rf' = FOLLOWER \<and> currentTerm rf' = aeTerm args"
proof (cases "killed rf \<or> aeTerm args < currentTerm rf \<or> len (log rf) - 1 < PrevLogIndex args")
  case True
  with assms have "log rf' = log rf" by (auto simp: AppendEntries_def Let_def split: if_splits)
  then show ?thesis by simp
next
  case False
  let ?rf1 = "step_down args rf"
  from assms False obtain e where e: "idx (log rf) (PrevLogIndex args) = Inr e"
    by (cases "idx (log rf) (PrevLogIndex args)") (simp_all add: AppendEntries_def Let_def)
  then have p: "0 \<le> PrevLogIndex args" "PrevLogIndex args < len (log rf)"
    and at: "e = log rf ! nat (PrevLogIndex args)" by (simp_all add: idx_Inr)
  have new: "append_new args ?rf1 = Inr (?rf1\<lparr>log := follower_log args (log rf)\<rparr>)"
    using append_new_merge [of args ?rf1] p by (simp add: follower_log_def Let_def)
  show ?thesis
  proof (cases "entryTerm e = PrevLogTerm args")
    case True
    with assms False e new have app: "applymsg (advance_commit (LeaderCommit args)
        (?rf1\<lparr>log := follower_log args (log rf)\<rparr>)) = Inr rf'"
      by (auto simp: AppendEntries_def Let_def bind_res_Inr)
    then have "log rf' = follower_log args (log rf)" "core rf' = core ?rf1"
      using advance_commit_frame [of "LeaderCommit args" "?rf1\<lparr>log := follower_log args (log rf)\<rparr>"]
      using applymsg_frame [OF app] applymsg_log [OF app] by simp_all
    then show ?thesis
      using p at True False step_down_cases [of rf args] by (auto simp: log_matches_def)
  next
    case nt: False
    with assms False e show ?thesis by (auto simp: AppendEntries_def Let_def)
  qed
qed

lemma sendHeartBeat_args_cut:
  assumes "sendHeartBeat_args q rf = Inr (Some args)"
  shows "cut_from (log rf) args" "aeTerm args = currentTerm rf"
  using assms
  by (auto simp: sendHeartBeat_args_def bind_res_Inr slice_Inr cut_from_def Suc_nat_eq_nat_zadd1
      split: if_splits)

section \<open>The invariant\<close>

abbreviation term_at :: "'c Cluster \<Rightarrow> int \<Rightarrow> int" where
  "term_at c i \<equiv> currentTerm (rf_at c i)"

definition sent_from :: "'c LogEntry list set \<Rightarrow> 'c HeartBeat \<Rightarrow> bool" where
  "sent_from H h \<longleftrightarrow> (\<forall>args. hbState h = HB_Calling args \<longrightarrow>
     (\<exists>g \<in> H. cut_from g args \<and> (\<forall>e \<in> set g. entryTerm e \<le> aeTerm args)))"

text \<open>
  \<open>H\<close> holds the logs: they match each other, their terms are sorted, every entry but the
  first comes from an election that was won, and the leader of a term holds all of its entries.
\<close>

definition logs_ok :: "'c LogEntry list set \<Rightarrow> 'c Cluster \<Rightarrow> bool" where
  "logs_ok H c \<longleftrightarrow>
     (\<forall>g \<in> H. \<forall>g' \<in> H. matching g g') \<and>
     (\<forall>g \<in> H. sorted (map entryTerm g)) \<and>
     (\<forall>g \<in> H. \<forall>k. 0 < k \<and> k < length g \<longrightarrow> (\<exists>j. elected c j (entryTerm (g ! k)))) \<and>
     (\<forall>i \<in> nodes c. log (rf_at c i) \<in> H \<and> log (rf_at c i) \<noteq> [] \<and>
        (\<forall>e \<in> set (log (rf_at c i)). entryTerm e \<le> term_at c i)) \<and>
     (\<forall>i \<in> nodes c. state (rf_at c i) = LEADER \<longrightarrow>
        (\<forall>g \<in> H. \<forall>k < length g. entryTerm (g ! k) = term_at c i \<longrightarrow> k < length (log (rf_at c i)))) \<and>
     (\<forall>h \<in> set (heartbeats c). sent_from H h)"

definition winner_leads :: "'c Cluster \<Rightarrow> bool" where
  "winner_leads c \<longleftrightarrow> (\<forall>i \<in> nodes c. elected c i (term_at c i) \<longrightarrow> state (rf_at c i) = LEADER)"

definition match_inv :: "'c Cluster \<Rightarrow> bool" where
  "match_inv c \<longleftrightarrow> es_inv c \<and> winner_leads c \<and> (\<exists>H. logs_ok H c)"

lemma logs_okD:
  assumes "logs_ok H c"
  shows "g \<in> H \<Longrightarrow> g' \<in> H \<Longrightarrow> matching g g'" "g \<in> H \<Longrightarrow> sorted (map entryTerm g)"
    "g \<in> H \<Longrightarrow> 0 < k \<Longrightarrow> k < length g \<Longrightarrow> \<exists>j. elected c j (entryTerm (g ! k))"
    "i \<in> nodes c \<Longrightarrow> log (rf_at c i) \<in> H" "i \<in> nodes c \<Longrightarrow> log (rf_at c i) \<noteq> []"
    "i \<in> nodes c \<Longrightarrow> e \<in> set (log (rf_at c i)) \<Longrightarrow> entryTerm e \<le> term_at c i"
    "i \<in> nodes c \<Longrightarrow> state (rf_at c i) = LEADER \<Longrightarrow> g \<in> H \<Longrightarrow> k < length g \<Longrightarrow>
       entryTerm (g ! k) = term_at c i \<Longrightarrow> k < length (log (rf_at c i))"
    "h \<in> set (heartbeats c) \<Longrightarrow> sent_from H h"
  using assms unfolding logs_ok_def by blast+

text \<open>A won election is not of a later term than its winner has.\<close>

lemma elected_past: "es_inv c \<Longrightarrow> elected c i t \<Longrightarrow> t \<le> term_at c i"
  by (auto simp: es_inv_def won_ok_def elected_def)

section \<open>Steps of one peer\<close>

text \<open>
  The peer does not move to an older term, becomes leader only by winning (\<open>wins\<close>), stays
  leader while its term is the same, and as leader appends at most one entry of its term;
  \<open>H\<close> are logs it may take over when it is not leader.
\<close>

definition log_change :: "'c LogEntry list set \<Rightarrow> bool \<Rightarrow> 'c Raft \<Rightarrow> 'c Raft \<Rightarrow> bool" where
  "log_change H wins rf rf' \<longleftrightarrow>
     currentTerm rf \<le> currentTerm rf' \<and>
     (state rf' = LEADER \<longrightarrow> currentTerm rf' = currentTerm rf \<and> (state rf = LEADER \<or> wins)) \<and>
     (state rf = LEADER \<and> currentTerm rf' = currentTerm rf \<longrightarrow> state rf' = LEADER) \<and>
     (log rf' = log rf \<or>
      state rf = LEADER \<and> state rf' = LEADER \<and>
        (\<exists>e. entryTerm e = currentTerm rf \<and> log rf' = log rf @ [e]) \<or>
      state rf' \<noteq> LEADER \<and> log rf' \<in> H \<and> log rf' \<noteq> [] \<and> (\<forall>e \<in> set (log rf'). entryTerm e \<le> currentTerm rf'))"

lemma log_change_same:
  "core rf' = core rf \<Longrightarrow> log rf' = log rf \<Longrightarrow> log_change H wins rf rf'"
  by (simp add: log_change_def)

lemma log_change_vote:
  assumes "RequestVote args rf = Inr (reply, rf')"
  shows "log_change H wins rf rf'"
  using RequestVote_core(3-5) [OF assms] RequestVote_log [OF assms]
  by (cases "currentTerm rf = currentTerm rf'") (auto simp: log_change_def)

lemma log_change_TurnFollower:
  "currentTerm rf < t \<Longrightarrow> log_change H wins rf (TurnFollower t v rf)"
  by (auto simp: log_change_def TurnFollower_def)

lemma log_change_reply:
  assumes "sendHeartBeat_reply q success reply rf = Inr rf'"
  shows "log_change H wins rf rf'"
  using heartbeat_reply_core [OF assms] heartbeat_reply_log [OF assms]
  by (auto simp: log_change_same intro: log_change_TurnFollower)

lemma log_change_local:
  assumes "proc_step e p = Some (Inr (out, p'))" "local_event e"
    and "promoting p > 0 \<Longrightarrow> state (raft p) = LEADER"
  shows "log_change H wins (raft p) (raft p')"
proof (cases e)
  case (E_Start c)
  then obtain r rf where r: "Start c (raft p) = Inr (r, rf)" "raft p' = rf"
    using assms(1) by (auto simp: map_res_Inr)
  then show ?thesis using Start_log [OF r(1)] Start_core [OF r(1)] by (auto simp: log_change_def)
next
  case E_Promote
  then obtain rf where r: "TurnLeader_locked (raft p) = Inr rf" "raft p' = rf" "promoting p > 0"
    using assms(1) by (auto simp: map_res_Inr split: if_splits)
  then show ?thesis
    using assms(3) TurnLeader_locked_core [OF r(1)] TurnLeader_locked_log [OF r(1)]
    by (intro log_change_same) auto
next
  case E_Maintain
  then consider "core (raft p') = core (raft p)" "log (raft p') = log (raft p)"
    | "state (raft p') = state (raft p)" "currentTerm (raft p') = currentTerm (raft p)" "log (raft p') = log (raft p)"
    | "state (raft p') = CANDIDATE" "currentTerm (raft p') = currentTerm (raft p) + 1" "log (raft p') = log (raft p)"
    using assms(1)
    by (auto simp: maintain_step_def Let_def map_res_Inr checkElectionTimeout_def handleLeader_tick_def
        TurnCandidate_def split: maintain_pc.splits option.splits if_splits)
  then show ?thesis by cases (auto simp: log_change_def)
qed (use assms in \<open>auto simp: log_change_def Kill_def TurnLeader_unlocked_def split: if_splits\<close>)

text \<open>An append call takes over a log that matches the peer's own.\<close>

lemma log_change_append:
  assumes ok: "logs_ok H c" and j: "j \<in> nodes c" and inv: "es_inv c"
    and h: "h \<in> set (heartbeats c)" "hbTo h = j" "hbState h = HB_Calling args"
    and r: "AppendEntries args (rf_at c j) = Inr (reply, rf')"
  shows "log_change H wins (rf_at c j) rf'"
proof -
  let ?rf = "rf_at c j"
  have "heartbeat_ok c h" using inv h(1) by (simp add: es_inv_def)
  then have "\<not> elected c j (aeTerm args)"
    using h(2,3) elected_unique [OF inv] by (auto simp: heartbeat_ok_def)
  then have own: "state ?rf = LEADER \<Longrightarrow> currentTerm ?rf \<noteq> aeTerm args"
    using es_inv_at(4) [OF inv j] by auto
  obtain g where g: "g \<in> H" "cut_from g args" "\<forall>e \<in> set g. entryTerm e \<le> aeTerm args"
    using logs_okD(8) [OF ok h(1)] h(3) by (auto simp: sent_from_def)
  have log: "log rf' = log ?rf \<or> log rf' = g \<and> state rf' = FOLLOWER \<and> currentTerm rf' = aeTerm args"
    using AppendEntries_log [OF r] follower_log_either [OF logs_okD(1) [OF ok logs_okD(4) [OF ok j] g(1)] g(2)]
    by auto
  have ne: "g \<noteq> []" using g(2) by (auto simp: cut_from_def)
  from AppendEntries_core [OF r] show ?thesis
  proof
    assume "core rf' = core ?rf"
    then show ?thesis using log g ne by (auto simp: log_change_def)
  next
    assume a: "currentTerm ?rf \<le> aeTerm args \<and> core rf' = core (step_down args ?rf)"
    then have s: "state rf' = FOLLOWER" "currentTerm rf' = aeTerm args"
      using step_down_cases [of ?rf args] by simp_all
    have "state ?rf = LEADER \<Longrightarrow> currentTerm rf' \<noteq> currentTerm ?rf" using own s by auto
    then show ?thesis using log g ne a s by (auto simp: log_change_def)
  qed
qed

section \<open>Every orderly step keeps the invariant\<close>

lemma sent_from_mono: "sent_from H h \<Longrightarrow> H \<subseteq> H' \<Longrightarrow> sent_from H' h"
  unfolding sent_from_def by blast

lemma winner_leads_step:
  assumes inv: "es_inv c" "winner_leads c" and i: "i \<in> nodes c"
    and procs: "servers c' = servers c" "procs c' = (procs c)(i := p)"
    and ch: "log_change H wins (rf_at c i) (raft p)"
    and new: "\<And>j t. elected c' j t \<Longrightarrow> elected c j t \<or> wins \<and> j = i \<and> t = term_at c i"
    and win: "wins \<Longrightarrow> state (raft p) = LEADER"
  shows "winner_leads c'"
  unfolding winner_leads_def
proof (intro ballI impI)
  fix j assume j: "j \<in> nodes c'" "elected c' j (term_at c' j)"
  then have jn: "j \<in> nodes c" using procs(1) by (simp add: nodes_def)
  show "state (rf_at c' j) = LEADER"
  proof (cases "wins \<and> j = i")
    case True
    then show ?thesis using win procs(2) by simp
  next
    case False
    then have el: "elected c j (term_at c' j)" using new [OF j(2)] by auto
    show ?thesis
    proof (cases "j = i")
      case True
      then have t: "currentTerm (raft p) = term_at c i"
        using el elected_past [OF inv(1), of i] ch procs(2) by (force simp: log_change_def)
      then have "state (rf_at c i) = LEADER"
        using el True procs(2) inv(2) i by (simp add: winner_leads_def)
      then show ?thesis using ch t True procs(2) by (simp add: log_change_def)
    next
      case False
      then show ?thesis using el procs(2) inv(2) jn by (simp add: winner_leads_def)
    qed
  qed
qed

text \<open>No log holds an entry, beyond the first, of a term that has just been won.\<close>

lemma fresh_term:
  assumes "es_inv c" "winner_leads c" "logs_ok H c" "es_inv c'"
    and el: "\<And>j t. elected c j t \<Longrightarrow> elected c' j t"
    and "elected c' i (term_at c i)" "state (rf_at c i) \<noteq> LEADER" "i \<in> nodes c"
    and g: "g \<in> H" "0 < k" "k < length g"
  shows "entryTerm (g ! k) \<noteq> term_at c i"
proof
  assume t: "entryTerm (g ! k) = term_at c i"
  obtain j where "elected c j (term_at c i)" using logs_okD(3) [OF assms(3) g] t by auto
  moreover from this have "j = i" using el elected_unique [OF assms(4)] assms(6) by blast
  ultimately show False using assms(2,7,8) by (auto simp: winner_leads_def)
qed

lemma logs_ok_keep:
  assumes inv: "es_inv c" "winner_leads c" "logs_ok H c" "es_inv c'" and i: "i \<in> nodes c"
    and procs: "servers c' = servers c" "procs c' = (procs c)(i := p)"
    and ch: "log_change H wins (rf_at c i) (raft p)" and log: "log (raft p) \<in> H"
    and el: "\<And>j t. elected c j t \<Longrightarrow> elected c' j t"
    and win: "wins \<Longrightarrow> state (rf_at c i) \<noteq> LEADER \<Longrightarrow> elected c' i (term_at c i)"
    and hb: "\<And>h. h \<in> set (heartbeats c') \<Longrightarrow> sent_from H h"
    and same: "log (raft p) = log (rf_at c i) \<or> state (raft p) \<noteq> LEADER"
  shows "logs_ok H c'"
proof -
  have n: "nodes c' = nodes c" using procs(1) by (simp add: nodes_def)
  have at: "rf_at c' j = (if j = i then raft p else rf_at c j)" for j using procs(2) by simp
  have lead: "k < length (log (rf_at c' j))"
    if j: "j \<in> nodes c" "state (rf_at c' j) = LEADER"
      and g: "g \<in> H" "k < length g" "entryTerm (g ! k) = term_at c' j" for j g k
  proof (cases "j = i")
    case False
    then show ?thesis using that logs_okD(7) [OF inv(3), of j g k] by (simp add: at)
  next
    case True
    then have p: "state (raft p) = LEADER" "log (raft p) = log (rf_at c i)"
      "currentTerm (raft p) = term_at c i" "state (rf_at c i) = LEADER \<or> wins"
      using j(2) same ch by (auto simp: at log_change_def)
    show ?thesis
    proof (cases "state (rf_at c i) = LEADER")
      case leads: True
      then show ?thesis using g True p logs_okD(7) [OF inv(3) i leads g(1,2)] by (simp add: at)
    next
      case False
      then have "elected c' i (term_at c i)" using p(4) win by simp
      then have "k = 0"
        using fresh_term [OF inv el _ False i g(1) _ g(2)] g(3) True p(3) by (auto simp: at)
      then show ?thesis using True p(2) logs_okD(5) [OF inv(3) i] by (simp add: at)
    qed
  qed
  have "log (raft p) \<noteq> [] \<and> (\<forall>e \<in> set (log (raft p)). entryTerm e \<le> currentTerm (raft p))"
    using ch logs_okD(5,6) [OF inv(3) i] by (force simp: log_change_def)
  then have own: "log (rf_at c' j) \<in> H \<and> log (rf_at c' j) \<noteq> [] \<and>
      (\<forall>e \<in> set (log (rf_at c' j)). entryTerm e \<le> term_at c' j)" if "j \<in> nodes c" for j
    using log logs_okD(4-6) [OF inv(3) that] by (simp add: at)
  have "\<forall>g \<in> H. \<forall>k. 0 < k \<and> k < length g \<longrightarrow> (\<exists>j. elected c' j (entryTerm (g ! k)))"
    using logs_okD(3) [OF inv(3)] el by blast
  then show ?thesis
    unfolding logs_ok_def n using logs_okD(1,2) [OF inv(3)] own lead hb by (intro conjI ballI) simp_all
qed

lemma logs_ok_append:
  assumes inv: "es_inv c" "winner_leads c" "logs_ok H c" and i: "i \<in> nodes c"
    and procs: "servers c' = servers c" "procs c' = (procs c)(i := p)"
    and ch: "log_change H wins (rf_at c i) (raft p)"
    and lead: "state (rf_at c i) = LEADER" "state (raft p) = LEADER"
    and app: "entryTerm e = term_at c i" "log (raft p) = log (rf_at c i) @ [e]"
    and el: "\<And>j t. elected c j t \<Longrightarrow> elected c' j t"
    and hb: "\<And>h. h \<in> set (heartbeats c') \<Longrightarrow> sent_from H h"
  shows "logs_ok (insert (log (raft p)) H) c'"
proof -
  let ?l = "log (rf_at c i)"
  have n: "nodes c' = nodes c" using procs(1) by (simp add: nodes_def)
  have at: "rf_at c' j = (if j = i then raft p else rf_at c j)" for j using procs(2) by simp
  have t: "currentTerm (raft p) = term_at c i" using ch lead by (simp add: log_change_def)
  have won: "elected c i (term_at c i)" using es_inv_at(4) [OF inv(1) i] lead(1) by simp
  have l: "?l \<in> H" "?l \<noteq> []" "\<forall>e \<in> set ?l. entryTerm e \<le> term_at c i"
    using logs_okD(4-6) [OF inv(3) i] by auto
  have m: "matching (?l @ [e]) g" if "g \<in> H" for g
    using logs_okD(1) [OF inv(3) l(1) that] logs_okD(7) [OF inv(3) i lead(1) that] app(1)
    by (intro matching_snoc) auto
  have s: "sorted (map entryTerm (?l @ [e]))"
    using logs_okD(2) [OF inv(3) l(1)] l(3) app(1) by (auto simp: sorted_append)
  have o: "\<exists>j. elected c' j (entryTerm ((?l @ [e]) ! k))" if "0 < k" "k < length (?l @ [e])" for k
  proof (cases "k = length ?l")
    case True
    then show ?thesis using won app(1) el by auto
  next
    case False
    then show ?thesis using that logs_okD(3) [OF inv(3) l(1), of k] el by (auto simp: nth_append)
  qed
  have others: "k < length (log (rf_at c' j))"
    if j: "j \<in> nodes c" "state (rf_at c' j) = LEADER"
      and g: "g \<in> insert (?l @ [e]) H" "k < length g" "entryTerm (g ! k) = term_at c' j" for j g k
  proof (cases "j = i")
    case True
    then show ?thesis
      using g t logs_okD(7) [OF inv(3) i lead(1), of g k] app(2) by (auto simp: at)
  next
    case False
    then have leads: "state (rf_at c j) = LEADER" using j(2) by (simp add: at)
    then have "elected c j (term_at c j)" using es_inv_at(4) [OF inv(1) j(1)] by simp
    then have "term_at c j \<noteq> term_at c i" using won elected_unique [OF inv(1)] False by metis
    then have "k < length (log (rf_at c j))"
      using False g app(1) logs_okD(7) [OF inv(3) j(1) leads]
        logs_okD(7) [OF inv(3) j(1) leads l(1), of k]
      by (cases "g = ?l @ [e]") (auto simp: at nth_append less_Suc_eq split: if_splits)
    then show ?thesis using False by (simp add: at)
  qed
  show ?thesis
    unfolding logs_ok_def n app(2)
  proof (intro conjI)
    show "\<forall>g \<in> insert (?l @ [e]) H. \<forall>g' \<in> insert (?l @ [e]) H. matching g g'"
      using m matching_sym [OF m] logs_okD(1) [OF inv(3)] by simp
    show "\<forall>g \<in> insert (?l @ [e]) H. sorted (map entryTerm g)" using s logs_okD(2) [OF inv(3)] by blast
    show "\<forall>g \<in> insert (?l @ [e]) H. \<forall>k. 0 < k \<and> k < length g \<longrightarrow> (\<exists>j. elected c' j (entryTerm (g ! k)))"
      using o logs_okD(3) [OF inv(3)] el by blast
    show "\<forall>j \<in> nodes c. log (rf_at c' j) \<in> insert (?l @ [e]) H \<and> log (rf_at c' j) \<noteq> [] \<and>
        (\<forall>e \<in> set (log (rf_at c' j)). entryTerm e \<le> term_at c' j)"
      using logs_okD(4-6) [OF inv(3)] l(3) app t by (auto simp: at)
    show "\<forall>j \<in> nodes c. state (rf_at c' j) = LEADER \<longrightarrow> (\<forall>g \<in> insert (?l @ [e]) H. \<forall>k < length g.
        entryTerm (g ! k) = term_at c' j \<longrightarrow> k < length (log (rf_at c' j)))"
      using others by blast
    show "\<forall>h \<in> set (heartbeats c'). sent_from (insert (?l @ [e]) H) h"
      using hb sent_from_mono by blast
  qed
qed

text \<open>A step of peer \<open>i\<close> together with what it does to elections and calls.\<close>

lemma match_inv_change:
  assumes inv: "es_inv c" "winner_leads c" "logs_ok H c" "es_inv c'" and i: "i \<in> nodes c"
    and procs: "servers c' = servers c" "procs c' = (procs c)(i := p)"
    and ch: "log_change H wins (rf_at c i) (raft p)"
    and el: "\<And>j t. elected c j t \<Longrightarrow> elected c' j t"
    and new: "\<And>j t. elected c' j t \<Longrightarrow> elected c j t \<or> wins \<and> j = i \<and> t = term_at c i"
    and win: "wins \<Longrightarrow> state (raft p) = LEADER \<and> elected c' i (term_at c i)"
    and hb: "\<And>h. h \<in> set (heartbeats c') \<Longrightarrow> sent_from H h"
  shows "match_inv c'"
proof -
  have "winner_leads c'" using winner_leads_step [OF inv(1,2) i procs ch new] win by blast
  moreover consider (keep) "log (raft p) \<in> H" "log (raft p) = log (rf_at c i) \<or> state (raft p) \<noteq> LEADER"
    | (app) e where "state (rf_at c i) = LEADER" "state (raft p) = LEADER"
        "entryTerm e = term_at c i" "log (raft p) = log (rf_at c i) @ [e]"
    using ch logs_okD(4) [OF inv(3) i] by (auto simp: log_change_def)
  then have "\<exists>H'. logs_ok H' c'"
  proof cases
    case keep
    then show ?thesis using logs_ok_keep [OF inv i procs ch keep(1) el _ hb keep(2)] win by blast
  next
    case app
    then show ?thesis using logs_ok_append [OF inv(1-3) i procs ch app el hb] by blast
  qed
  ultimately show ?thesis using inv(4) by (auto simp: match_inv_def)
qed

section \<open>The steps of the cluster\<close>

lemma elected_nth: "elected c i t \<longleftrightarrow> (\<exists>k < length (elections c). cand (elections c ! k) = i \<and>
    eterm (elections c ! k) = t \<and> won c (elections c ! k))"
  unfolding elected_def by (metis in_set_conv_nth)

lemma elected_set_vote [simp]:
  assumes "k < length (elections c)"
  shows "elected (set_vote k j g c) i t = elected c i t"
proof -
  let ?e = "elections c ! k" let ?e' = "?e\<lparr>votes := (votes ?e)(j := g)\<rparr>"
  have "cand ((elections c)[k := ?e'] ! m) = cand (elections c ! m) \<and>
      eterm ((elections c)[k := ?e'] ! m) = eterm (elections c ! m) \<and>
      won c ((elections c)[k := ?e'] ! m) = won c (elections c ! m)" for m
    using assms by (cases "m = k") (simp_all add: won_def)
  then show ?thesis by (simp add: elected_nth set_vote_def Let_def)
qed

lemma set_vote_sel [simp]:
  "servers (set_vote k j g c) = servers c" "procs (set_vote k j g c) = procs c"
  "heartbeats (set_vote k j g c) = heartbeats c"
  by (simp_all add: set_vote_def Let_def)

lemma set_heartbeat_sel [simp]:
  "servers (set_heartbeat k g c) = servers c" "procs (set_heartbeat k g c) = procs c"
  "elected (set_heartbeat k g c) i t = elected c i t"
  by (simp_all add: set_heartbeat_def elected_def won_def)

lemma sent_from_set_heartbeat:
  assumes "h \<in> set (heartbeats (set_heartbeat k g c))" "\<And>h. h \<in> set (heartbeats c) \<Longrightarrow> sent_from H h"
    and "\<And>args. g = HB_Calling args \<Longrightarrow>
      \<exists>l \<in> H. cut_from l args \<and> (\<forall>e \<in> set l. entryTerm e \<le> aeTerm args)"
  shows "sent_from H h"
proof -
  have "h \<in> insert ((heartbeats c ! k)\<lparr>hbState := g\<rparr>) (set (heartbeats c))"
    using assms(1) set_update_subset_insert unfolding set_heartbeat_def by fastforce
  then show ?thesis using assms(2,3) by (auto simp: sent_from_def)
qed

lemma elected_spawn: "elected (spawn_goroutines i out c) j t = elected c j t"
  if "\<And>args m ps. out = O_Election args m ps \<Longrightarrow> m = 1"
  using that by (cases out) (auto simp: elected_def won_def)

lemma sent_from_spawn:
  "h \<in> set (heartbeats (spawn_goroutines i out c)) \<Longrightarrow>
     h \<in> set (heartbeats c) \<or> hbState h = HB_Start"
  by (cases out) auto

lemma spawn_sel [simp]:
  "servers (spawn_goroutines i out c) = servers c" "procs (spawn_goroutines i out c) = procs c"
  by (cases out; simp)+

text \<open>What a counted vote changes of who has been elected.\<close>

lemma elected_counted:
  assumes k: "k < length (elections c)" and e': "cand e' = cand (elections c ! k)"
    "eargs e' = eargs (elections c ! k)" "voteNum (elections c ! k) \<le> voteNum e'"
  shows "elected (set_election k e' c) a t \<longleftrightarrow>
      elected c a t \<or> won c e' \<and> a = cand (elections c ! k) \<and> t = eterm (elections c ! k)"
    and "voteNum e' = voteNum (elections c ! k) \<Longrightarrow> elected (set_election k e' c) a t \<longleftrightarrow> elected c a t"
proof -
  let ?e = "elections c ! k"
  have at: "(elections c)[k := e'] ! m = (if m = k then e' else elections c ! m)" for m
    using k by (simp add: nth_list_update)
  show now: "elected (set_election k e' c) a t \<longleftrightarrow> elected c a t \<or> won c e' \<and> a = cand ?e \<and> t = eterm ?e"
  proof
    assume "elected (set_election k e' c) a t"
    then show "elected c a t \<or> won c e' \<and> a = cand ?e \<and> t = eterm ?e"
      unfolding elected_nth using k e' by (auto simp: at won_def split: if_splits)
  next
    assume "elected c a t \<or> won c e' \<and> a = cand ?e \<and> t = eterm ?e"
    moreover have "won c e' \<Longrightarrow> elected (set_election k e' c) (cand ?e) (eterm ?e)"
      unfolding elected_nth using k e' by (intro exI [of _ k]) (auto simp: at won_def)
    ultimately show "elected (set_election k e' c) a t" using elected_set_election [OF k e'] by blast
  qed
  show "elected (set_election k e' c) a t \<longleftrightarrow> elected c a t" if "voteNum e' = voteNum ?e"
  proof -
    have "won c e' \<Longrightarrow> elected c (cand ?e) (eterm ?e)"
      unfolding elected_nth using k that by (intro exI [of _ k]) (auto simp: won_def)
    then show ?thesis using now by blast
  qed
qed

text \<open>What the goroutine \<open>sendvote\<close> leaves behind.\<close>

definition voted_proc :: "'c Proc \<Rightarrow> 'c Raft \<Rightarrow> bool \<Rightarrow> 'c Proc" where
  "voted_proc p rf w = p\<lparr>raft := rf, promoting := promoting p + (if w then 1 else 0)\<rparr>"

definition voted_election :: "Election \<Rightarrow> int \<Rightarrow> int \<Rightarrow> Election" where
  "voted_election e j n = e\<lparr>voteNum := n, votes := (votes e)(j := if n \<noteq> voteNum e then Counted else Ignored)\<rparr>"

lemma voted_sel [simp]:
  "raft (voted_proc p rf w) = rf" "promoting (voted_proc p rf w) = promoting p + (if w then 1 else 0)"
  "cand (voted_election e j n) = cand e" "eargs (voted_election e j n) = eargs e"
  "voteNum (voted_election e j n) = n"
  by (simp_all add: voted_proc_def voted_election_def)

lemma vote_returned:
  assumes "cluster_step (VoteReturn k j) c = Some (Inr (u, c'))"
  obtains s r rf n w where "k < length (elections c)" "votes (elections c ! k) j = Returned s r"
    "sendvote s r (voteNum (elections c ! k)) (rf_at c (cand (elections c ! k))) = (rf, n, w)"
    "c' = set_election k (voted_election (elections c ! k) j n)
       (c\<lparr>procs := (procs c)(cand (elections c ! k) := voted_proc (procs c (cand (elections c ! k))) rf w)\<rparr>)"
proof -
  let ?e = "elections c ! k"
  have k: "k < length (elections c)" using assms by (auto split: if_splits)
  obtain s r where ret: "votes ?e j = Returned s r"
    using assms k by (auto simp: Let_def split: vote_goroutine.splits)
  obtain rf n w where sv: "sendvote s r (voteNum ?e) (rf_at c (cand ?e)) = (rf, n, w)"
    by (cases "sendvote s r (voteNum ?e) (rf_at c (cand ?e))") auto
  have "c' = set_election k (voted_election ?e j n)
       (c\<lparr>procs := (procs c)(cand ?e := voted_proc (procs c (cand ?e)) rf w)\<rparr>)"
    using assms k ret sv by (auto simp: Let_def count_vote_def voted_proc_def voted_election_def dest!: on_procD)
  with that k ret sv show thesis by blast
qed

lemma match_vote_return:
  assumes inv: "es_inv c" "winner_leads c" "logs_ok H c" "es_inv c'"
    and ord: "orderly (VoteReturn k j) c"
    and st: "cluster_step (VoteReturn k j) c = Some (Inr (u, c'))"
  shows "match_inv c'"
proof -
  let ?e = "elections c ! k" let ?i = "cand ?e"
  obtain s r rf n w where k: "k < length (elections c)" and ret: "votes ?e j = Returned s r"
    and sv: "sendvote s r (voteNum ?e) (rf_at c ?i) = (rf, n, w)"
    and c': "c' = set_election k (voted_election ?e j n) (c\<lparr>procs := (procs c)(?i := voted_proc (procs c ?i) rf w)\<rparr>)"
    using st by (rule vote_returned)
  let ?p = "voted_proc (procs c ?i) rf w" let ?e' = "voted_election ?e j n"
  have mem: "?e \<in> set (elections c)" using k by simp
  then have i: "?i \<in> nodes c" using inv(1) by (simp add: es_inv_def election_ok_def)
  have sel: "servers c' = servers c" "procs c' = (procs c)(?i := ?p)" "heartbeats c' = heartbeats c"
    by (simp_all add: c')
  have core: "log rf = log (rf_at c ?i)" "voteNum ?e \<le> n"
    using sv by (cases rule: sendvote_cases; simp add: TurnFollower_def)+
  note ec = elected_counted [of k "c\<lparr>procs := (procs c)(?i := ?p)\<rparr>" ?e']
  have now: "elected c' a t \<longleftrightarrow> elected c a t \<or> won c ?e' \<and> a = ?i \<and> t = eterm ?e" for a t
    using ec(1) [of a t] k core(2) by (simp add: c' won_def)
  have uncounted: "elected c' a t \<longleftrightarrow> elected c a t" if "n = voteNum ?e" for a t
    using ec(2) [of a t] k core(2) that by (simp add: c')
  have el: "elected c a t \<Longrightarrow> elected c' a t" for a t using now by blast
  have hb: "h \<in> set (heartbeats c') \<Longrightarrow> sent_from H h" for h
    using logs_okD(8) [OF inv(3)] sel(3) by simp
  from sv show ?thesis
  proof (cases rule: sendvote_cases)
    case same
    then have "log_change H False (rf_at c ?i) (raft ?p)" by (simp add: log_change_same)
    then show ?thesis
      by (rule match_inv_change [OF inv i sel(1,2)]) (use uncounted same hb in simp_all)
  next
    case down
    then have "log_change H False (rf_at c ?i) (raft ?p)" by (simp add: log_change_TurnFollower)
    then show ?thesis
      by (rule match_inv_change [OF inv i sel(1,2)]) (use uncounted down hb in simp_all)
  next
    case counted
    have t: "term_at c ?i = eterm ?e"
      using ord counted ret by (simp add: orderly_def stale_vote_def Let_def)
    have peers: "peers (rf_at c ?i) = servers c" using es_inv_at(2) [OF inv(1) i] .
    have ok: "election_ok c ?e" using inv(1) mem by (simp add: es_inv_def)
    have w: "won c ?e' \<longleftrightarrow> w"
      using counted ok peers by (auto simp: won_def election_ok_def)
    have "log_change H w (rf_at c ?i) (raft ?p)"
      using counted by (cases w) (simp_all add: log_change_def)
    then show ?thesis
    proof (rule match_inv_change [OF inv i sel(1,2)])
      show "elected c' a x \<Longrightarrow> elected c a x \<or> w \<and> a = ?i \<and> x = term_at c ?i" for a x
        using now w t by auto
      show "w \<Longrightarrow> state (raft ?p) = LEADER \<and> elected c' ?i (term_at c ?i)"
        using now w t counted by simp
    qed (use el hb in auto)
  qed
qed

text \<open>A step that leaves elections as they are.\<close>

lemma match_inv_quiet:
  assumes inv: "es_inv c" "winner_leads c" "logs_ok H c" "es_inv c'" and i: "i \<in> nodes c"
    and procs: "servers c' = servers c" "procs c' = (procs c)(i := p)"
    and ch: "log_change H False (rf_at c i) (raft p)"
    and el: "\<And>j t. elected c' j t \<longleftrightarrow> elected c j t"
    and hb: "\<And>h. h \<in> set (heartbeats c') \<Longrightarrow> sent_from H h"
  shows "match_inv c'"
  by (rule match_inv_change [OF inv i procs ch]) (use el hb in auto)

lemma match_local:
  assumes inv: "es_inv c" "winner_leads c" "logs_ok H c" "es_inv c'"
    and st: "cluster_step (Local i e) c = Some (Inr (u, c'))"
  shows "match_inv c'"
proof -
  have i: "i \<in> nodes c" and loc: "local_event e" using st by (auto simp: nodes_def split: if_splits)
  obtain out p where p: "proc_step e (procs c i) = Some (Inr (out, p))"
    and c': "c' = spawn_goroutines i out (c\<lparr>procs := (procs c)(i := p)\<rparr>)"
    using st by (auto split: if_splits dest!: on_procD)
  show ?thesis
  proof (rule match_inv_quiet [OF inv i])
    show "servers c' = servers c" "procs c' = (procs c)(i := p)" by (simp_all add: c')
    show "log_change H False (rf_at c i) (raft p)"
      using p loc es_inv_at(5) [OF inv(1) i] by (rule log_change_local)
    show "elected c' j t \<longleftrightarrow> elected c j t" for j t
      unfolding c' using local_outcome(1) [OF p loc] by (subst elected_spawn) auto
    show "h \<in> set (heartbeats c') \<Longrightarrow> sent_from H h" for h
      unfolding c' using logs_okD(8) [OF inv(3)] sent_from_spawn by (fastforce simp: sent_from_def)
  qed
qed

lemma called_node:
  assumes "es_inv c" "k < length (elections c)" "votes (elections c ! k) j = Calling"
  shows "j \<in> nodes c"
proof -
  have "election_ok c (elections c ! k)" using assms(1,2) by (simp add: es_inv_def)
  then show ?thesis using assms(3) by (simp add: election_ok_def)
qed

lemma match_call_vote:
  assumes inv: "es_inv c" "winner_leads c" "logs_ok H c" "es_inv c'"
    and st: "cluster_step (CallVote k j b) c = Some (Inr (u, c'))"
  shows "match_inv c'"
proof -
  let ?e = "elections c ! k"
  have k: "k < length (elections c)" "votes ?e j = Calling" using st by (auto split: if_splits)
  then have j: "j \<in> nodes c" using called_node [OF inv(1)] by blast
  obtain reply rf where r: "RequestVote (eargs ?e) (rf_at c j) = Inr (reply, rf)"
    and c': "c' = vote_reply k j b (O_Vote reply) (c\<lparr>procs := (procs c)(j := (procs c j)\<lparr>raft := rf\<rparr>)\<rparr>)"
    using st k by (auto simp: map_res_Inr dest!: on_procD)
  show ?thesis
  proof (rule match_inv_quiet [OF inv j])
    show "servers c' = servers c" "procs c' = (procs c)(j := (procs c j)\<lparr>raft := rf\<rparr>)"
      by (simp_all add: c' vote_reply_def)
    show "log_change H False (rf_at c j) (raft ((procs c j)\<lparr>raft := rf\<rparr>))"
      using log_change_vote [OF r] by simp
    show "elected c' i t \<longleftrightarrow> elected c i t" for i t using k by (simp add: c' vote_reply_def)
    show "h \<in> set (heartbeats c') \<Longrightarrow> sent_from H h" for h
      using logs_okD(8) [OF inv(3)] by (simp add: c' vote_reply_def)
  qed
qed

lemma match_heartbeat_call:
  assumes inv: "es_inv c" "winner_leads c" "logs_ok H c" "es_inv c'"
    and st: "cluster_step (HeartBeatCall k) c = Some (Inr (u, c'))"
  shows "match_inv c'"
proof -
  let ?h = "heartbeats c ! k"
  have k: "k < length (heartbeats c)" using st by (auto split: if_splits)
  then have i: "hbFrom ?h \<in> nodes c" using inv(1) by (simp add: es_inv_def heartbeat_ok_def)
  obtain args where args: "sendHeartBeat_args (hbTo ?h) (rf_at c (hbFrom ?h)) = Inr args"
    and c': "c' = begin_call k (O_Args args) c"
    using st k by (auto simp: Let_def map_res_Inr split: if_splits dest!: on_procD)
  show ?thesis
  proof (rule match_inv_quiet [OF inv i, where p = "procs c (hbFrom ?h)"])
    show "servers c' = servers c" "procs c' = (procs c)(hbFrom ?h := procs c (hbFrom ?h))"
      "\<And>i t. elected c' i t \<longleftrightarrow> elected c i t"
      by (simp_all add: c' begin_call_def split: option.splits)
    show "log_change H False (rf_at c (hbFrom ?h)) (rf_at c (hbFrom ?h))" by (simp add: log_change_same)
    have "\<exists>l \<in> H. cut_from l a \<and> (\<forall>e \<in> set l. entryTerm e \<le> aeTerm a)" if "args = Some a" for a
      using sendHeartBeat_args_cut [OF args [unfolded that]] logs_okD(4,6) [OF inv(3) i] by auto
    then show "h \<in> set (heartbeats c') \<Longrightarrow> sent_from H h" for h
      unfolding c' begin_call_def
      by (auto intro: logs_okD(8) [OF inv(3)] split: option.splits elim!: sent_from_set_heartbeat)
  qed
qed

lemma match_call_append:
  assumes inv: "es_inv c" "winner_leads c" "logs_ok H c" "es_inv c'"
    and st: "cluster_step (CallAppend k b) c = Some (Inr (u, c'))"
  shows "match_inv c'"
proof -
  let ?h = "heartbeats c ! k"
  have k: "k < length (heartbeats c)" using st by (auto split: if_splits)
  then have mem: "?h \<in> set (heartbeats c)" by simp
  then have j: "hbTo ?h \<in> nodes c" using inv(1) by (simp add: es_inv_def heartbeat_ok_def)
  obtain args where args: "hbState ?h = HB_Calling args"
    using st k by (auto simp: Let_def split: hb_goroutine.splits)
  obtain reply rf where r: "AppendEntries args (rf_at c (hbTo ?h)) = Inr (reply, rf)"
    and c': "c' = append_reply k args b (O_Append reply)
       (c\<lparr>procs := (procs c)(hbTo ?h := (procs c (hbTo ?h))\<lparr>raft := rf\<rparr>)\<rparr>)"
    using st k args by (auto simp: Let_def map_res_Inr dest!: on_procD)
  show ?thesis
  proof (rule match_inv_quiet [OF inv j])
    show "servers c' = servers c" "procs c' = (procs c)(hbTo ?h := (procs c (hbTo ?h))\<lparr>raft := rf\<rparr>)"
      "\<And>i t. elected c' i t \<longleftrightarrow> elected c i t"
      by (simp_all add: c' append_reply_def)
    show "log_change H False (rf_at c (hbTo ?h)) (raft ((procs c (hbTo ?h))\<lparr>raft := rf\<rparr>))"
      using log_change_append [OF inv(3) j inv(1) mem refl args r] by simp
    show "h \<in> set (heartbeats c') \<Longrightarrow> sent_from H h" for h
      unfolding c' append_reply_def
      by (auto intro: logs_okD(8) [OF inv(3)] elim!: sent_from_set_heartbeat split: if_splits)
  qed
qed

lemma match_heartbeat_return:
  assumes inv: "es_inv c" "winner_leads c" "logs_ok H c" "es_inv c'"
    and st: "cluster_step (HeartBeatReturn k) c = Some (Inr (u, c'))"
  shows "match_inv c'"
proof -
  let ?h = "heartbeats c ! k"
  have k: "k < length (heartbeats c)" using st by (auto split: if_splits)
  then have i: "hbFrom ?h \<in> nodes c" using inv(1) by (simp add: es_inv_def heartbeat_ok_def)
  obtain a s r where old: "hbState ?h = HB_Returned a s r"
    using st k by (auto simp: Let_def split: hb_goroutine.splits)
  obtain rf where r: "sendHeartBeat_reply (hbTo ?h) s r (rf_at c (hbFrom ?h)) = Inr rf"
    and c': "c' = set_heartbeat k HB_Done
       (c\<lparr>procs := (procs c)(hbFrom ?h := (procs c (hbFrom ?h))\<lparr>raft := rf\<rparr>)\<rparr>)"
    using st k old by (auto simp: Let_def map_res_Inr dest!: on_procD)
  show ?thesis
  proof (rule match_inv_quiet [OF inv i])
    show "servers c' = servers c" "procs c' = (procs c)(hbFrom ?h := (procs c (hbFrom ?h))\<lparr>raft := rf\<rparr>)"
      "\<And>i t. elected c' i t \<longleftrightarrow> elected c i t"
      by (simp_all add: c')
    show "log_change H False (rf_at c (hbFrom ?h)) (raft ((procs c (hbFrom ?h))\<lparr>raft := rf\<rparr>))"
      using log_change_reply [OF r] by simp
    show "h \<in> set (heartbeats c') \<Longrightarrow> sent_from H h" for h
      unfolding c' by (auto intro: logs_okD(8) [OF inv(3)] elim!: sent_from_set_heartbeat)
  qed
qed

text \<open>A call that fails changes no peer.\<close>

lemma match_failed_call:
  assumes inv: "es_inv c" "winner_leads c" "logs_ok H c" "es_inv c'"
    and i: "i \<in> nodes c" and c': "c' = set_vote k j g c \<and> k < length (elections c) \<or>
      c' = set_heartbeat k (HB_Returned a s r) c"
  shows "match_inv c'"
proof (rule match_inv_quiet [OF inv i, where p = "procs c i"])
  show "servers c' = servers c" "procs c' = (procs c)(i := procs c i)"
    "\<And>i t. elected c' i t \<longleftrightarrow> elected c i t" using c' by auto
  show "log_change H False (rf_at c i) (rf_at c i)" by (simp add: log_change_same)
  show "h \<in> set (heartbeats c') \<Longrightarrow> sent_from H h" for h
    using c' by (auto intro: logs_okD(8) [OF inv(3)] elim!: sent_from_set_heartbeat)
qed

lemma match_inv_step:
  assumes "match_inv c" "orderly a c" and st: "cluster_step a c = Some (Inr (u, c'))"
  shows "match_inv c'"
proof -
  obtain H where "es_inv c" "winner_leads c" "logs_ok H c" using assms(1) by (auto simp: match_inv_def)
  moreover from this have "es_inv c'" using assms(2) st by (blast intro: es_inv_step)
  ultimately have inv: "es_inv c" "winner_leads c" "logs_ok H c" "es_inv c'" by blast+
  show ?thesis
  proof (cases a)
    case (Local i e)
    then show ?thesis using match_local [OF inv] st by (simp only:)
  next
    case (CallVote k j b)
    then show ?thesis using match_call_vote [OF inv] st by (simp only:)
  next
    case (FailVote k j)
    then have k: "k < length (elections c)" "votes (elections c ! k) j = Calling"
      and c': "c' = set_vote k j (Returned False RequestVoteReply_zero) c"
      using st by (auto split: if_splits)
    then have "j \<in> nodes c" using called_node [OF inv(1)] by blast
    then show ?thesis using k c' by (intro match_failed_call [OF inv]) auto
  next
    case (VoteReturn k j)
    then show ?thesis using match_vote_return [OF inv] assms(2) st by (simp only:)
  next
    case (HeartBeatCall k)
    then show ?thesis using match_heartbeat_call [OF inv] st by (simp only:)
  next
    case (CallAppend k b)
    then show ?thesis using match_call_append [OF inv] st by (simp only:)
  next
    case (FailAppend k)
    then obtain args where k: "k < length (heartbeats c)"
      and c': "c' = set_heartbeat k (HB_Returned args False AppendEntriesReply_zero) c"
      using st by (auto split: if_splits hb_goroutine.splits)
    then have "hbTo (heartbeats c ! k) \<in> nodes c" using inv(1) by (simp add: es_inv_def heartbeat_ok_def)
    then show ?thesis using c' by (intro match_failed_call [OF inv]) auto
  next
    case (HeartBeatReturn k)
    then show ?thesis using match_heartbeat_return [OF inv] st by (simp only:)
  qed
qed

interpretation log_safety: invariant_machine cluster_step orderly match_inv
  by unfold_locales (rule match_inv_step)

lemma match_inv_init: "match_inv (init_cluster n)"
proof -
  have "winner_leads (init_cluster n)" by (simp add: winner_leads_def elected_def init_cluster_def)
  moreover have "logs_ok {[\<lparr>entryTerm = 0, Command = None\<rparr>]} (init_cluster n)"
    by (auto simp: logs_ok_def init_cluster_def spawn_def Make_def)
  ultimately show ?thesis using es_inv_init by (auto simp: match_inv_def)
qed

text \<open>C5: log matching. After any orderly schedule, if the logs of two peers hold entries of the
  same term at some index, the logs are the same up to this index; and the terms along a log
  never decrease nor exceed the peer's own term.\<close>

theorem log_matching:
  assumes "runs cluster_step orderly acts (init_cluster n) = Some (Inr c)"
    and "i \<in> {0..<int (servers c)}" "j \<in> {0..<int (servers c)}"
  shows "(\<forall>k. k < length (log (rf_at c i)) \<and> k < length (log (rf_at c j)) \<and>
       entryTerm (log (rf_at c i) ! k) = entryTerm (log (rf_at c j) ! k) \<longrightarrow>
       take (Suc k) (log (rf_at c i)) = take (Suc k) (log (rf_at c j))) \<and>
     sorted (map entryTerm (log (rf_at c i)) @ [currentTerm (rf_at c i)])"
proof -
  obtain H where H: "logs_ok H c"
    using log_safety.runs_inv [OF match_inv_init assms(1)] by (auto simp: match_inv_def)
  have n: "i \<in> nodes c" "j \<in> nodes c" using assms(2,3) by (simp_all add: nodes_def)
  show ?thesis
    using logs_okD(1) [OF H logs_okD(4) [OF H n(1)] logs_okD(4) [OF H n(2)]]
      logs_okD(2) [OF H logs_okD(4) [OF H n(1)]] logs_okD(6) [OF H n(1)]
    by (auto simp: matching_def sorted_append)
qed

text \<open>Peer 0 of three leads, takes a command and replicates it to peer 1.\<close>

definition replicated_run :: "nat action list" where
  "replicated_run = [Local 0 E_FireElection, Local 0 E_Maintain, Local 0 E_Maintain, Local 0 E_Maintain,
     CallVote 0 1 True, VoteReturn 0 1, Local 0 E_Promote, Local 0 (E_Start (Some 7)), Local 0 E_Arm,
     HeartBeatCall 0, CallAppend 0 True, HeartBeatReturn 0]"

theorem log_matching_witness:
  "\<exists>c. runs cluster_step orderly replicated_run (init_cluster 3) = Some (Inr c) \<and>
     log (rf_at c 0) = [\<lparr>entryTerm = 0, Command = None\<rparr>, \<lparr>entryTerm = 1, Command = Some 7\<rparr>] \<and>
     log (rf_at c 1) = log (rf_at c 0)"
proof -
  have "case runs cluster_step orderly replicated_run (init_cluster 3) of
      Some (Inr c) \<Rightarrow> servers c = 3 \<and> map entryTerm (log (rf_at c 1)) = [0, 1] \<and>
        log (rf_at c 0) = [\<lparr>entryTerm = 0, Command = None\<rparr>, \<lparr>entryTerm = 1, Command = Some 7\<rparr>]
    | _ \<Rightarrow> False" by code_simp
  then obtain c where c: "runs cluster_step orderly replicated_run (init_cluster 3) = Some (Inr c)"
    and s: "servers c = 3" "map entryTerm (log (rf_at c 1)) = [0, 1]"
      "log (rf_at c 0) = [\<lparr>entryTerm = 0, Command = None\<rparr>, \<lparr>entryTerm = 1, Command = Some 7\<rparr>]"
    by (auto split: option.splits sum.splits)
  have l: "length (log (rf_at c 1)) = 2" using arg_cong [OF s(2), of length] by simp
  have "entryTerm (log (rf_at c 1) ! 1) = map entryTerm (log (rf_at c 1)) ! 1" using l by simp
  then have "take 2 (log (rf_at c 1)) = take 2 (log (rf_at c 0))"
    using log_matching [OF c, of 1 0] s l by (auto simp: numeral_2_eq_2 dest: spec [of _ 1])
  then show ?thesis using c s(3) l by (intro exI [of _ c]) simp
qed

end
