(* ===== verification/RaftHistory.thy ===== *)
theory RaftHistory
  imports RaftMatching "HOL-Library.Sublist"
begin

text \<open>
  The history of a Raft cluster (\<open>mp2/src/raft/raft.go\<close>), as far as agreement needs it: which
  terms have had a leader, the log of each leader, and who held which log in which term.
  Entries that a majority held in the term of the last of them are chosen; every later leader
  has them.
\<close>

section \<open>Logs that follow their leaders\<close>

record 'c History =
  led :: "int set" \<comment> \<open>the terms that have had a leader\<close>
  line :: "int \<Rightarrow> 'c LogEntry list" \<comment> \<open>the log of the leader of a term, as far as it got\<close>
  held :: "(int \<times> int \<times> 'c LogEntry list) set" \<comment> \<open>a peer had a log in a term\<close>

abbreviation last_term :: "'c LogEntry list \<Rightarrow> int" where
  "last_term l \<equiv> entryTerm (last l)"

text \<open>Each part of the log up to an entry is what the leader of this entry's term had up to it.\<close>

definition chain :: "'c History \<Rightarrow> 'c LogEntry list \<Rightarrow> bool" where
  "chain H l \<longleftrightarrow> (\<forall>p. prefix p l \<and> p \<noteq> [] \<longrightarrow> prefix p (line H (last_term p)))"

lemma chainD: "chain H l \<Longrightarrow> prefix p l \<Longrightarrow> p \<noteq> [] \<Longrightarrow> prefix p (line H (last_term p))"
  by (simp add: chain_def)

lemma chain_self: "chain H l \<Longrightarrow> l \<noteq> [] \<Longrightarrow> prefix l (line H (last_term l))"
  by (simp add: chain_def)

lemma chain_prefix: "chain H l \<Longrightarrow> prefix p l \<Longrightarrow> chain H p"
  unfolding chain_def by (meson prefix_order.trans)

lemma prefix_take_Suc:
  assumes "k < length l"
  shows "prefix (take (Suc k) l) l" "take (Suc k) l \<noteq> []" "last (take (Suc k) l) = l ! k"
proof -
  show "prefix (take (Suc k) l) l" by (rule take_is_prefix)
  show "take (Suc k) l \<noteq> []" "last (take (Suc k) l) = l ! k"
    using assms by (auto simp: take_Suc_conv_app_nth)
qed

lemma prefix_lengths_eq: "prefix a c \<Longrightarrow> prefix b c \<Longrightarrow> length a = length b \<Longrightarrow> a = b"
  by (metis order_refl prefix_length_prefix prefix_order.antisym)

lemma chain_nth: "chain H l \<Longrightarrow> k < length l \<Longrightarrow> prefix (take (Suc k) l) (line H (entryTerm (l ! k)))"
  using chainD [OF _ prefix_take_Suc(1,2)] prefix_take_Suc(3) by metis

lemma chain_matching:
  assumes "chain H l" "chain H l'"
  shows "matching l l'"
  unfolding matching_def
proof (intro allI impI, elim conjE)
  fix k assume k: "k < length l" "k < length l'" "entryTerm (l ! k) = entryTerm (l' ! k)"
  have "prefix (take (Suc k) l) (line H (entryTerm (l ! k)))" "prefix (take (Suc k) l') (line H (entryTerm (l ! k)))"
    using chain_nth [OF assms(1) k(1)] chain_nth [OF assms(2) k(2)] k(3) by simp_all
  then show "take (Suc k) l = take (Suc k) l'"
    using k(1,2) by (rule_tac prefix_lengths_eq) simp_all
qed

lemma chain_entry:
  assumes "chain H l" "e \<in> set l"
  shows "line H (entryTerm e) \<noteq> []"
proof -
  obtain k where "k < length l" "e = l ! k" using assms(2) by (metis in_set_conv_nth)
  then have "prefix (take (Suc k) l) (line H (entryTerm e))" "take (Suc k) l \<noteq> []"
    using chain_nth [OF assms(1)] by auto
  then show ?thesis by (metis prefix_Nil)
qed

section \<open>What a call leaves the callee with\<close>

lemma matching_follower_log:
  assumes m: "matching g lg" and cut: "cut_from g args" and ok: "log_matches args lg"
  shows "prefix g (follower_log args lg)"
proof -
  let ?p = "Suc (nat (PrevLogIndex args))"
  have len: "?p \<le> length lg" "?p \<le> length g" "entryTerm (g ! nat (PrevLogIndex args)) = entryTerm (lg ! nat (PrevLogIndex args))"
    using cut ok by (auto simp: cut_from_def log_matches_def len_def)
  then have same: "take ?p lg = take ?p g" using matchingD [OF m, of "nat (PrevLogIndex args)"] by simp
  have es: "Entries args = drop ?p g" using cut by (simp add: cut_from_def)
  have "take (length (drop ?p g)) (merge_entries (drop ?p lg) (drop ?p g)) = drop ?p g"
    by (intro merge_entries_prefix) (auto simp: matching_nth [OF matching_sym [OF m]] less_diff_conv add.commute)
  then have "prefix (drop ?p g) (merge_entries (drop ?p lg) (drop ?p g))" by (metis take_is_prefix)
  then have "prefix (take ?p lg @ drop ?p g) (follower_log args lg)" by (simp add: follower_log_def Let_def es)
  then show ?thesis by (simp add: same)
qed

lemma follower_log_prefix:
  assumes "chain H lg" "chain H g" "cut_from g args" "log_matches args lg"
  shows "prefix g (follower_log args lg)"
    and "prefix g lg \<Longrightarrow> follower_log args lg = lg"
    and "\<not> prefix g lg \<Longrightarrow> follower_log args lg = g"
proof -
  have m: "matching lg g" using assms(1,2) by (rule chain_matching)
  let ?p = "Suc (nat (PrevLogIndex args))"
  have len: "?p \<le> length g" and es: "Entries args = drop ?p g"
    using assms(3,4) by (auto simp: cut_from_def log_matches_def len_def)
  show pre: "prefix g (follower_log args lg)"
    using matching_follower_log [OF matching_sym [OF m] assms(3,4)] .
  show "follower_log args lg = lg" if g: "prefix g lg"
  proof -
    obtain r where r: "lg = g @ r" using g by (auto simp: prefix_def)
    have "merge_entries (drop ?p lg) (drop ?p g) = drop ?p lg"
      using merge_entries_absorb [of "[]" "drop ?p g" r] len by (simp add: r)
    then show ?thesis by (simp add: follower_log_def Let_def es)
  qed
  show "follower_log args lg = g" if "\<not> prefix g lg"
    using follower_log_either [OF m assms(3,4)] pre that by auto
qed

section \<open>Chosen entries\<close>

definition chosen :: "nat \<Rightarrow> 'c History \<Rightarrow> 'c LogEntry list \<Rightarrow> int \<Rightarrow> bool" where
  "chosen n H g t \<longleftrightarrow> g \<noteq> [] \<and> last_term g = t \<and>
     (\<exists>Q. majority n Q \<and> (\<forall>v \<in> Q. \<exists>l. (v, t, l) \<in> held H \<and> prefix g l))"

text \<open>
  Before term \<open>T\<close>, peer \<open>v\<close> has not lost what it held of a leader, unless to a leader that did
  not have it; \<open>lv\<close> is the log of \<open>v\<close> then.
\<close>

definition keeps :: "'c History \<Rightarrow> int \<Rightarrow> int \<Rightarrow> 'c LogEntry list \<Rightarrow> bool" where
  "keeps H v T lv \<longleftrightarrow> (\<forall>t l g. (v, t, l) \<in> held H \<and> t < T \<and> g \<noteq> [] \<and> prefix g l \<and> last_term g = t \<longrightarrow>
     prefix g lv \<or> (\<exists>u \<in> led H. t < u \<and> u < T \<and> \<not> prefix g (line H u)))"

lemma keepsD:
  assumes "keeps H v T lv" "(v, t, l) \<in> held H" "t < T" "g \<noteq> []" "prefix g l" "last_term g = t"
  obtains (kept) "prefix g lv" | (lost) u where "u \<in> led H" "t < u" "u < T" "\<not> prefix g (line H u)"
proof -
  have "prefix g lv \<or> (\<exists>u \<in> led H. t < u \<and> u < T \<and> \<not> prefix g (line H u))"
    using assms(1) [unfolded keeps_def, rule_format, of t l g] assms(2-6) by blast
  then show thesis using kept lost by blast
qed

lemma keepsI:
  assumes "\<And>t l g. (v, t, l) \<in> held H \<Longrightarrow> t < T \<Longrightarrow> g \<noteq> [] \<Longrightarrow> prefix g l \<Longrightarrow> last_term g = t \<Longrightarrow>
     prefix g lv \<or> (\<exists>u \<in> led H. t < u \<and> u < T \<and> \<not> prefix g (line H u))"
  shows "keeps H v T lv"
  unfolding keeps_def by (intro allI impI) (elim conjE, rule assms)

text \<open>
  Peer \<open>v\<close> voted in term \<open>T\<close> for a log whose last entry has term \<open>bt\<close> and index \<open>bi\<close>; its own
  log was \<open>lv\<close> then, and this one may be voted for.
\<close>

definition backs :: "(int \<Rightarrow> int) \<Rightarrow> 'c History \<Rightarrow> int \<Rightarrow> int \<Rightarrow> int \<Rightarrow> int \<Rightarrow> bool" where
  "backs now H T bt bi v \<longleftrightarrow> T \<le> now v \<and> (\<exists>lv. lv \<noteq> [] \<and> chain H lv \<and>
     (last_term lv < bt \<or> last_term lv = bt \<and> len lv - 1 \<le> bi) \<and> keeps H v T lv)"

text \<open>The leader of \<open>T\<close> had \<open>l0\<close> when it was elected by \<open>Q\<close>.\<close>

definition mandate :: "nat \<Rightarrow> (int \<Rightarrow> int) \<Rightarrow> 'c History \<Rightarrow> int \<Rightarrow> bool" where
  "mandate n now H T \<longleftrightarrow> (\<exists>Q l0. majority n Q \<and> l0 \<noteq> [] \<and> prefix l0 (line H T) \<and>
     (\<forall>e \<in> set l0. entryTerm e < T) \<and> (\<forall>v \<in> Q. backs now H T (last_term l0) (len l0 - 1) v))"

text \<open>What holds of the history at any time; \<open>now v\<close> is the term of peer \<open>v\<close>.\<close>

definition terms_in :: "int \<Rightarrow> 'c LogEntry list \<Rightarrow> bool" where
  "terms_in T l \<longleftrightarrow> sorted (map entryTerm l) \<and> (\<forall>e \<in> set l. 0 \<le> entryTerm e \<and> entryTerm e \<le> T)"

definition history :: "nat \<Rightarrow> (int \<Rightarrow> int) \<Rightarrow> 'c History \<Rightarrow> bool" where
  "history n now H \<longleftrightarrow>
     (\<forall>T. T \<notin> led H \<and> T \<noteq> 0 \<longrightarrow> line H T = []) \<and> (\<forall>T \<in> led H. 0 < T) \<and>
     (\<forall>T. chain H (line H T) \<and> terms_in T (line H T)) \<and>
     (\<forall>v t l. (v, t, l) \<in> held H \<longrightarrow> l \<noteq> [] \<and> chain H l \<and> terms_in t l \<and> t \<le> now v) \<and>
     (\<forall>T \<in> led H. mandate n now H T)"

lemma historyD:
  assumes "history n now H"
  shows "T \<notin> led H \<Longrightarrow> T \<noteq> 0 \<Longrightarrow> line H T = []" "T \<in> led H \<Longrightarrow> 0 < T"
    "chain H (line H T)" "terms_in T (line H T)"
    "(v, t, l) \<in> held H \<Longrightarrow> l \<noteq> []" "(v, t, l) \<in> held H \<Longrightarrow> chain H l"
    "(v, t, l) \<in> held H \<Longrightarrow> terms_in t l" "(v, t, l) \<in> held H \<Longrightarrow> t \<le> now v"
    "T \<in> led H \<Longrightarrow> mandate n now H T"
  using assms unfolding history_def by blast+

lemma terms_in_prefix: "terms_in T l \<Longrightarrow> prefix p l \<Longrightarrow> terms_in T p"
  unfolding prefix_def by (auto simp: terms_in_def sorted_append)

lemma terms_in_last: "terms_in T l \<Longrightarrow> l \<noteq> [] \<Longrightarrow> 0 \<le> last_term l \<and> last_term l \<le> T"
  by (simp add: terms_in_def)

lemma terms_in_mono: "terms_in T l \<Longrightarrow> T \<le> T' \<Longrightarrow> terms_in T' l"
  by (auto simp: terms_in_def)

lemma terms_in_sorted_last: "terms_in T l \<Longrightarrow> prefix g l \<Longrightarrow> g \<noteq> [] \<Longrightarrow> last_term g \<le> last_term l"
  by (auto simp: prefix_def terms_in_def sorted_append last_append split: if_splits)

lemma chain_terms:
  assumes "history n now H" "chain H l" "l \<noteq> []"
  shows "terms_in (last_term l) l"
  using terms_in_prefix [OF historyD(4) [OF assms(1)] chain_self [OF assms(2,3)]] .

lemma chain_prefix_term:
  assumes "history n now H" "chain H l" "prefix g l" "g \<noteq> []"
  shows "last_term g \<le> last_term l"
proof -
  have "l \<noteq> []" using assms(3,4) by auto
  then show ?thesis using terms_in_sorted_last [OF chain_terms [OF assms(1,2)] assms(3,4)] by blast
qed

text \<open>Leader completeness: a leader of a later term has what was chosen.\<close>

lemma leader_complete:
  assumes H: "history n now H" and g: "chosen n H g t" and t: "0 \<le> t"
  shows "T \<in> led H \<Longrightarrow> t < T \<Longrightarrow> prefix g (line H T)"
proof (induction "nat T" arbitrary: T rule: less_induct)
  case less
  have IH: "prefix g (line H u)" if "u \<in> led H" "t < u" "u < T" for u
    using less.hyps [of u] that t by simp
  have gt: "g \<noteq> []" "last_term g = t" using g by (auto simp: chosen_def)
  obtain Q0 where Q0: "majority n Q0" "\<forall>v \<in> Q0. \<exists>l. (v, t, l) \<in> held H \<and> prefix g l"
    using g by (auto simp: chosen_def)
  obtain Q l0 where Q: "majority n Q" "l0 \<noteq> []" "prefix l0 (line H T)" "\<forall>e \<in> set l0. entryTerm e < T"
    and votes: "\<forall>v \<in> Q. backs now H T (last_term l0) (len l0 - 1) v"
    using historyD(9) [OF H less.prems(1)] by (auto simp: mandate_def)
  obtain v where v: "v \<in> Q0" "v \<in> Q" using majorities.quorum_common [OF Q0(1) Q(1)] by blast
  obtain l where l: "(v, t, l) \<in> held H" "prefix g l" using Q0(2) v(1) by blast
  obtain lv where lv: "lv \<noteq> []" "chain H lv" "keeps H v T lv"
    "last_term lv < last_term l0 \<or> last_term lv = last_term l0 \<and> len lv - 1 \<le> len l0 - 1"
    using votes v(2) by (auto simp: backs_def)
  have kept: "prefix g lv"
  proof (rule keepsD [OF lv(3) l(1) less.prems(2) gt(1) l(2) gt(2)])
    fix u assume "u \<in> led H" "t < u" "u < T" "\<not> prefix g (line H u)"
    then show ?thesis using IH by simp
  qed
  then have tv: "t \<le> last_term lv" using chain_prefix_term [OF H lv(2)] gt by blast
  have c0: "chain H l0" using Q(3) historyD(3) [OF H] chain_prefix by blast
  have l0: "prefix l0 (line H (last_term l0))" using c0 Q(2) by (rule chain_self)
  have "prefix g l0"
  proof (cases "last_term lv < last_term l0")
    case True
    let ?u = "last_term l0"
    have "line H ?u \<noteq> []" using l0 Q(2) by (metis prefix_Nil)
    then have "?u \<in> led H" using True tv t historyD(1) [OF H, of ?u] by auto
    moreover have "?u < T" using Q(2,4) by simp
    ultimately have pu: "prefix g (line H ?u)" using IH True tv by simp
    have "\<not> prefix l0 g"
      using True tv gt chain_prefix_term [OF H chain_prefix [OF historyD(6) [OF H l(1)] l(2)] _ Q(2)] by auto
    then show ?thesis using prefix_same_cases [OF pu l0] by simp
  next
    case False
    then have len: "last_term lv = last_term l0" "length lv \<le> length l0" using lv(4) by (simp_all add: len_def)
    then have "prefix lv (line H (last_term l0))" using chain_self [OF lv(2,1)] by simp
    then have "prefix lv l0" using l0 len(2) by (rule prefix_length_prefix)
    then show ?thesis using kept by (rule prefix_order.trans [rotated])
  qed
  then show ?case using Q(3) by (rule prefix_order.trans)
qed

lemma chosen_in_line:
  assumes H: "history n now H" and g: "chosen n H g t"
  shows "prefix g (line H t)" "0 \<le> t" "t \<noteq> 0 \<Longrightarrow> t \<in> led H" "T \<in> led H \<Longrightarrow> t \<le> T \<Longrightarrow> prefix g (line H T)"
proof -
  have gt: "g \<noteq> []" "last_term g = t" using g by (auto simp: chosen_def)
  obtain Q where Q: "majority n Q" "\<forall>v \<in> Q. \<exists>l. (v, t, l) \<in> held H \<and> prefix g l"
    using g by (auto simp: chosen_def)
  then obtain v l where l: "(v, t, l) \<in> held H" "prefix g l" using majorities.quorum_nonempty by blast
  show pre: "prefix g (line H t)" using chainD [OF historyD(6) [OF H l(1)] l(2)] gt by simp
  show t: "0 \<le> t" using terms_in_last [OF terms_in_prefix [OF historyD(7) [OF H l(1)] l(2)]] gt by simp
  show "t \<in> led H" if "t \<noteq> 0" using historyD(1) [OF H _ that] pre gt(1) by (metis prefix_Nil)
  show "prefix g (line H T)" if "T \<in> led H" "t \<le> T"
    using leader_complete [OF H g t that(1)] pre that by (cases "t = T") auto
qed

text \<open>So what is chosen is the beginning of one log.\<close>

lemma chosen_comparable:
  assumes H: "history n now H" and g: "chosen n H g t" "chosen n H g' t'"
  shows "prefix g g' \<or> prefix g' g"
proof -
  have *: "prefix g g' \<or> prefix g' g" if "chosen n H g t" "chosen n H g' t'" "t \<le> t'" for g g' t t'
  proof -
    note c = chosen_in_line [OF H that(1)] and c' = chosen_in_line [OF H that(2)]
    have "prefix g (line H t')" using c c'(3) that(3) by (cases "t' = 0") auto
    then show ?thesis using c'(1) by (rule prefix_same_cases)
  qed
  show ?thesis using *[OF g] * [OF g(2,1)] by (cases "t \<le> t'") auto
qed

text \<open>A log, or a part of one, that is chosen by term \<open>t\<close>.\<close>

definition settled :: "nat \<Rightarrow> 'c History \<Rightarrow> 'c LogEntry list \<Rightarrow> int \<Rightarrow> bool" where
  "settled n H g t \<longleftrightarrow> (\<exists>g' t'. chosen n H g' t' \<and> t' \<le> t \<and> prefix g g')"

lemma settled_later: "settled n H g t \<Longrightarrow> t \<le> t' \<Longrightarrow> settled n H g t'"
  unfolding settled_def by (meson order_trans)

lemma settled_prefix: "settled n H g t \<Longrightarrow> prefix p g \<Longrightarrow> settled n H p t"
  unfolding settled_def by (meson prefix_order.trans)

lemma settled_in_line: "history n now H \<Longrightarrow> settled n H g t \<Longrightarrow> T \<in> led H \<Longrightarrow> t \<le> T \<Longrightarrow> prefix g (line H T)"
  unfolding settled_def using chosen_in_line(4) by (meson order_trans prefix_order.trans)

lemma settled_comparable:
  assumes H: "history n now H" and "settled n H g t" "settled n H g' t'"
  shows "prefix g g' \<or> prefix g' g"
proof -
  obtain h u h' u' where h: "chosen n H h u" "prefix g h" and h': "chosen n H h' u'" "prefix g' h'"
    using assms(2,3) by (auto simp: settled_def)
  have "prefix g h' \<or> prefix g' h"
    using chosen_comparable [OF H h(1) h'(1)] h(2) h'(2) by (meson prefix_order.trans)
  then show ?thesis using h(2) h'(2) prefix_same_cases by blast
qed

section \<open>How the history grows\<close>

text \<open>
  A step adds logs that are held in the current term or later, appends entries of its own term
  to the log of a leader, and may put a leader where there was none.
\<close>

definition grows :: "(int \<Rightarrow> int) \<Rightarrow> 'c History \<Rightarrow> 'c History \<Rightarrow> bool" where
  "grows now H H' \<longleftrightarrow> led H \<subseteq> led H' \<and> held H \<subseteq> held H' \<and>
     (\<forall>v t l. (v, t, l) \<in> held H' \<and> (v, t, l) \<notin> held H \<longrightarrow> now v \<le> t) \<and>
     (\<forall>T \<in> led H. line H' T = line H T \<or> (\<exists>e. entryTerm e = T \<and> line H' T = line H T @ [e])) \<and>
     (\<forall>T. T \<notin> led H \<longrightarrow> line H T = [] \<or> line H' T = line H T)"

lemma growsD:
  assumes "grows now H H'"
  shows "T \<in> led H \<Longrightarrow> T \<in> led H'" "x \<in> held H \<Longrightarrow> x \<in> held H'"
    "(v, t, l) \<in> held H' \<Longrightarrow> (v, t, l) \<in> held H \<or> now v \<le> t"
    "T \<in> led H \<Longrightarrow> line H' T = line H T \<or> (\<exists>e. entryTerm e = T \<and> line H' T = line H T @ [e])"
    "T \<notin> led H \<Longrightarrow> line H T = [] \<or> line H' T = line H T"
  using assms unfolding grows_def by (meson subsetD)+

lemma grows_line: "grows now H H' \<Longrightarrow> prefix (line H T) (line H' T)"
  using growsD(4,5) [of now H H' T] by (cases "T \<in> led H") (auto simp: prefix_def)

lemma chain_grows: "grows now H H' \<Longrightarrow> chain H l \<Longrightarrow> chain H' l"
  unfolding chain_def by (meson grows_line prefix_order.trans)

lemma not_prefix_grows:
  assumes G: "grows now H H'" and u: "u \<in> led H" "\<not> prefix g (line H u)" and t: "last_term g \<noteq> u"
  shows "\<not> prefix g (line H' u)"
  using growsD(4) [OF G u(1)]
proof
  assume "\<exists>e. entryTerm e = u \<and> line H' u = line H u @ [e]"
  then obtain e where e: "entryTerm e = u" "line H' u = line H u @ [e]" by blast
  show ?thesis
  proof
    assume "prefix g (line H' u)"
    then have "g = line H u @ [e]" using u(2) e(2) by simp
    then show False using t e(1) by simp
  qed
qed (use u in simp)

lemma keeps_grows_new:
  assumes G: "grows now H H'" and k: "keeps H v T lv"
    and new: "\<And>t l. (v, t, l) \<in> held H' \<Longrightarrow> (v, t, l) \<in> held H \<or> T \<le> t"
  shows "keeps H' v T lv"
proof (rule keepsI)
  fix t l g
  assume l: "(v, t, l) \<in> held H'" "t < T" and g: "g \<noteq> []" "prefix g l" "last_term g = t"
  have "(v, t, l) \<in> held H" using new [OF l(1)] l(2) by auto
  from k this l(2) g show "prefix g lv \<or> (\<exists>u \<in> led H'. t < u \<and> u < T \<and> \<not> prefix g (line H' u))"
  proof (cases rule: keepsD)
    case (lost u)
    then have "\<not> prefix g (line H' u)" using g(3) by (intro not_prefix_grows [OF G]) simp_all
    then show ?thesis using lost growsD(1) [OF G] by blast
  qed simp
qed

lemma keeps_grows: "grows now H H' \<Longrightarrow> keeps H v T lv \<Longrightarrow> T \<le> now v \<Longrightarrow> keeps H' v T lv"
  by (rule keeps_grows_new, assumption+) (force dest: growsD(3))

lemma backs_grows:
  assumes G: "grows now H H'" and b: "backs now H T bt bi v" and now: "now v \<le> now' v"
  shows "backs now' H' T bt bi v"
proof -
  obtain lv where lv: "T \<le> now v" "lv \<noteq> []" "chain H lv"
    "last_term lv < bt \<or> last_term lv = bt \<and> len lv - 1 \<le> bi" "keeps H v T lv"
    using b by (auto simp: backs_def)
  then have "chain H' lv" "keeps H' v T lv" using chain_grows [OF G] keeps_grows [OF G] by auto
  then show ?thesis using lv(1,2,4) now unfolding backs_def by auto
qed

lemma mandate_grows:
  assumes G: "grows now H H'" and m: "mandate n now H T" and now: "\<And>v. now v \<le> now' v"
  shows "mandate n now' H' T"
proof -
  obtain Q l0 where m: "majority n Q" "l0 \<noteq> []" "prefix l0 (line H T)" "\<forall>e \<in> set l0. entryTerm e < T"
    "\<forall>v \<in> Q. backs now H T (last_term l0) (len l0 - 1) v"
    using m by (auto simp: mandate_def)
  have "prefix l0 (line H' T)" using m(3) grows_line [OF G] by (rule prefix_order.trans)
  moreover have "\<forall>v \<in> Q. backs now' H' T (last_term l0) (len l0 - 1) v"
    using m(5) by (auto intro: backs_grows [OF G] now)
  ultimately show ?thesis using m(1,2,4) unfolding mandate_def by blast
qed

lemma chosen_grows: "grows now H H' \<Longrightarrow> chosen n H g t \<Longrightarrow> chosen n H' g t"
  unfolding chosen_def by (meson growsD(2))

lemma settled_grows: "grows now H H' \<Longrightarrow> settled n H g t \<Longrightarrow> settled n H' g t"
  unfolding settled_def by (meson chosen_grows)

text \<open>A peer has a log in a term.\<close>

definition noted :: "int \<Rightarrow> int \<Rightarrow> 'c LogEntry list \<Rightarrow> 'c History \<Rightarrow> 'c History" where
  "noted i t l H = H\<lparr>held := insert (i, t, l) (held H)\<rparr>"

lemma noted_sel [simp]: "led (noted i t l H) = led H" "line (noted i t l H) = line H"
    "held (noted i t l H) = insert (i, t, l) (held H)" "chain (noted i t l H) = chain H"
  by (auto simp: noted_def chain_def fun_eq_iff)

lemma grows_noted: "now i \<le> t \<Longrightarrow> grows now H (noted i t l H)"
  by (auto simp: grows_def)

lemma history_noted:
  assumes H: "history n now H" and t: "now i \<le> t" and l: "l \<noteq> []" "chain H l" "terms_in t l"
  shows "history n (now(i := t)) (noted i t l H)"
proof -
  have "mandate n (now(i := t)) (noted i t l H) T" if "T \<in> led H" for T
    using historyD(9) [OF H that] t by (intro mandate_grows [OF grows_noted]) auto
  moreover have "u \<le> (now(i := t)) v" if "(v, u, k) \<in> held H" for v u k
    using historyD(8) [OF H that] t by auto
  ultimately show ?thesis
    using historyD(1-7) [OF H] l unfolding history_def noted_sel by auto
qed

text \<open>The leader of a term appends an entry.\<close>

definition appended :: "int \<Rightarrow> 'c LogEntry \<Rightarrow> 'c History \<Rightarrow> 'c History" where
  "appended T e H = H\<lparr>line := (line H)(T := line H T @ [e])\<rparr>"

lemma appended_sel [simp]: "led (appended T e H) = led H" "held (appended T e H) = held H"
    "line (appended T e H) = (line H)(T := line H T @ [e])"
  by (simp_all add: appended_def)

lemma grows_appended: "entryTerm e = T \<Longrightarrow> T \<in> led H \<Longrightarrow> grows now H (appended T e H)"
  by (auto simp: grows_def)

lemma history_appended:
  assumes H: "history n now H" and e: "entryTerm e = T" "T \<in> led H"
  shows "history n now (appended T e H)"
proof -
  let ?H = "appended T e H"
  have G: "grows now H ?H" for now using e by (rule grows_appended)
  have old: "chain ?H l" if "chain H l" for l using chain_grows [OF G that] .
  have "chain ?H (line H T @ [e])"
    unfolding chain_def
  proof (intro allI impI, elim conjE)
    fix p assume p: "prefix p (line H T @ [e])" "p \<noteq> []"
    show "prefix p (line ?H (last_term p))"
    proof (cases "p = line H T @ [e]")
      case False
      then have "prefix p (line H T)" using p(1) by simp
      then show ?thesis using chainD [OF old [OF historyD(3) [OF H]] _ p(2)] by blast
    qed (use e in simp)
  qed
  then have "chain ?H (line ?H U)" for U using old [OF historyD(3) [OF H]] by simp
  moreover have "terms_in T (line H T @ [e])"
    using historyD(4) [OF H, of T] historyD(2) [OF H e(2)] e(1) by (auto simp: terms_in_def sorted_append)
  then have "terms_in U (line ?H U)" for U using historyD(4) [OF H] by simp
  moreover have "mandate n now ?H U" if "U \<in> led H" for U
    using historyD(9) [OF H that] by (intro mandate_grows [OF G]) auto
  ultimately show ?thesis
    using historyD(1,2,5,6,7,8) [OF H] old e(2) unfolding history_def appended_sel by auto
qed

text \<open>An election is won.\<close>

definition enthroned :: "int \<Rightarrow> 'c LogEntry list \<Rightarrow> 'c History \<Rightarrow> 'c History" where
  "enthroned T l H = H\<lparr>led := insert T (led H), line := (line H)(T := l)\<rparr>"

lemma enthroned_sel [simp]: "led (enthroned T l H) = insert T (led H)" "held (enthroned T l H) = held H"
    "line (enthroned T l H) = (line H)(T := l)"
  by (simp_all add: enthroned_def)

lemma grows_enthroned: "line H T = [] \<Longrightarrow> T \<notin> led H \<Longrightarrow> grows now H (enthroned T l H)"
  by (auto simp: grows_def)

lemma history_enthroned:
  assumes H: "history n now H" and T: "T \<notin> led H" "0 < T"
    and l: "l \<noteq> []" "chain H l" "\<forall>e \<in> set l. entryTerm e < T" "terms_in T l"
    and Q: "majority n Q" "\<forall>v \<in> Q. backs now H T (last_term l) (len l - 1) v"
  shows "history n now (enthroned T l H)"
proof -
  let ?H = "enthroned T l H"
  have G: "grows now H ?H" using historyD(1) [OF H T(1)] T by (intro grows_enthroned) simp_all
  have old: "chain ?H k" if "chain H k" for k using chain_grows [OF G that] .
  have "chain ?H (line ?H U)" for U using old [OF l(2)] old [OF historyD(3) [OF H]] by simp
  moreover have "mandate n now ?H U" if "U \<in> led H" for U
    using historyD(9) [OF H that] by (intro mandate_grows [OF G]) auto
  moreover have "\<forall>v \<in> Q. backs now ?H T (last_term l) (len l - 1) v"
    using Q(2) backs_grows [OF G] by blast
  then have "mandate n now ?H T" using Q(1) l unfolding mandate_def by (intro exI [of _ Q] exI [of _ l]) simp
  ultimately show ?thesis
    using historyD(1,2,4,5,6,7,8) [OF H] l(4) T old unfolding history_def enthroned_sel by auto
qed

end
