(* ===== verification/RaftAgreement.thy ===== *)
theory RaftAgreement
  imports RaftHistory
begin

text \<open>
  Agreement of the cluster: when no reply is taken for more than it acknowledges and no entry of
  an older term is committed by counting, two peers never deliver different commands at one
  index, in any orderly run. This theory has the conditions on schedules and the invariant that
  relates the cluster with its history; steps that leave the log alone keep it.
\<close>

section \<open>Schedules without the errors of the commit rule\<close>

text \<open>
  The code takes a positive reply for an acknowledgement of the leader's whole log, although it
  may answer a call of an older term, or the log may have grown since the call; and it commits
  by counting without looking at the term of the entry. A schedule is careful when, besides
  being orderly, every positive reply acknowledges exactly the log it is taken for, and the
  last entry of what a reply commits is of the leader's own term.
\<close>

definition acks_exactly :: "'c AppendEntriesArgs \<Rightarrow> 'c Raft \<Rightarrow> bool" where
  "acks_exactly args rf \<longleftrightarrow> currentTerm rf = aeTerm args \<and>
     len (log rf) = PrevLogIndex args + 1 + len (Entries args)"

definition commits_own :: "int \<Rightarrow> bool \<Rightarrow> AppendEntriesReply \<Rightarrow> 'c Raft \<Rightarrow> bool" where
  "commits_own q success reply rf \<longleftrightarrow>
     (case sendHeartBeat_reply q success reply rf of
        Inl _ \<Rightarrow> True
      | Inr rf' \<Rightarrow> commitIndex rf' = commitIndex rf \<or>
          entryTerm (log rf' ! nat (commitIndex rf')) = currentTerm rf')"

fun acks_right :: "'c action \<Rightarrow> 'c Cluster \<Rightarrow> bool" where
  "acks_right (HeartBeatReturn k) c =
     (let h = heartbeats c ! k; rf = rf_at c (hbFrom h) in
      case hbState h of
        HB_Returned args success reply \<Rightarrow>
          success \<and> Success reply \<and> state rf = LEADER \<longrightarrow> acks_exactly args rf
      | _ \<Rightarrow> True)"
| "acks_right _ c = True"

fun commits_right :: "'c action \<Rightarrow> 'c Cluster \<Rightarrow> bool" where
  "commits_right (HeartBeatReturn k) c =
     (let h = heartbeats c ! k in
      case hbState h of
        HB_Returned args success reply \<Rightarrow> commits_own (hbTo h) success reply (rf_at c (hbFrom h))
      | _ \<Rightarrow> True)"
| "commits_right _ c = True"

definition careful :: "'c action \<Rightarrow> 'c Cluster \<Rightarrow> bool" where
  "careful a c \<longleftrightarrow> orderly a c \<and> acks_right a c \<and> commits_right a c"

section \<open>The invariant\<close>

text \<open>What the leader believes a peer to hold, this peer has held in the leader's term.\<close>

definition acked :: "'c History \<Rightarrow> 'c Raft \<Rightarrow> bool" where
  "acked H rf \<longleftrightarrow> (\<forall>j. 0 \<le> j \<and> j < int (peers rf) \<and> 0 < matchIndex rf ! nat j \<longrightarrow>
     matchIndex rf ! nat j < len (log rf) \<and>
     (\<exists>l. (j, currentTerm rf, l) \<in> held H \<and> prefix (take (Suc (nat (matchIndex rf ! nat j))) (log rf)) l))"

definition committed :: "nat \<Rightarrow> 'c History \<Rightarrow> 'c Raft \<Rightarrow> bool" where
  "committed n H rf \<longleftrightarrow> commitIndex rf < len (log rf) \<and>
     settled n H (take (Suc (nat (commitIndex rf))) (log rf)) (currentTerm rf) \<and>
     applyMsgCh rf = map (entry_msg (log rf)) [1..<Suc (nat (lastApplied rf))]"

definition peer_hist :: "nat \<Rightarrow> 'c History \<Rightarrow> int \<Rightarrow> 'c Proc \<Rightarrow> bool" where
  "peer_hist n H i p \<longleftrightarrow>
     raft_ok (raft p) \<and> (i, currentTerm (raft p), log (raft p)) \<in> held H \<and>
     (state (raft p) = LEADER \<longrightarrow> currentTerm (raft p) \<in> led H \<and> line H (currentTerm (raft p)) = log (raft p)) \<and>
     (state (raft p) = CANDIDATE \<longrightarrow> 0 < currentTerm (raft p)) \<and>
     keeps H i (currentTerm (raft p) + 1) (log (raft p)) \<and>
     (state (raft p) = LEADER \<and> promoting p = 0 \<longrightarrow> acked H (raft p)) \<and> committed n H (raft p)"

definition call_hist :: "nat \<Rightarrow> 'c History \<Rightarrow> 'c HeartBeat \<Rightarrow> bool" where
  "call_hist n H h \<longleftrightarrow>
     (\<forall>args. hbState h = HB_Calling args \<longrightarrow> (\<exists>g. cut_from g args \<and> prefix g (line H (aeTerm args)) \<and>
        aeTerm args \<in> led H \<and> LeaderCommit args < len g \<and>
        settled n H (take (Suc (nat (LeaderCommit args))) g) (aeTerm args))) \<and>
     (\<forall>args reply. hbState h = HB_Returned args True reply \<and> Success reply \<longrightarrow>
        (\<exists>g l. cut_from g args \<and> prefix g (line H (aeTerm args)) \<and> aeTerm args \<in> led H \<and>
           (hbTo h, aeTerm args, l) \<in> held H \<and> prefix g l))"

definition election_hist :: "'c Cluster \<Rightarrow> 'c History \<Rightarrow> Election \<Rightarrow> bool" where
  "election_hist c H e \<longleftrightarrow> eterm e \<le> term_at c (cand e) \<and>
     (eterm e \<notin> led H \<longrightarrow>
        (\<forall>v \<in> voters e. backs (term_at c) H (eterm e) (LastLogTerm (eargs e)) (LastLogIndex (eargs e)) v)) \<and>
     (state (rf_at c (cand e)) = CANDIDATE \<and> term_at c (cand e) = eterm e \<longrightarrow>
        LastLogTerm (eargs e) = last_term (log (rf_at c (cand e))) \<and>
        LastLogIndex (eargs e) = len (log (rf_at c (cand e))) - 1)"

definition agrees :: "'c History \<Rightarrow> 'c Cluster \<Rightarrow> bool" where
  "agrees H c \<longleftrightarrow> led H = {T. \<exists>i. elected c i T} \<and> history (servers c) (term_at c) H \<and>
     (\<forall>i \<in> nodes c. peer_hist (servers c) H i (procs c i)) \<and>
     (\<forall>h \<in> set (heartbeats c). call_hist (servers c) H h) \<and>
     (\<forall>e \<in> set (elections c). election_hist c H e)"

lemma peer_histD:
  assumes "peer_hist n H i p"
  shows "raft_ok (raft p)" "(i, currentTerm (raft p), log (raft p)) \<in> held H"
    "state (raft p) = LEADER \<Longrightarrow> currentTerm (raft p) \<in> led H"
    "state (raft p) = LEADER \<Longrightarrow> line H (currentTerm (raft p)) = log (raft p)"
    "state (raft p) = CANDIDATE \<Longrightarrow> 0 < currentTerm (raft p)"
    "keeps H i (currentTerm (raft p) + 1) (log (raft p))"
    "state (raft p) = LEADER \<Longrightarrow> promoting p = 0 \<Longrightarrow> acked H (raft p)" "committed n H (raft p)"
  using assms unfolding peer_hist_def by blast+

lemma agreesD:
  assumes "agrees H c"
  shows "led H = {T. \<exists>i. elected c i T}" "history (servers c) (term_at c) H"
    "i \<in> nodes c \<Longrightarrow> peer_hist (servers c) H i (procs c i)"
    "h \<in> set (heartbeats c) \<Longrightarrow> call_hist (servers c) H h"
    "e \<in> set (elections c) \<Longrightarrow> election_hist c H e"
  using assms unfolding agrees_def by blast+

lemma own_log:
  assumes "agrees H c" "i \<in> nodes c"
  shows "log (rf_at c i) \<noteq> []" "chain H (log (rf_at c i))" "terms_in (term_at c i) (log (rf_at c i))"
  using historyD(5-7) [OF agreesD(2) [OF assms(1)] peer_histD(2) [OF agreesD(3) [OF assms]]] .

section \<open>The others when the history grows\<close>

lemma acked_grows: "grows now H H' \<Longrightarrow> acked H rf \<Longrightarrow> acked H' rf"
  unfolding acked_def by (meson growsD(2))

lemma committed_grows: "grows now H H' \<Longrightarrow> committed n H rf \<Longrightarrow> committed n H' rf"
  unfolding committed_def using settled_grows by blast

lemma peer_hist_grows:
  assumes G: "grows now H H'" and p: "peer_hist n H j p"
    and new: "\<And>t l. (j, t, l) \<in> held H' \<Longrightarrow> (j, t, l) \<in> held H"
    and line: "state (raft p) = LEADER \<Longrightarrow> line H' (currentTerm (raft p)) = line H (currentTerm (raft p))"
  shows "peer_hist n H' j p"
proof -
  have "keeps H' j (currentTerm (raft p) + 1) (log (raft p))"
    using new by (intro keeps_grows_new [OF G peer_histD(6) [OF p]]) blast
  then show ?thesis
    using peer_histD [OF p] line growsD(1,2) [OF G] acked_grows [OF G] committed_grows [OF G]
    unfolding peer_hist_def by auto
qed

lemma call_hist_grows: "grows now H H' \<Longrightarrow> call_hist n H h \<Longrightarrow> call_hist n H' h"
  unfolding call_hist_def by (meson growsD(1,2) grows_line prefix_order.trans settled_grows)

lemma election_hist_change:
  assumes G: "grows (term_at c) H H'" and e: "election_hist c H e"
    and procs: "procs c' = (procs c)(i := p)" and t: "term_at c i \<le> currentTerm (raft p)"
    and cand: "state (raft p) = CANDIDATE \<Longrightarrow> currentTerm (raft p) = term_at c i \<Longrightarrow>
      state (rf_at c i) = CANDIDATE \<and> log (raft p) = log (rf_at c i)"
  shows "election_hist c' H' e"
proof -
  have at: "rf_at c' j = (if j = i then raft p else rf_at c j)" for j using procs by simp
  have now: "term_at c j \<le> term_at c' j" for j using t by (simp add: at)
  have "backs (term_at c') H' (eterm e) (LastLogTerm (eargs e)) (LastLogIndex (eargs e)) v"
    if "eterm e \<notin> led H'" "v \<in> voters e" for v
  proof -
    have "eterm e \<notin> led H" using that(1) growsD(1) [OF G] by blast
    then have "backs (term_at c) H (eterm e) (LastLogTerm (eargs e)) (LastLogIndex (eargs e)) v"
      using e that(2) by (simp add: election_hist_def)
    then show ?thesis by (rule backs_grows [OF G _ now])
  qed
  moreover have "state (rf_at c (cand e)) = CANDIDATE \<and> term_at c (cand e) = eterm e \<and>
      log (rf_at c' (cand e)) = log (rf_at c (cand e))"
    if "state (rf_at c' (cand e)) = CANDIDATE" "term_at c' (cand e) = eterm e"
    using that e t cand by (cases "cand e = i") (auto simp: election_hist_def at)
  ultimately show ?thesis
    using e order_trans [OF _ now] unfolding election_hist_def by auto
qed

text \<open>A step of peer \<open>i\<close> with the history after it.\<close>

lemma agrees_change:
  assumes A: "agrees H c" and i: "i \<in> nodes c"
    and procs: "servers c' = servers c" "procs c' = (procs c)(i := p)"
    and G: "grows (term_at c) H H'" and t: "term_at c i \<le> currentTerm (raft p)"
    and hist: "history (servers c) ((term_at c)(i := currentTerm (raft p))) H'"
    and led: "\<And>T. T \<in> led H' \<longleftrightarrow> (\<exists>j. elected c' j T)"
    and own: "peer_hist (servers c) H' i p"
    and new: "\<And>j t l. j \<noteq> i \<Longrightarrow> (j, t, l) \<in> held H' \<Longrightarrow> (j, t, l) \<in> held H"
    and line: "\<And>j. j \<in> nodes c \<Longrightarrow> j \<noteq> i \<Longrightarrow> state (rf_at c j) = LEADER \<Longrightarrow>
      line H' (term_at c j) = line H (term_at c j)"
    and hb: "\<And>h. h \<in> set (heartbeats c') \<Longrightarrow> h \<in> set (heartbeats c) \<or> call_hist (servers c) H' h"
    and el: "\<And>e. e \<in> set (elections c') \<Longrightarrow> e \<in> set (elections c) \<or> election_hist c' H' e"
    and cand: "state (raft p) = CANDIDATE \<Longrightarrow> currentTerm (raft p) = term_at c i \<Longrightarrow>
      state (rf_at c i) = CANDIDATE \<and> log (raft p) = log (rf_at c i)"
  shows "agrees H' c'"
proof -
  have n: "nodes c' = nodes c" using procs(1) by (simp add: nodes_def)
  have now: "term_at c' = (term_at c)(i := currentTerm (raft p))" using procs(2) by auto
  have "peer_hist (servers c) H' j (procs c' j)" if j: "j \<in> nodes c" for j
  proof (cases "j = i")
    case False
    then have "peer_hist (servers c) H' j (procs c j)"
      using new line [OF j] by (intro peer_hist_grows [OF G agreesD(3) [OF A j]]) blast+
    then show ?thesis using False procs(2) by simp
  qed (use own procs(2) in simp)
  moreover have "election_hist c' H' e" if "e \<in> set (elections c')" for e
    using el [OF that]
  proof
    assume "e \<in> set (elections c)"
    then show ?thesis using agreesD(5) [OF A] by (blast intro: election_hist_change [OF G _ procs(2) t cand])
  qed
  moreover have "call_hist (servers c) H' h" if "h \<in> set (heartbeats c')" for h
    using hb [OF that] agreesD(4) [OF A] call_hist_grows [OF G] by blast
  ultimately show ?thesis
    unfolding agrees_def n now procs(1) using hist led by auto
qed

section \<open>Steps that leave the log alone\<close>

definition still :: "'c Proc \<Rightarrow> 'c Proc \<Rightarrow> bool" where
  "still p p' \<longleftrightarrow> raft_ok (raft p') \<and>
     log (raft p') = log (raft p) \<and> commitIndex (raft p') = commitIndex (raft p) \<and>
     lastApplied (raft p') = lastApplied (raft p) \<and> applyMsgCh (raft p') = applyMsgCh (raft p) \<and>
     peers (raft p') = peers (raft p) \<and> currentTerm (raft p) \<le> currentTerm (raft p') \<and>
     (state (raft p') = LEADER \<longrightarrow> state (raft p) = LEADER \<and> currentTerm (raft p') = currentTerm (raft p)) \<and>
     (state (raft p') = CANDIDATE \<longrightarrow> currentTerm (raft p) < currentTerm (raft p') \<or>
        currentTerm (raft p') = currentTerm (raft p) \<and> state (raft p) = CANDIDATE) \<and>
     (state (raft p') = LEADER \<and> promoting p' = 0 \<longrightarrow>
        promoting p = 0 \<and> matchIndex (raft p') = matchIndex (raft p) \<or> (\<forall>m \<in> set (matchIndex (raft p')). m \<le> 0))"

lemma stillD:
  assumes "still p p'"
  shows "raft_ok (raft p')" "log (raft p') = log (raft p)" "commitIndex (raft p') = commitIndex (raft p)"
    "lastApplied (raft p') = lastApplied (raft p)" "applyMsgCh (raft p') = applyMsgCh (raft p)"
    "peers (raft p') = peers (raft p)" "currentTerm (raft p) \<le> currentTerm (raft p')"
    "state (raft p') = LEADER \<Longrightarrow> state (raft p) = LEADER"
    "state (raft p') = LEADER \<Longrightarrow> currentTerm (raft p') = currentTerm (raft p)"
    "state (raft p') = CANDIDATE \<Longrightarrow> currentTerm (raft p) < currentTerm (raft p') \<or>
        currentTerm (raft p') = currentTerm (raft p) \<and> state (raft p) = CANDIDATE"
    "state (raft p') = LEADER \<Longrightarrow> promoting p' = 0 \<Longrightarrow>
        promoting p = 0 \<and> matchIndex (raft p') = matchIndex (raft p) \<or> (\<forall>m \<in> set (matchIndex (raft p')). m \<le> 0)"
  using assms unfolding still_def by blast+

lemma still_refl: "raft_ok (raft p) \<Longrightarrow> still p p"
  by (cases "state (raft p)") (simp_all add: still_def)

text \<open>The log is held again in the new term, and nothing is lost by it.\<close>

lemma keeps_noted:
  assumes k: "keeps H i (t + 1) l" and H: "history n now H" "now i = t" and t: "t \<le> t'"
  shows "keeps (noted i t' l H) i (t' + 1) l"
proof (rule keepsI)
  fix u lu g
  assume lu: "(i, u, lu) \<in> held (noted i t' l H)" "u < t' + 1" and g: "g \<noteq> []" "prefix g lu" "last_term g = u"
  show "prefix g l \<or> (\<exists>w \<in> led (noted i t' l H). u < w \<and> w < t' + 1 \<and> \<not> prefix g (line (noted i t' l H) w))"
  proof (cases "(i, u, lu) \<in> held H")
    case True
    then have "u < t + 1" using historyD(8) [OF H(1) True] H(2) by simp
    from k True this g show ?thesis by (cases rule: keepsD) (use t in auto)
  qed (use lu g in auto)
qed

lemma peer_hist_still:
  assumes H: "history n now H" "now i = currentTerm (raft p)" and p: "peer_hist n H i p" and q: "still p p'"
  shows "peer_hist n (noted i (currentTerm (raft p')) (log (raft p')) H) i p'"
proof -
  let ?H = "noted i (currentTerm (raft p')) (log (raft p')) H"
  note q = stillD [OF q] and old = peer_histD [OF p]
  have G: "grows now H ?H" using q(7) H(2) by (intro grows_noted) simp
  have "settled n ?H (take (Suc (nat (commitIndex (raft p)))) (log (raft p))) (currentTerm (raft p'))"
    using old(8) settled_later [OF settled_grows [OF G] q(7)] unfolding committed_def by blast
  then have "committed n ?H (raft p')" using old(8) q(2-5) by (simp add: committed_def)
  moreover have "acked ?H (raft p')" if l: "state (raft p') = LEADER" "promoting p' = 0"
    using q(11) [OF l]
  proof
    assume "promoting p = 0 \<and> matchIndex (raft p') = matchIndex (raft p)"
    then have "acked H (raft p')"
      using old(7) q(2,6,8,9) l by (simp add: acked_def)
    then show ?thesis by (rule acked_grows [OF G])
  next
    assume z: "\<forall>m \<in> set (matchIndex (raft p')). m \<le> 0"
    have "matchIndex (raft p') ! nat j \<le> 0" if "0 \<le> j" "j < int (peers (raft p'))" for j
      using z raft_okD(4) [OF q(1)] that by simp
    then show ?thesis unfolding acked_def by (meson not_less)
  qed
  moreover have "keeps ?H i (currentTerm (raft p') + 1) (log (raft p'))"
    using keeps_noted [OF old(6) H q(7)] q(2) by simp
  moreover have "0 < currentTerm (raft p')" if "state (raft p') = CANDIDATE"
    using q(10) [OF that] old(5) raft_okD(6) [OF old(1)] by auto
  ultimately show ?thesis
    using q old unfolding peer_hist_def by auto
qed

lemma agrees_still:
  assumes A: "agrees H c" and i: "i \<in> nodes c"
    and procs: "servers c' = servers c" "procs c' = (procs c)(i := p)"
    and q: "still (procs c i) p" and same: "\<And>j t. elected c' j t \<longleftrightarrow> elected c j t"
  defines "H' \<equiv> noted i (currentTerm (raft p)) (log (raft p)) H"
  assumes hb: "\<And>h. h \<in> set (heartbeats c') \<Longrightarrow> h \<in> set (heartbeats c) \<or> call_hist (servers c) H' h"
    and el: "\<And>e. e \<in> set (elections c') \<Longrightarrow> e \<in> set (elections c) \<or> election_hist c' H' e"
  shows "agrees H' c'"
proof (rule agrees_change [OF A i procs])
  note q' = stillD [OF q]
  show "grows (term_at c) H H'" using q'(7) unfolding H'_def by (rule grows_noted)
  show "term_at c i \<le> currentTerm (raft p)" by (rule q'(7))
  have "terms_in (currentTerm (raft p)) (log (raft p))"
    using own_log(3) [OF A i] terms_in_mono [OF _ q'(7)] q'(2) by simp
  then show "history (servers c) ((term_at c)(i := currentTerm (raft p))) H'"
    using own_log(1,2) [OF A i] q'(2) unfolding H'_def
    by (intro history_noted [OF agreesD(2) [OF A] q'(7)]) simp_all
  show "T \<in> led H' \<longleftrightarrow> (\<exists>j. elected c' j T)" for T using agreesD(1) [OF A] same by (simp add: H'_def)
  show "peer_hist (servers c) H' i p"
    unfolding H'_def by (rule peer_hist_still [OF agreesD(2) [OF A] refl agreesD(3) [OF A i] q])
  show "j \<noteq> i \<Longrightarrow> (j, t, l) \<in> held H' \<Longrightarrow> (j, t, l) \<in> held H" for j t l by (simp add: H'_def)
  show "line H' (term_at c j) = line H (term_at c j)" for j by (simp add: H'_def)
  show "state (raft p) = CANDIDATE \<Longrightarrow> currentTerm (raft p) = term_at c i \<Longrightarrow>
      state (rf_at c i) = CANDIDATE \<and> log (raft p) = log (rf_at c i)"
    using q'(2,10) by auto
qed (use hb el in blast)+

text \<open>The election a peer is in after the step is not concerned by votes it has not got.\<close>

lemma election_hist_votes:
  assumes "election_hist c H e" "eargs e' = eargs e" "cand e' = cand e"
    and "\<And>v. v \<in> voters e' \<Longrightarrow> eterm e \<notin> led H \<Longrightarrow> v \<in> voters e \<or>
      backs (term_at c) H (eterm e) (LastLogTerm (eargs e)) (LastLogIndex (eargs e)) v"
  shows "election_hist c H e'"
  using assms unfolding election_hist_def by auto

section \<open>Which sections of code leave the log alone\<close>

lemma still_maintain:
  assumes "raft_ok (raft p)" "maintain_step p = Some (Inr (out, p'))"
  shows "still p p'"
proof -
  have "raft_ok (raft p')" using maintain_step_ok [OF assms] by simp
  then show ?thesis
    using assms
    by (auto simp: still_def maintain_step_def Let_def map_res_Inr checkElectionTimeout_def TurnCandidate_def
        handleLeader_tick_def split: maintain_pc.splits option.splits if_splits)
qed

lemma still_local:
  assumes ok: "raft_ok (raft p)" and st: "proc_step e p = Some (Inr (out, p'))" "local_event e"
    and e: "\<And>cmd. e \<noteq> E_Start cmd" and lead: "promoting p > 0 \<Longrightarrow> state (raft p) = LEADER"
  shows "still p p'"
proof -
  have ok': "raft_ok (raft p')" using proc_step_ok [OF ok _ st(1)] st(2) by (cases e) auto
  show ?thesis
  proof (cases e)
    case E_Promote
    then show ?thesis
      using st lead ok' by (auto simp: still_def TurnLeader_locked_ok [OF ok] split: if_splits)
  next
    case E_Maintain
    then show ?thesis using st(1) still_maintain [OF ok] by simp
  qed (use st e ok' in \<open>auto simp: still_def Kill_def TurnLeader_unlocked_def split: if_splits\<close>)
qed

lemma still_vote:
  assumes ok: "raft_ok (raft p)" and r: "RequestVote args (raft p) = Inr (reply, rf)"
  shows "still p (p\<lparr>raft := rf\<rparr>)"
proof -
  have "raft_ok rf" using RequestVote_returns [OF ok, of args] r by auto
  then show ?thesis
    using RequestVote_frame [OF raft_okD(5) [OF ok] r] RequestVote_core(3-5) [OF r]
    by (cases "currentTerm rf = currentTerm (raft p)") (auto simp: still_def)
qed

lemma still_TurnFollower:
  assumes "raft_ok (raft p)" "currentTerm (raft p) < t"
  shows "still p (p\<lparr>raft := TurnFollower t v (raft p), promoting := m\<rparr>)"
    "still p (p\<lparr>raft := TurnFollower t v (raft p)\<rparr>)"
  using raft_ok_TurnFollower [OF assms(1), of t v] raft_okD(6) [OF assms(1)] assms(2)
  by (auto simp: still_def) (auto simp: TurnFollower_def)

lemma still_step_down:
  assumes "raft_ok (raft p)" "currentTerm (raft p) \<le> aeTerm args"
  shows "still p (p\<lparr>raft := step_down args (raft p)\<rparr>)"
proof -
  have "raft_ok (step_down args (raft p))"
    using assms raft_okD(6) [OF assms(1)] by (intro raft_ok_step_down) simp_all
  then show ?thesis using assms(2) by (simp add: still_def step_down_term)
qed

end
