(* ===== verification/RaftBallots.thy ===== *)
theory RaftBallots
  imports RaftAgreement
begin

text \<open>
  The invariant of \<open>RaftAgreement\<close> through elections: the timeouts and other local sections
  of a peer, the votes that are cast and counted, and the vote that makes a leader.
\<close>

section \<open>The steps of the cluster\<close>

lemma raft_ok_at: "agrees H c \<Longrightarrow> i \<in> nodes c \<Longrightarrow> raft_ok (rf_at c i)"
  using peer_histD(1) [OF agreesD(3)] .

lemma set_heartbeat_mem: "h \<in> set (heartbeats (set_heartbeat k g c)) \<Longrightarrow>
    h \<in> set (heartbeats c) \<or> h = (heartbeats c ! k)\<lparr>hbState := g\<rparr>"
  using set_update_subset_insert [of "heartbeats c" k] unfolding set_heartbeat_def by fastforce

lemma elections_set_heartbeat [simp]: "elections (set_heartbeat k g c) = elections c"
  by (simp add: set_heartbeat_def)

lemma call_hist_other: "(\<And>args. g \<noteq> HB_Calling args) \<Longrightarrow>
    (\<And>args r. g = HB_Returned args True r \<Longrightarrow> \<not> Success r) \<Longrightarrow> call_hist n H (h\<lparr>hbState := g\<rparr>)"
  by (auto simp: call_hist_def)

lemma call_hist_done: "call_hist n H (h\<lparr>hbState := HB_Done\<rparr>)"
  by (simp add: call_hist_def)

text \<open>\<open>startElection\<close> asks for votes with the last entry of its own log.\<close>

lemma election_request:
  assumes "raft_ok (raft p)" "proc_step e p = Some (Inr (O_Election args m ps, p'))" "local_event e"
  shows "rvTerm args = currentTerm (raft p')" "LastLogTerm args = last_term (log (raft p'))"
    "LastLogIndex args = len (log (raft p')) - 1"
  using assms
  by (cases e; auto simp: maintain_step_def Let_def startElection_ok [OF assms(1)] map_res_Inr
      handleLeader_tick_def TurnLeader_unlocked_def split: maintain_pc.splits option.splits if_splits prod.splits)+

lemma spawn_elections:
  "e \<in> set (elections (spawn_goroutines i out c)) \<Longrightarrow> e \<in> set (elections c) \<or>
     (\<exists>args m ps. out = O_Election args m ps \<and> cand e = i \<and> eargs e = args \<and> voters e = {})"
  by (cases out) (auto simp: voters_def split: if_splits)

lemma agrees_local:
  assumes inv: "agrees H c" "es_inv c" and st: "cluster_step (Local i e) c = Some (Inr (u, c'))"
    and e: "\<And>cmd. e \<noteq> E_Start cmd"
  shows "\<exists>H'. agrees H' c'"
proof -
  have i: "i \<in> nodes c" and loc: "local_event e" using st by (auto simp: nodes_def split: if_splits)
  obtain out p where p: "proc_step e (procs c i) = Some (Inr (out, p))"
    and c': "c' = spawn_goroutines i out (c\<lparr>procs := (procs c)(i := p)\<rparr>)"
    using st by (auto split: if_splits dest!: on_procD)
  have ok: "raft_ok (rf_at c i)" using inv(1) i by (rule raft_ok_at)
  let ?H = "noted i (currentTerm (raft p)) (log (raft p)) H"
  have "agrees ?H c'"
  proof (rule agrees_still [OF inv(1) i])
    show "servers c' = servers c" "procs c' = (procs c)(i := p)" by (simp_all add: c')
    show "still (procs c i) p" using ok p loc e es_inv_at(5) [OF inv(2) i] by (rule still_local)
    show "elected c' j t \<longleftrightarrow> elected c j t" for j t
      unfolding c' using local_outcome(1) [OF p loc] by (subst elected_spawn) auto
    show "h \<in> set (heartbeats c) \<or> call_hist (servers c) ?H h" if "h \<in> set (heartbeats c')" for h
      using sent_from_spawn [OF that [unfolded c']] by (auto simp: call_hist_def)
    show "e1 \<in> set (elections c) \<or> election_hist c' ?H e1" if "e1 \<in> set (elections c')" for e1
      using spawn_elections [OF that [unfolded c']]
    proof
      assume "\<exists>args m ps. out = O_Election args m ps \<and> cand e1 = i \<and> eargs e1 = args \<and> voters e1 = {}"
      then obtain args m ps where o: "out = O_Election args m ps" "cand e1 = i" "eargs e1 = args" "voters e1 = {}"
        by blast
      have "rf_at c' i = raft p" by (simp add: c')
      then show ?thesis
        using o election_request [OF ok p [unfolded o(1)] loc] by (simp add: election_hist_def)
    qed simp
  qed
  then show ?thesis by blast
qed

text \<open>A granted vote backs the candidate, unless its election is decided already.\<close>

lemma backs_vote:
  assumes A: "agrees H c" and j: "j \<in> nodes c"
    and r: "RequestVote args (rf_at c j) = Inr (reply, rf)" "VoteGranted reply"
    and T: "rvTerm args \<notin> led H" and now: "now j = rvTerm args"
  shows "backs now (noted j (currentTerm rf) (log rf) H) (rvTerm args) (LastLogTerm args) (LastLogIndex args) j"
proof -
  let ?l = "log (rf_at c j)" let ?H = "noted j (currentTerm rf) (log rf) H"
  note old = peer_histD [OF agreesD(3) [OF A j]] and l = own_log [OF A j]
  note s = RequestVote_granted_state [OF l(1) r]
  have up: "up_to_date args (rf_at c j)" using RequestVote_grants [OF l(1) r(1)] r(2) by simp
  have "keeps ?H j (rvTerm args) ?l"
  proof (rule keepsI)
    fix t k g
    assume k: "(j, t, k) \<in> held ?H" "t < rvTerm args" and g: "g \<noteq> []" "prefix g k" "last_term g = t"
    have kH: "(j, t, k) \<in> held H" using k s(1) by simp
    then have "t < term_at c j + 1" using historyD(8) [OF agreesD(2) [OF A] kH] by simp
    from old(6) kH this g
    show "prefix g ?l \<or> (\<exists>u \<in> led ?H. t < u \<and> u < rvTerm args \<and> \<not> prefix g (line ?H u))"
    proof (cases rule: keepsD)
      case (lost w)
      then have "w < rvTerm args" using s(4) T by (cases "w = rvTerm args") auto
      then show ?thesis using lost by auto
    qed simp
  qed
  then show ?thesis
    using l(1,2) up now unfolding backs_def up_to_date_def by (intro conjI exI [of _ ?l]) simp_all
qed

lemma agrees_call_vote:
  assumes inv: "agrees H c" "es_inv c" and st: "cluster_step (CallVote k j b) c = Some (Inr (u, c'))"
  shows "\<exists>H'. agrees H' c'"
proof -
  let ?e = "elections c ! k"
  have k: "k < length (elections c)" "votes ?e j = Calling" using st by (auto split: if_splits)
  then have j: "j \<in> nodes c" using called_node [OF inv(2)] by blast
  obtain reply rf where r: "RequestVote (eargs ?e) (rf_at c j) = Inr (reply, rf)"
    and c': "c' = vote_reply k j b (O_Vote reply) (c\<lparr>procs := (procs c)(j := (procs c j)\<lparr>raft := rf\<rparr>)\<rparr>)"
    using st k by (auto simp: map_res_Inr dest!: on_procD)
  let ?p = "(procs c j)\<lparr>raft := rf\<rparr>" let ?H = "noted j (currentTerm (raft ?p)) (log (raft ?p)) H"
  let ?g = "if b then Returned True reply else Returned False RequestVoteReply_zero"
  let ?e' = "?e\<lparr>votes := (votes ?e)(j := ?g)\<rparr>"
  have q: "still (procs c j) ?p" using raft_ok_at [OF inv(1) j] r by (rule still_vote)
  have sel: "servers c' = servers c" "procs c' = (procs c)(j := ?p)" "heartbeats c' = heartbeats c"
    "elections c' = (elections c)[k := ?e']"
    by (simp_all add: c' vote_reply_def set_vote_def set_election_def Let_def)
  have G: "grows (term_at c) H ?H" using stillD(7) [OF q] by (rule grows_noted)
  have "election_hist c' ?H ?e"
  proof (rule election_hist_change [OF G agreesD(5) [OF inv(1)] sel(2) stillD(7) [OF q]])
    show "?e \<in> set (elections c)" using k(1) by simp
    show "state (raft ?p) = CANDIDATE \<Longrightarrow> currentTerm (raft ?p) = term_at c j \<Longrightarrow>
      state (rf_at c j) = CANDIDATE \<and> log (raft ?p) = log (rf_at c j)"
      using stillD(2,10) [OF q] by auto
  qed
  then have e': "election_hist c' ?H ?e'"
  proof (rule election_hist_votes)
    fix v assume v: "v \<in> voters ?e'" and T: "eterm ?e \<notin> led ?H"
    show "v \<in> voters ?e \<or> backs (term_at c') ?H (eterm ?e) (LastLogTerm (eargs ?e)) (LastLogIndex (eargs ?e)) v"
    proof (cases "v = j \<and> b \<and> VoteGranted reply")
      case True
      then have "currentTerm rf = eterm ?e"
        using RequestVote_granted_state(1) [OF own_log(1) [OF inv(1) j] r] by blast
      then show ?thesis
        using backs_vote [OF inv(1) j r, of "term_at c'"] True T sel(2) by simp
    next
      case False
      then show ?thesis using v by (auto simp: voters_def split: if_splits)
    qed
  qed simp_all
  have "agrees ?H c'"
  proof (rule agrees_still [OF inv(1) j sel(1,2) q])
    show "elected c' i t \<longleftrightarrow> elected c i t" for i t using k(1) by (simp add: c' vote_reply_def)
    show "e1 \<in> set (elections c) \<or> election_hist c' ?H e1" if "e1 \<in> set (elections c')" for e1
      using that e' set_update_subset_insert [of "elections c" k ?e'] unfolding sel(4) by blast
  qed (use sel(3) in simp)
  then show ?thesis by blast
qed

text \<open>A vote wins the election: the winner's log is the log of a new leader.\<close>

lemma peer_hist_win:
  assumes p: "peer_hist n H i p" and T: "T = currentTerm (raft p)" "T \<notin> led H"
    and G: "grows now H (enthroned T (log (raft p)) H)" and m: "0 < m"
  shows "peer_hist n (enthroned T (log (raft p)) H) i (p\<lparr>raft := (raft p)\<lparr>state := LEADER\<rparr>, promoting := m\<rparr>)"
proof -
  note old = peer_histD [OF p]
  have "raft_ok ((raft p)\<lparr>state := LEADER\<rparr>)"
    using old(1) by (simp add: raft_ok_def killed_def delivered_in_order_def)
  moreover have "keeps (enthroned T (log (raft p)) H) i (currentTerm (raft p) + 1) (log (raft p))"
    by (rule keeps_grows_new [OF G old(6)]) simp
  moreover have "committed n (enthroned T (log (raft p)) H) ((raft p)\<lparr>state := LEADER\<rparr>)"
    using committed_grows [OF G old(8)] by (simp add: committed_def)
  ultimately show ?thesis using old(2) T m by (simp add: peer_hist_def)
qed

lemma candidate_term_new:
  assumes inv: "agrees H c" "winner_leads c" "es_inv c'" and i: "i \<in> nodes c" and cand: "state (rf_at c i) = CANDIDATE"
    and el: "elected c' i (term_at c i)" "\<And>a. elected c a (term_at c i) \<Longrightarrow> elected c' a (term_at c i)"
  shows "term_at c i \<notin> led H" "0 < term_at c i" "line H (term_at c i) = []"
    "\<forall>x \<in> set (log (rf_at c i)). entryTerm x < term_at c i"
proof -
  show T: "term_at c i \<notin> led H"
  proof
    assume "term_at c i \<in> led H"
    then obtain a where "elected c a (term_at c i)" using agreesD(1) [OF inv(1)] by auto
    moreover from this have "a = i" using el elected_unique [OF inv(3)] by blast
    ultimately show False using inv(2) i cand by (auto simp: winner_leads_def)
  qed
  show pos: "0 < term_at c i" using peer_histD(5) [OF agreesD(3) [OF inv(1) i]] cand by simp
  show none: "line H (term_at c i) = []" using historyD(1) [OF agreesD(2) [OF inv(1)] T] pos by simp
  note l = own_log [OF inv(1) i]
  show "\<forall>x \<in> set (log (rf_at c i)). entryTerm x < term_at c i"
  proof
    fix x assume x: "x \<in> set (log (rf_at c i))"
    then have "entryTerm x \<le> term_at c i" "entryTerm x \<noteq> term_at c i"
      using chain_entry [OF l(2) x] l(3) none by (auto simp: terms_in_def)
    then show "entryTerm x < term_at c i" by simp
  qed
qed

lemma candidate_backs:
  assumes A: "agrees H c" and i: "i \<in> nodes c" and T: "term_at c i \<notin> led H"
  shows "backs (term_at c) H (term_at c i) (last_term (log (rf_at c i))) (len (log (rf_at c i)) - 1) i"
proof -
  let ?l = "log (rf_at c i)" let ?T = "term_at c i"
  have "keeps H i ?T ?l"
  proof (rule keepsI)
    fix t k g assume kk: "(i, t, k) \<in> held H" "t < ?T" and g: "g \<noteq> []" "prefix g k" "last_term g = t"
    have "t < ?T + 1" using kk(2) by simp
    from peer_histD(6) [OF agreesD(3) [OF A i]] kk(1) this g
    show "prefix g ?l \<or> (\<exists>u \<in> led H. t < u \<and> u < ?T \<and> \<not> prefix g (line H u))"
    proof (cases rule: keepsD)
      case (lost w)
      then have "w < ?T" using T by (cases "w = ?T") auto
      then show ?thesis using lost by blast
    qed simp
  qed
  then show ?thesis
    using own_log(1,2) [OF A i] unfolding backs_def by (intro conjI exI [of _ ?l]) simp_all
qed

lemma agrees_win:
  assumes inv: "agrees H c" "es_inv c" "winner_leads c" "es_inv c'"
    and k: "k < length (elections c)"
  defines "e \<equiv> elections c ! k" and "i \<equiv> cand (elections c ! k)"
  assumes c': "c' = set_election k e' (c\<lparr>procs := (procs c)(i := p)\<rparr>)"
    and e': "cand e' = i" "eargs e' = eargs e" "voters e' = voters e" "won c e'"
    and el: "\<And>a t. elected c' a t \<longleftrightarrow> elected c a t \<or> a = i \<and> t = eterm e"
    and at: "state (rf_at c i) = CANDIDATE" "term_at c i = eterm e"
    and p: "p = (procs c i)\<lparr>raft := (rf_at c i)\<lparr>state := LEADER\<rparr>, promoting := m\<rparr>" "0 < m"
  shows "\<exists>H'. agrees H' c'"
proof -
  let ?l = "log (rf_at c i)" let ?T = "eterm e" let ?H = "enthroned ?T ?l H"
  have mem: "e \<in> set (elections c)" using k by (simp add: e_def)
  have sel: "servers c' = servers c" "procs c' = (procs c)(i := p)" "heartbeats c' = heartbeats c"
    "elections c' = (elections c)[k := e']" "nodes c' = nodes c"
    by (simp_all add: c' nodes_def)
  have ok': "election_ok c' e'"
    using inv(4) k by (simp add: es_inv_def sel(4) set_update_memI)
  then have i: "i \<in> nodes c" using e'(1) sel(5) by (simp add: election_ok_def)
  note l = own_log [OF inv(1) i] and hist = agreesD(2) [OF inv(1)]
  have "elected c' i (term_at c i)" "\<And>a. elected c a (term_at c i) \<Longrightarrow> elected c' a (term_at c i)"
    using el at(2) by simp_all
  note T = candidate_term_new [OF inv(1,3,4) i at(1) this, unfolded at(2)]
  have G: "grows (term_at c) H ?H" using T(3,1) by (rule grows_enthroned)
  have eh: "election_hist c H e" using agreesD(5) [OF inv(1) mem] .
  have last: "LastLogTerm (eargs e) = last_term ?l" "LastLogIndex (eargs e) = len ?l - 1"
    using eh at i_def e_def by (simp_all add: election_hist_def)
  have Q: "majority (servers c) (insert i (voters e))"
    using won_majority [OF ok'] e' sel(1) by (simp add: won_def)
  have "\<forall>v \<in> insert i (voters e). backs (term_at c) H ?T (last_term ?l) (len ?l - 1) v"
    using eh T(1) candidate_backs [OF inv(1) i, unfolded at(2)] last by (simp add: election_hist_def)
  then have hist': "history (servers c) (term_at c) ?H"
    using l at(2) by (intro history_enthroned [OF hist T(1,2) l(1,2) T(4) _ Q]) simp_all
  have tp: "currentTerm (raft p) = term_at c i" by (simp add: p)
  have "agrees ?H c'"
  proof (rule agrees_change [OF inv(1) i sel(1,2) G])
    show "term_at c i \<le> currentTerm (raft p)" using tp by simp
    have "(term_at c)(i := currentTerm (raft p)) = term_at c" using tp by auto
    then show "history (servers c) ((term_at c)(i := currentTerm (raft p))) ?H" using hist' by simp
    show "U \<in> led ?H \<longleftrightarrow> (\<exists>j. elected c' j U)" for U
      using agreesD(1) [OF inv(1)] el by auto
    show "peer_hist (servers c) ?H i p"
      unfolding p(1) using T(1) at(2) G p(2) by (intro peer_hist_win [OF agreesD(3) [OF inv(1) i]]) simp_all
    show "line ?H (term_at c j) = line H (term_at c j)" if "j \<in> nodes c" "state (rf_at c j) = LEADER" for j
      using peer_histD(3) [OF agreesD(3) [OF inv(1) that(1)] that(2)] T(1) by auto
    have "election_hist c' ?H e'"
      using eh e' i_def e_def tp sel(2) at p by (simp add: election_hist_def)
    then show "x \<in> set (elections c') \<Longrightarrow> x \<in> set (elections c) \<or> election_hist c' ?H x" for x
      using set_update_subset_insert [of "elections c" k e'] unfolding sel(4) by blast
  qed (simp_all add: p sel(3))
  then show ?thesis by blast
qed

lemma still_same:
  assumes "raft_ok (raft p)" "raft p' = raft p" "promoting p' = promoting p"
  shows "still p p'"
  using still_refl [OF assms(1)] assms by (simp add: still_def)

lemma agrees_vote_idle:
  assumes inv: "agrees H c" and k: "k < length (elections c)" and i: "cand (elections c ! k) \<in> nodes c"
  defines "e \<equiv> elections c ! k" and "i \<equiv> cand (elections c ! k)"
  assumes c': "c' = set_election k (voted_election e j n) (c\<lparr>procs := (procs c)(i := p)\<rparr>)"
    and q: "still (procs c i) p" and v: "voters (voted_election e j n) \<subseteq> voters e"
    and same: "\<And>a t. elected c' a t \<longleftrightarrow> elected c a t"
  shows "\<exists>H'. agrees H' c'"
proof -
  let ?H = "noted i (currentTerm (raft p)) (log (raft p)) H" let ?e' = "voted_election e j n"
  have sel: "servers c' = servers c" "procs c' = (procs c)(i := p)" "heartbeats c' = heartbeats c"
    "elections c' = (elections c)[k := ?e']"
    by (simp_all add: c')
  have G: "grows (term_at c) H ?H" using stillD(7) [OF q] by (rule grows_noted)
  have "e \<in> set (elections c)" using k by (simp add: e_def)
  then have "election_hist c' ?H e"
    using stillD(2,10) [OF q] i
    by (intro election_hist_change [OF G agreesD(5) [OF inv] sel(2) stillD(7) [OF q]]) (auto simp: i_def)
  then have e': "election_hist c' ?H ?e'" by (rule election_hist_votes) (use v in auto)
  have "agrees ?H c'"
  proof (rule agrees_still [OF inv _ sel(1,2) q same])
    show "x \<in> set (elections c) \<or> election_hist c' ?H x" if "x \<in> set (elections c')" for x
      using that e' set_update_subset_insert [of "elections c" k ?e'] unfolding sel(4) by blast
  qed (use sel(3) i i_def in simp_all)
  then show ?thesis by blast
qed

lemma agrees_vote_return:
  assumes inv: "agrees H c" "es_inv c" "winner_leads c" "es_inv c'"
    and ord: "orderly (VoteReturn k j) c"
    and st: "cluster_step (VoteReturn k j) c = Some (Inr (u, c'))"
  shows "\<exists>H'. agrees H' c'"
proof -
  let ?e = "elections c ! k" let ?i = "cand ?e"
  obtain s r rf n w where k: "k < length (elections c)" and ret: "votes ?e j = Returned s r"
    and sv: "sendvote s r (voteNum ?e) (rf_at c ?i) = (rf, n, w)"
    and c': "c' = set_election k (voted_election ?e j n) (c\<lparr>procs := (procs c)(?i := voted_proc (procs c ?i) rf w)\<rparr>)"
    using st by (rule vote_returned)
  let ?p = "voted_proc (procs c ?i) rf w" let ?e' = "voted_election ?e j n"
  have mem: "?e \<in> set (elections c)" using k by simp
  then have i: "?i \<in> nodes c" using inv(2) by (simp add: es_inv_def election_ok_def)
  have ok: "raft_ok (rf_at c ?i)" using inv(1) i by (rule raft_ok_at)
  have more: "voteNum ?e \<le> n" using sv by (cases rule: sendvote_cases) simp_all
  have voters: "voters ?e' \<subseteq> voters ?e" if "n \<noteq> voteNum ?e \<Longrightarrow> s \<and> VoteGranted r"
    using ret that by (auto simp: voters_def voted_election_def split: if_splits)
  note ec = elected_counted [of k "c\<lparr>procs := (procs c)(?i := ?p)\<rparr>" ?e']
  note idle = agrees_vote_idle [OF inv(1) k i c']
  from sv show ?thesis
  proof (cases rule: sendvote_cases)
    case same
    then have "still (procs c ?i) ?p" using ok by (intro still_same) simp_all
    then show ?thesis
      by (rule idle) (use same voters ec(2) k in \<open>simp_all add: c'\<close>)
  next
    case down
    then have "still (procs c ?i) ?p" using still_TurnFollower(2) [OF ok down(2)] by (simp add: voted_proc_def)
    then show ?thesis
      by (rule idle) (use down voters ec(2) k in \<open>simp_all add: c'\<close>)
  next
    case counted
    have t: "term_at c ?i = eterm ?e"
      using ord counted ret by (simp add: orderly_def stale_vote_def Let_def)
    have "election_ok c ?e" using inv(2) mem by (simp add: es_inv_def)
    then have w: "won c ?e' \<longleftrightarrow> w"
      using counted es_inv_at(2) [OF inv(2) i] by (auto simp: won_def election_ok_def)
    have el: "elected c' a t \<longleftrightarrow> elected c a t \<or> won c ?e' \<and> a = ?i \<and> t = eterm ?e" for a t
      using ec(1) [of a t] k more by (simp add: c' won_def)
    show ?thesis
    proof (cases w)
      case False
      then have "still (procs c ?i) ?p" using ok counted by (intro still_same) simp_all
      moreover have "elected c' a t \<longleftrightarrow> elected c a t" for a t using el False w by blast
      moreover have "voters ?e' \<subseteq> voters ?e" using counted(1,2) by (intro voters) simp
      ultimately show ?thesis by (intro idle)
    next
      case True
      have "voters ?e' = voters ?e" using ret counted by (auto simp: voters_def voted_election_def)
      moreover have "?p = (procs c ?i)\<lparr>raft := (rf_at c ?i)\<lparr>state := LEADER\<rparr>, promoting := promoting (procs c ?i) + 1\<rparr>"
        using counted True by (simp add: voted_proc_def)
      ultimately show ?thesis
        using counted t w True el by (intro agrees_win [OF inv k c', where m = "promoting (procs c ?i) + 1"]) simp_all
    qed
  qed
qed

end
