(* ===== verification/RaftDelivery.thy ===== *)
theory RaftDelivery
  imports RaftBallots
begin

text \<open>
  The invariant of \<open>RaftAgreement\<close> through replication: commands, heartbeats, what a peer
  takes over from its leader, and what a leader commits; then every careful step keeps it.
\<close>

section \<open>Commands and heartbeats\<close>

text \<open>The leader takes a command.\<close>

lemma acked_Start:
  assumes a: "acked H rf" and ok: "raft_ok rf"
    and G: "grows now H H'" and own: "(me rf, currentTerm rf, log rf @ [x]) \<in> held H'"
  shows "acked H' (rf\<lparr>log := log rf @ [x], matchIndex := (matchIndex rf)[nat (me rf) := len (log rf)], nextIndex := ni\<rparr>)"
  unfolding acked_def
proof (intro allI impI, elim conjE)
  let ?rf = "rf\<lparr>log := log rf @ [x], matchIndex := (matchIndex rf)[nat (me rf) := len (log rf)], nextIndex := ni\<rparr>"
  fix j assume j: "0 \<le> j" "j < int (peers ?rf)" "0 < matchIndex ?rf ! nat j"
  show "matchIndex ?rf ! nat j < len (log ?rf) \<and>
    (\<exists>l. (j, currentTerm ?rf, l) \<in> held H' \<and> prefix (take (Suc (nat (matchIndex ?rf ! nat j))) (log ?rf)) l)"
  proof (cases "j = me rf")
    case True
    then have "matchIndex ?rf ! nat j = len (log rf)" using raft_okD(1,2,4) [OF ok] by simp
    then show ?thesis using own True by (auto simp: len_def)
  next
    case False
    then have m: "matchIndex ?rf ! nat j = matchIndex rf ! nat j" using j(1) raft_okD(1) [OF ok] by (simp add: eq_nat_nat_iff)
    let ?k = "Suc (nat (matchIndex rf ! nat j))"
    obtain l where l: "matchIndex rf ! nat j < len (log rf)" "(j, currentTerm rf, l) \<in> held H" "prefix (take ?k (log rf)) l"
      using a j m unfolding acked_def by auto
    have "take ?k (log rf @ [x]) = take ?k (log rf)" using l(1) j(3) m by (simp add: len_def)
    then have "prefix (take ?k (log rf @ [x])) l" using l(3) by simp
    then show ?thesis using m l(1) growsD(2) [OF G l(2)] by (auto simp: len_def)
  qed
qed

lemma committed_extend:
  assumes c: "committed n H rf" and ok: "raft_ok rf" and G: "grows now H H'"
    and new: "log rf' = log rf @ [x]" "commitIndex rf' = commitIndex rf" "lastApplied rf' = lastApplied rf"
      "applyMsgCh rf' = applyMsgCh rf" "currentTerm rf' = currentTerm rf"
  shows "committed n H' rf'"
proof -
  have ci: "nat (commitIndex rf) < length (log rf)" "nat (lastApplied rf) < length (log rf)"
    using c raft_okD(7-9) [OF ok] by (auto simp: committed_def len_def)
  then have "take (Suc (nat (commitIndex rf))) (log rf @ [x]) = take (Suc (nat (commitIndex rf))) (log rf)" by simp
  moreover have "map (entry_msg (log rf @ [x])) [1..<Suc (nat (lastApplied rf))] =
      map (entry_msg (log rf)) [1..<Suc (nat (lastApplied rf))]"
    using ci(2) by (intro map_cong) (auto simp: entry_msg_def nth_append)
  ultimately show ?thesis
    using c settled_grows [OF G] new unfolding committed_def by (simp add: len_def)
qed

lemma keeps_start:
  assumes k: "keeps H i (T + 1) l" and G: "grows now H (noted i T (l @ [x]) (appended T x H))"
  shows "keeps (noted i T (l @ [x]) (appended T x H)) i (T + 1) (l @ [x])"
proof (rule keepsI)
  let ?H = "noted i T (l @ [x]) (appended T x H)"
  fix t k g assume h: "(i, t, k) \<in> held ?H" "t < T + 1" and g: "g \<noteq> []" "prefix g k" "last_term g = t"
  show "prefix g (l @ [x]) \<or> (\<exists>w \<in> led ?H. t < w \<and> w < T + 1 \<and> \<not> prefix g (line ?H w))"
  proof (cases "(i, t, k) \<in> held H")
    case True
    from assms(1) this h(2) g show ?thesis
    proof (cases rule: keepsD)
      case (lost w)
      then have "\<not> prefix g (line ?H w)" using g(3) by (intro not_prefix_grows [OF G]) simp_all
      then show ?thesis using lost(1-3) by (intro disjI2 bexI [of _ w] conjI) (assumption | (simp; fail))+
    qed simp
  qed (use h g in simp)
qed

lemma agrees_start:
  assumes inv: "agrees H c" "es_inv c" and st: "cluster_step (Local i (E_Start cmd)) c = Some (Inr (u, c'))"
  shows "\<exists>H'. agrees H' c'"
proof -
  have i: "i \<in> nodes c" using st by (auto simp: nodes_def split: if_splits)
  note old = peer_histD [OF agreesD(3) [OF inv(1) i]] and l = own_log [OF inv(1) i] and hist = agreesD(2) [OF inv(1)]
  let ?rf = "rf_at c i"
  obtain out p where p: "proc_step (E_Start cmd) (procs c i) = Some (Inr (out, p))"
    and c'0: "c' = spawn_goroutines i out (c\<lparr>procs := (procs c)(i := p)\<rparr>)"
    using st by (auto split: if_splits dest!: on_procD)
  obtain r rf where rf: "Start cmd ?rf = Inr (r, rf)" "p = (procs c i)\<lparr>raft := rf\<rparr>" "out = O_Start (fst r) (fst (snd r)) (snd (snd r))"
    using p by (auto simp: map_res_Inr)
  have c': "c' = c\<lparr>procs := (procs c)(i := p)\<rparr>" using c'0 rf(3) by simp
  have sel: "servers c' = servers c" "procs c' = (procs c)(i := p)" "heartbeats c' = heartbeats c"
    "elections c' = elections c" "\<And>j t. elected c' j t \<longleftrightarrow> elected c j t"
    by (simp_all add: c')
  show ?thesis
  proof (cases "state ?rf = LEADER")
    case False
    then have "rf = ?rf" using rf(1) by (simp add: Start_ok [OF old(1)])
    then have "still (procs c i) p" using old(1) rf(2) by (intro still_same) simp_all
    then have "agrees (noted i (currentTerm (raft p)) (log (raft p)) H) c'"
      by (rule agrees_still [OF inv(1) i sel(1,2) _ sel(5)]) (use sel(3,4) in simp_all)
    then show ?thesis by blast
  next
    case True
    let ?T = "term_at c i" let ?x = "\<lparr>entryTerm = ?T, Command = cmd\<rparr>" let ?l = "log ?rf @ [?x]"
    have p': "raft p = ?rf\<lparr>log := ?l, matchIndex := (matchIndex ?rf)[nat (me ?rf) := len (log ?rf)],
        nextIndex := (nextIndex ?rf)[nat (me ?rf) := len (log ?rf) + 1]\<rparr>" "promoting p = promoting (procs c i)"
      using rf True by (auto simp: Start_ok [OF old(1)])
    let ?H1 = "appended ?T ?x H" let ?H = "noted i ?T ?l ?H1"
    have T: "?T \<in> led H" "line H ?T = log ?rf" using old(3,4) True by simp_all
    have G1: "grows (term_at c) H ?H1" using T(1) by (intro grows_appended) simp_all
    have h1: "history (servers c) (term_at c) ?H1" using T(1) by (intro history_appended [OF hist]) simp_all
    have l1: "chain ?H1 ?l" "terms_in ?T ?l"
      using historyD(3,4) [OF h1, of ?T] T(2) by simp_all
    have G: "grows (term_at c) H ?H" using T(1) by (auto simp: grows_def)
    have h: "history (servers c) ((term_at c)(i := ?T)) ?H" using l1 by (intro history_noted [OF h1]) simp_all
    have "Start cmd ?rf = Inr (r, raft p)" using rf(1,2) by simp
    then have ok: "raft_ok (raft p)" using Start_returns [OF old(1), of cmd] by auto
    have own: "(i, ?T, ?l) \<in> held ?H" by simp
    have "keeps ?H i (?T + 1) ?l" using old(6) G by (rule keeps_start)
    moreover have "acked ?H (raft p)" if "promoting p = 0"
      unfolding p'(1) using old(1,7) that True p'(2) es_inv_at(1) [OF inv(2) i] by (intro acked_Start [OF _ _ G]) simp_all
    moreover have "committed (servers c) ?H (raft p)"
      by (rule committed_extend [OF old(8,1) G]) (simp_all add: p')
    ultimately have "peer_hist (servers c) ?H i p"
      using ok own True T p' by (simp add: peer_hist_def)
    moreover have "line ?H (term_at c j) = line H (term_at c j)"
      if "j \<in> nodes c" "j \<noteq> i" "state (rf_at c j) = LEADER" for j
      using one_leader [OF inv(2) i that(1) True that(3)] that(2) by auto
    ultimately have "agrees ?H c'"
      using agreesD(1) [OF inv(1)] h p' sel(3-5)
      by (intro agrees_change [OF inv(1) i sel(1,2) G]) (simp_all add: True)
    then show ?thesis by blast
  qed
qed

text \<open>A heartbeat is cut from the leader's log.\<close>

lemma agrees_heartbeat_call:
  assumes inv: "agrees H c" "es_inv c" and st: "cluster_step (HeartBeatCall k) c = Some (Inr (u, c'))"
  shows "\<exists>H'. agrees H' c'"
proof -
  let ?h = "heartbeats c ! k" let ?i = "hbFrom ?h"
  have k: "k < length (heartbeats c)" using st by (auto split: if_splits)
  then have i: "?i \<in> nodes c" using inv(2) by (simp add: es_inv_def heartbeat_ok_def)
  note old = peer_histD [OF agreesD(3) [OF inv(1) i]]
  obtain args where args: "sendHeartBeat_args (hbTo ?h) (rf_at c ?i) = Inr args"
    and c': "c' = begin_call k (O_Args args) c"
    using st k by (auto simp: Let_def map_res_Inr split: if_splits dest!: on_procD)
  let ?H = "noted ?i (term_at c ?i) (log (rf_at c ?i)) H"
  have G: "grows (term_at c) H ?H" by (intro grows_noted) simp
  have call: "call_hist (servers c) ?H (?h\<lparr>hbState := HB_Calling a\<rparr>)" if a: "args = Some a" for a
  proof -
    have lead: "state (rf_at c ?i) = LEADER" "LeaderCommit a = commitIndex (rf_at c ?i)"
      using args a by (auto simp: sendHeartBeat_args_def bind_res_Inr split: if_splits)
    note cut = sendHeartBeat_args_cut [OF args [unfolded a]]
    have "settled (servers c) ?H (take (Suc (nat (LeaderCommit a))) (log (rf_at c ?i))) (aeTerm a)"
      using old(8) settled_grows [OF G] lead(2) cut(2) by (simp add: committed_def)
    then show ?thesis
      using cut old(3,4,8) lead unfolding call_hist_def committed_def
      by (auto intro!: exI [of _ "log (rf_at c ?i)"])
  qed
  have "agrees ?H c'"
  proof (rule agrees_still [OF inv(1) i, where p = "procs c ?i"])
    show "servers c' = servers c" "procs c' = (procs c)(?i := procs c ?i)"
      "\<And>i t. elected c' i t \<longleftrightarrow> elected c i t"
      by (simp_all add: c' begin_call_def split: option.splits)
    show "still (procs c ?i) (procs c ?i)" using old(1) by (rule still_refl)
    show "h \<in> set (heartbeats c) \<or> call_hist (servers c) ?H h" if "h \<in> set (heartbeats c')" for h
    proof -
      have "h \<in> set (heartbeats c) \<or> h = ?h\<lparr>hbState := (case args of None \<Rightarrow> HB_Done | Some a \<Rightarrow> HB_Calling a)\<rparr>"
        using that set_heartbeat_mem unfolding c' begin_call_def by (fastforce split: option.splits)
      then show ?thesis using call call_hist_done by (cases args) auto
    qed
    show "e \<in> set (elections c') \<Longrightarrow> e \<in> set (elections c) \<or> election_hist c' ?H e" for e
      by (auto simp: c' begin_call_def set_heartbeat_def split: option.splits)
  qed
  then show ?thesis by blast
qed

section \<open>Delivery\<close>

lemma committed_deliver:
  assumes lg: "applyMsgCh rf = map (entry_msg lg) [1..<Suc (nat (lastApplied rf))]"
    and la: "0 \<le> lastApplied rf" "lastApplied rf \<le> c" "lastApplied rf < len lg"
    and pre: "prefix (take (Suc (nat (lastApplied rf))) lg) (log rf)"
    and c: "c < len (log rf)" "settled n H (take (Suc (nat c)) (log rf)) (currentTerm rf)"
  shows "committed n H (deliver c rf)"
proof -
  let ?a = "nat (lastApplied rf)"
  have len: "length (take (Suc ?a) lg) = Suc ?a" using la by (simp add: len_def)
  obtain r where r: "log rf = take (Suc ?a) lg @ r" using pre by (auto simp: prefix_def)
  have "log rf ! k = lg ! k" if "k < Suc ?a" for k
    using that len unfolding r by (simp add: nth_append)
  then have same: "map (entry_msg lg) [1..<Suc ?a] = map (entry_msg (log rf)) [1..<Suc ?a]"
    by (intro map_cong) (auto simp: entry_msg_def)
  have upt: "[1..<Suc ?a] @ [Suc ?a..<Suc (nat c)] = [1..<Suc (nat c)]"
    using la by (metis One_nat_def Suc_le_mono le0 nat_mono upt_add_eq_append le_add_diff_inverse)
  have "applyMsgCh (deliver c rf) = map (entry_msg (log rf)) ([1..<Suc ?a] @ [Suc ?a..<Suc (nat c)])"
    unfolding deliver_def map_append same [symmetric] by (simp only: Raft.select_convs Raft.update_convs lg)
      (simp add: lg del: upt_Suc)
  then have "applyMsgCh (deliver c rf) = map (entry_msg (log rf)) [1..<Suc (nat c)]" by (simp only: upt)
  then show ?thesis using c unfolding committed_def by (simp add: deliver_def del: upt_Suc)
qed

text \<open>
  A peer accepts a call of the leader of \<open>T\<close>, cut from its log \<open>g\<close>. What the peer had of the
  leader's log, it still has afterwards.
\<close>

definition accepts_call :: "nat \<Rightarrow> (int \<Rightarrow> int) \<Rightarrow> 'c History \<Rightarrow> int \<Rightarrow> 'c Proc \<Rightarrow>
    'c AppendEntriesArgs \<Rightarrow> 'c LogEntry list \<Rightarrow> bool" where
  "accepts_call n now H j p args g \<longleftrightarrow>
     history n now H \<and> now j = currentTerm (raft p) \<and> peer_hist n H j p \<and>
     cut_from g args \<and> prefix g (line H (aeTerm args)) \<and> aeTerm args \<in> led H \<and>
     LeaderCommit args < len g \<and> settled n H (take (Suc (nat (LeaderCommit args))) g) (aeTerm args) \<and>
     currentTerm (raft p) \<le> aeTerm args \<and> log_matches args (log (raft p))"

lemma accepts_callD:
  assumes "accepts_call n now H j p args g"
  shows "history n now H" "now j = currentTerm (raft p)" "peer_hist n H j p" "cut_from g args"
    "prefix g (line H (aeTerm args))" "aeTerm args \<in> led H" "LeaderCommit args < len g"
    "settled n H (take (Suc (nat (LeaderCommit args))) g) (aeTerm args)"
    "currentTerm (raft p) \<le> aeTerm args" "log_matches args (log (raft p))"
  using assms unfolding accepts_call_def by blast+

lemma accepted_chains:
  assumes a: "accepts_call n now H j p args g"
  shows "chain H (log (raft p))" "chain H g"
proof -
  note d = accepts_callD [OF a]
  show "chain H (log (raft p))" using historyD(6) [OF d(1) peer_histD(2) [OF d(3)]] .
  show "chain H g" using historyD(3) [OF d(1)] d(5) by (rule chain_prefix)
qed

lemma accepted_merge:
  assumes a: "accepts_call n now H j p args g"
  defines "lg \<equiv> log (raft p)"
  shows "prefix g (follower_log args lg)" "prefix g lg \<Longrightarrow> follower_log args lg = lg"
    "\<not> prefix g lg \<Longrightarrow> follower_log args lg = g"
  using follower_log_prefix [OF accepted_chains [OF a] accepts_callD(4,10) [OF a]] unfolding lg_def by blast+

lemma accepted_kept:
  assumes a: "accepts_call n now H j p args g" and q: "prefix q (log (raft p))" "prefix q (line H (aeTerm args))"
  shows "prefix q (follower_log args (log (raft p)))"
proof (cases "prefix g (log (raft p))")
  case False
  have "prefix q g \<or> prefix g q" using prefix_same_cases [OF q(2) accepts_callD(5) [OF a]] .
  then have "prefix q g" using False q(1) by (meson prefix_order.trans)
  then show ?thesis using accepted_merge(3) [OF a False] by simp
qed (use accepted_merge(2) [OF a] q in simp)

lemma accepted_settled:
  assumes a: "accepts_call n now H j p args g" and q: "prefix q (log (raft p))"
    and s: "settled n H q (currentTerm (raft p))"
  shows "prefix q (follower_log args (log (raft p)))"
  using settled_in_line [OF accepts_callD(1) [OF a] s accepts_callD(6,9) [OF a]] by (rule accepted_kept [OF a q])

lemma accepted_log:
  assumes a: "accepts_call n now H j p args g"
  defines "lg' \<equiv> follower_log args (log (raft p))" and "T \<equiv> aeTerm args"
  shows "lg' \<noteq> []" "chain H lg'" "terms_in T lg'" "grows now H (noted j T lg' H)"
    "history n (now(j := T)) (noted j T lg' H)"
proof -
  note d = accepts_callD [OF a] and c = accepted_chains [OF a]
  have e: "lg' = log (raft p) \<or> lg' = g" using accepted_merge(2,3) [OF a] unfolding lg'_def by blast
  have "g \<noteq> []" using d(4) by (auto simp: cut_from_def)
  then show ne: "lg' \<noteq> []" using accepted_merge(1) [OF a] unfolding lg'_def by auto
  show ch: "chain H lg'" using e c by metis
  have "terms_in T (log (raft p))"
    using historyD(7) [OF d(1) peer_histD(2) [OF d(3)]] d(9) unfolding T_def by (rule terms_in_mono)
  moreover have "terms_in T g" using historyD(4) [OF d(1)] d(5) unfolding T_def by (rule terms_in_prefix)
  ultimately show tm: "terms_in T lg'" using e by metis
  show "grows now H (noted j T lg' H)" using d(2,9) by (intro grows_noted) (simp add: T_def)
  show "history n (now(j := T)) (noted j T lg' H)"
    using d(2,9) ne ch tm by (intro history_noted [OF d(1)]) (simp_all add: T_def)
qed

lemma accepted_keeps:
  assumes a: "accepts_call n now H j p args g"
  defines "lg' \<equiv> follower_log args (log (raft p))" and "T \<equiv> aeTerm args"
  shows "keeps (noted j T lg' H) j (T + 1) lg'"
proof (rule keepsI)
  let ?H = "noted j T lg' H"
  note d = accepts_callD [OF a]
  fix t l q assume l: "(j, t, l) \<in> held ?H" "t < T + 1" and q: "q \<noteq> []" "prefix q l" "last_term q = t"
  show "prefix q lg' \<or> (\<exists>u \<in> led ?H. t < u \<and> u < T + 1 \<and> \<not> prefix q (line ?H u))"
  proof (cases "(j, t, l) \<in> held H")
    case True
    then have t: "t < currentTerm (raft p) + 1" using historyD(8) [OF d(1) True] d(2) by simp
    from peer_histD(6) [OF d(3)] True t q show ?thesis
    proof (cases rule: keepsD)
      case kept
      show ?thesis
      proof (cases "prefix q (line H T)")
        case True
        then show ?thesis using accepted_kept [OF a kept] unfolding lg'_def T_def by simp
      next
        case False
        then have "t \<noteq> T" using chainD [OF accepted_chains(1) [OF a] kept q(1)] q(3) by auto
        then show ?thesis using False d(6) l(2) unfolding T_def by (intro disjI2 bexI [of _ "aeTerm args"]) auto
      qed
    next
      case (lost u)
      then show ?thesis using d(9) unfolding T_def by auto
    qed
  qed (use l q in simp)
qed

lemma prefix_take_mono: "prefix (take b l) l' \<Longrightarrow> a \<le> b \<Longrightarrow> prefix (take a l) l'"
  by (metis min.absorb1 prefix_order.trans take_is_prefix take_take)

lemma prefix_take_eq: "prefix (take a l) l' \<Longrightarrow> a \<le> length l \<Longrightarrow> take a l' = take a l"
  by (auto simp: prefix_def)

lemma accepted_committed:
  assumes a: "accepts_call n now H j p args g"
  defines "lg' \<equiv> follower_log args (log (raft p))" and "T \<equiv> aeTerm args"
  shows "committed n (noted j T lg' H)
    (deliver (max (commitIndex (raft p)) (LeaderCommit args)) ((step_down args (raft p))\<lparr>log := lg'\<rparr>))"
proof -
  note d = accepts_callD [OF a] and G = accepted_log(4) [OF a, folded lg'_def T_def]
  let ?lg = "log (raft p)" and ?rf = "(step_down args (raft p))\<lparr>log := lg'\<rparr>"
  let ?ci = "commitIndex (raft p)" and ?la = "lastApplied (raft p)" and ?lc = "LeaderCommit args"
  let ?H = "noted j T lg' H"
  have old: "?ci < len ?lg" "settled n H (take (Suc (nat ?ci)) ?lg) (currentTerm (raft p))"
    "applyMsgCh (raft p) = map (entry_msg ?lg) [1..<Suc (nat ?la)]"
    using peer_histD(8) [OF d(3)] by (simp_all add: committed_def)
  have la: "0 \<le> ?la" "?la \<le> ?ci" using raft_okD(7,8) [OF peer_histD(1) [OF d(3)]] by blast+
  have kept: "prefix (take (Suc (nat ?ci)) ?lg) lg'"
    unfolding lg'_def using old(2) by (rule accepted_settled [OF a take_is_prefix])
  have ci: "take (Suc (nat ?ci)) lg' = take (Suc (nat ?ci)) ?lg" "?ci < len lg'"
    using prefix_take_eq [OF kept] prefix_length_le [OF kept] old(1) la by (auto simp: len_def)
  obtain r where r: "lg' = g @ r" using accepted_merge(1) [OF a] unfolding lg'_def by (auto simp: prefix_def)
  have lc: "take (Suc (nat ?lc)) lg' = take (Suc (nat ?lc)) g" "?lc < len lg'"
    using d(4,7) by (auto simp: r len_def cut_from_def)
  have "settled n H (take (Suc (nat (max ?ci ?lc))) lg') T"
    using settled_later [OF old(2) d(9)] d(8) ci(1) lc(1) by (cases "?lc \<le> ?ci") (simp_all add: T_def max_def)
  then have s: "settled n ?H (take (Suc (nat (max ?ci ?lc))) lg') T" by (rule settled_grows [OF G])
  show ?thesis
  proof (rule committed_deliver [where lg = ?lg])
    show "prefix (take (Suc (nat (lastApplied ?rf))) ?lg) (log ?rf)"
      using kept la by (auto intro: prefix_take_mono)
    show "settled n ?H (take (Suc (nat (max ?ci ?lc))) (log ?rf)) (currentTerm ?rf)"
      using s step_down_term [OF d(9)] by (simp add: T_def)
  qed (use old la ci(2) lc(2) in simp_all)
qed

lemma agrees_accept:
  assumes inv: "agrees H c" and j: "j \<in> nodes c" and a: "accepts_call (servers c) (term_at c) H j (procs c j) args g"
  defines "lg' \<equiv> follower_log args (log (rf_at c j))" and "T \<equiv> aeTerm args"
  defines "p \<equiv> (procs c j)\<lparr>raft := deliver (max (commitIndex (rf_at c j)) (LeaderCommit args))
      ((step_down args (rf_at c j))\<lparr>log := lg'\<rparr>)\<rparr>"
  assumes ok: "raft_ok (raft p)"
    and procs: "servers c' = servers c" "procs c' = (procs c)(j := p)"
    and same: "elections c' = elections c" "\<And>i t. elected c' i t \<longleftrightarrow> elected c i t"
    and hb: "\<And>h. h \<in> set (heartbeats c') \<Longrightarrow> h \<in> set (heartbeats c) \<or> call_hist (servers c) (noted j T lg' H) h"
  shows "agrees (noted j T lg' H) c'"
proof (rule agrees_change [OF inv j procs])
  note d = accepts_callD [OF a] and new = accepted_log [OF a, folded lg'_def T_def]
  have p: "currentTerm (raft p) = T" "state (raft p) = FOLLOWER" "log (raft p) = lg'"
    using step_down_term [OF d(9)] by (simp_all add: p_def T_def deliver_def)
  show "grows (term_at c) H (noted j T lg' H)" by (rule new(4))
  show "term_at c j \<le> currentTerm (raft p)" using d(9) p by (simp add: T_def)
  show "history (servers c) ((term_at c)(j := currentTerm (raft p))) (noted j T lg' H)" using new(5) p by simp
  show "U \<in> led (noted j T lg' H) \<longleftrightarrow> (\<exists>i. elected c' i U)" for U using agreesD(1) [OF inv] same(2) by simp
  have "committed (servers c) (noted j T lg' H) (raft p)"
    using accepted_committed [OF a, folded lg'_def T_def] by (simp add: p_def)
  then show "peer_hist (servers c) (noted j T lg' H) j p"
    using ok p accepted_keeps [OF a, folded lg'_def T_def] by (simp add: peer_hist_def)
  show "state (raft p) = CANDIDATE \<Longrightarrow> state (rf_at c j) = CANDIDATE \<and> log (raft p) = log (rf_at c j)" using p by simp
qed (use hb same(1) in simp_all)

lemma agrees_call_append:
  assumes inv: "agrees H c" "es_inv c" and st: "cluster_step (CallAppend k b) c = Some (Inr (u, c'))"
  shows "\<exists>H'. agrees H' c'"
proof -
  let ?h = "heartbeats c ! k" let ?j = "hbTo ?h" let ?rf = "rf_at c ?j"
  have k: "k < length (heartbeats c)" using st by (auto split: if_splits)
  then have mem: "?h \<in> set (heartbeats c)" by simp
  then have j: "?j \<in> nodes c" using inv(2) by (simp add: es_inv_def heartbeat_ok_def)
  obtain args where args: "hbState ?h = HB_Calling args"
    using st k by (auto simp: Let_def split: hb_goroutine.splits)
  obtain reply rf where r: "AppendEntries args ?rf = Inr (reply, rf)"
    and c': "c' = append_reply k args b (O_Append reply) (c\<lparr>procs := (procs c)(?j := (procs c ?j)\<lparr>raft := rf\<rparr>)\<rparr>)"
    using st k args by (auto simp: Let_def map_res_Inr dest!: on_procD)
  let ?p = "(procs c ?j)\<lparr>raft := rf\<rparr>"
  let ?g = "if b then HB_Returned args True reply else HB_Returned args False AppendEntriesReply_zero"
  have sel: "servers c' = servers c" "procs c' = (procs c)(?j := ?p)" "elections c' = elections c"
    "\<And>i t. elected c' i t \<longleftrightarrow> elected c i t"
    by (simp_all add: c' append_reply_def)
  have hbs: "h \<in> set (heartbeats c) \<or> h = ?h\<lparr>hbState := ?g\<rparr>" if "h \<in> set (heartbeats c')" for h
    using that set_heartbeat_mem unfolding c' append_reply_def by (fastforce split: if_splits)
  obtain g where g: "cut_from g args" "prefix g (line H (aeTerm args))" "aeTerm args \<in> led H"
    "LeaderCommit args < len g" "settled (servers c) H (take (Suc (nat (LeaderCommit args))) g) (aeTerm args)"
    using agreesD(4) [OF inv(1) mem] args unfolding call_hist_def by auto
  note ok = raft_ok_at [OF inv(1) j]
  have wf: "wf_args args"
    using g(1,4) historyD(2) [OF agreesD(2) [OF inv(1)] g(3)] by (auto simp: wf_args_def cut_from_def len_def)
  have still: "\<exists>H'. agrees H' c'" if q: "still (procs c ?j) ?p" and no: "\<not> Success reply"
  proof -
    let ?H = "noted ?j (currentTerm (raft ?p)) (log (raft ?p)) H"
    have "call_hist (servers c) ?H (?h\<lparr>hbState := ?g\<rparr>)" using no by (auto simp: call_hist_def)
    then have "agrees ?H c'"
      by (intro agrees_still [OF inv(1) j sel(1,2) q sel(4)]) (use hbs sel(3) in auto)
    then show ?thesis by blast
  qed
  note cases = AppendEntries_cases [OF ok wf, unfolded r]
  consider (refused) "rf = ?rf" "\<not> Success reply"
    | (stepped) "term_at c ?j \<le> aeTerm args" "rf = step_down args ?rf" "\<not> Success reply"
    | (accepted) "term_at c ?j \<le> aeTerm args" "log_matches args (log ?rf)" "Success reply"
        "rf = deliver (max (commitIndex ?rf) (LeaderCommit args)) ((step_down args ?rf)\<lparr>log := follower_log args (log ?rf)\<rparr>)"
    using cases by (auto simp: AppendEntriesReply_zero_def split: if_splits)
  then show ?thesis
  proof cases
    case refused
    then show ?thesis using ok by (intro still still_same) simp_all
  next
    case stepped
    then show ?thesis using still_step_down [OF ok stepped(1)] by (intro still) simp_all
  next
    case accepted
    let ?l = "follower_log args (log ?rf)" let ?H = "noted ?j (aeTerm args) ?l H"
    have a: "accepts_call (servers c) (term_at c) H ?j (procs c ?j) args g"
      using agreesD(2) [OF inv(1)] agreesD(3) [OF inv(1) j] g accepted by (simp add: accepts_call_def)
    have "raft_ok rf" using AppendEntries_returns [OF ok wf] r by auto
    have "call_hist (servers c) ?H (?h\<lparr>hbState := ?g\<rparr>)"
      using g(1-3) accepted_merge(1) [OF a] by (auto simp: call_hist_def)
    then have "agrees ?H c'"
      using \<open>raft_ok rf\<close> accepted(4) sel hbs by (intro agrees_accept [OF inv(1) j a]) auto
    then show ?thesis by blast
  qed
qed

text \<open>A reply that acknowledges the leader's whole log, and what the leader commits after it.\<close>

lemma grows_refl: "grows now H H"
  by (simp add: grows_def)

lemma acked_reply:
  assumes a: "acked H rf" and q: "0 \<le> q" "q < int (peers rf)" and ok: "raft_ok rf"
    and l: "(q, currentTerm rf, l) \<in> held H" "prefix (log rf) l"
  shows "acked H (rf\<lparr>nextIndex := ni, matchIndex := (matchIndex rf)[nat q := len (log rf) - 1]\<rparr>)"
  unfolding acked_def
proof (intro allI impI, elim conjE)
  let ?rf = "rf\<lparr>nextIndex := ni, matchIndex := (matchIndex rf)[nat q := len (log rf) - 1]\<rparr>"
  fix j assume j: "0 \<le> j" "j < int (peers ?rf)" "0 < matchIndex ?rf ! nat j"
  show "matchIndex ?rf ! nat j < len (log ?rf) \<and>
    (\<exists>l. (j, currentTerm ?rf, l) \<in> held H \<and> prefix (take (Suc (nat (matchIndex ?rf ! nat j))) (log ?rf)) l)"
  proof (cases "j = q")
    case True
    then have m: "matchIndex ?rf ! nat j = len (log rf) - 1" using q raft_okD(4) [OF ok] by simp
    then have "prefix (take (Suc (nat (matchIndex ?rf ! nat j))) (log ?rf)) l"
      using l(2) take_is_prefix prefix_order.trans by fastforce
    then show ?thesis using l(1) True m by auto
  next
    case False
    then have "matchIndex ?rf ! nat j = matchIndex rf ! nat j" using j(1) q(1) by (simp add: eq_nat_nat_iff)
    then show ?thesis using a j unfolding acked_def by simp
  qed
qed

lemma acked_chosen:
  assumes a: "acked H rf" and ok: "raft_ok rf" and c: "0 < c" "c < len (log rf)"
    and maj: "replicas c rf > int (peers rf div 2)" and own: "entryTerm (log rf ! nat c) = currentTerm rf"
  shows "chosen (peers rf) H (take (Suc (nat c)) (log rf)) (currentTerm rf)"
proof -
  have k: "nat c < length (log rf)" using c by (simp add: len_def)
  have "majority (peers rf) (holders c rf)"
    using maj raft_okD(4) [OF ok] by (auto simp: majority_def replicas_holders holders_def)
  moreover have "\<exists>l. (v, currentTerm rf, l) \<in> held H \<and> prefix (take (Suc (nat c)) (log rf)) l"
    if "v \<in> holders c rf" for v
  proof -
    let ?m = "matchIndex rf ! nat v"
    have v: "0 \<le> v" "v < int (peers rf)" "c \<le> ?m" using that raft_okD(4) [OF ok] by (auto simp: holders_def)
    then obtain l where "(v, currentTerm rf, l) \<in> held H" "prefix (take (Suc (nat ?m)) (log rf)) l"
      using a c(1) unfolding acked_def by force
    then show ?thesis using prefix_take_mono [of "Suc (nat ?m)" "log rf" l "Suc (nat c)"] v(3) by auto
  qed
  ultimately show ?thesis
    using own prefix_take_Suc(2,3) [OF k] unfolding chosen_def by auto
qed

lemma committed_reply:
  assumes old: "committed n H rf" and ok: "raft_ok rf1"
    and same: "log rf1 = log rf" "commitIndex rf1 = commitIndex rf" "lastApplied rf1 = lastApplied rf"
      "applyMsgCh rf1 = applyMsgCh rf" "currentTerm rf1 = currentTerm rf"
    and c: "commitIndex rf \<le> c" "c < len (log rf)"
    and new: "c \<noteq> commitIndex rf \<Longrightarrow> settled n H (take (Suc (nat c)) (log rf)) (currentTerm rf)"
  shows "committed n H (deliver c rf1)"
proof (rule committed_deliver [where lg = "log rf"])
  show "settled n H (take (Suc (nat c)) (log rf1)) (currentTerm rf1)"
    using old new same(1,5) by (cases "c = commitIndex rf") (simp_all add: committed_def)
  show "prefix (take (Suc (nat (lastApplied rf1))) (log rf)) (log rf1)" using same by (simp add: take_is_prefix)
qed (use old same c raft_okD(7,8) [OF ok] in \<open>simp_all add: committed_def\<close>)

lemma agrees_commit:
  assumes inv: "agrees H c" "es_inv c" and i: "i \<in> nodes c" and lead: "state (rf_at c i) = LEADER"
    and p0: "promoting (procs c i) = 0"
    and rf1: "rf1 = (rf_at c i)\<lparr>nextIndex := ni, matchIndex := mi\<rparr>" "raft_ok rf1" "acked H rf1"
    and x: "commitIndex (rf_at c i) \<le> x" "x = commitIndex (rf_at c i) \<or> x < len (log (rf_at c i)) \<and>
       replicas x rf1 > int (peers (rf_at c i) div 2) \<and> entryTerm (log (rf_at c i) ! nat x) = term_at c i"
    and procs: "servers c' = servers c" "procs c' = (procs c)(i := (procs c i)\<lparr>raft := deliver x rf1\<rparr>)"
    and same: "elections c' = elections c" "\<And>i t. elected c' i t \<longleftrightarrow> elected c i t"
    and hb: "\<And>h. h \<in> set (heartbeats c') \<Longrightarrow> h \<in> set (heartbeats c) \<or> call_hist (servers c) H h"
  shows "agrees H c'"
proof (rule agrees_change [OF inv(1) i procs grows_refl])
  let ?rf = "rf_at c i" and ?p = "(procs c i)\<lparr>raft := deliver x rf1\<rparr>"
  note old = peer_histD [OF agreesD(3) [OF inv(1) i]]
  have ci: "commitIndex ?rf < len (log ?rf)" "0 \<le> commitIndex ?rf"
    using old(8) raft_okD(9) [OF old(1)] by (simp_all add: committed_def)
  have "settled (servers c) H (take (Suc (nat x)) (log ?rf)) (currentTerm ?rf)" if "x \<noteq> commitIndex ?rf"
  proof -
    have "chosen (peers rf1) H (take (Suc (nat x)) (log rf1)) (currentTerm rf1)"
      using x that ci(2) rf1(1) by (intro acked_chosen [OF rf1(3,2)]) auto
    then show ?thesis using rf1(1) es_inv_at(2) [OF inv(2) i] by (auto simp: settled_def)
  qed
  then have com: "committed (servers c) H (deliver x rf1)"
    using x ci rf1(1) by (intro committed_reply [OF old(8) rf1(2)]) auto
  have "lastApplied rf1 \<le> x" using raft_okD(8) [OF rf1(2)] rf1(1) x(1) by simp
  then have "raft_ok (deliver x rf1)" by (rule raft_ok_deliver [OF rf1(2)])
  moreover have "acked H (deliver x rf1)" using rf1(3) by (simp add: acked_def deliver_def)
  ultimately show "peer_hist (servers c) H i ?p"
    using com old rf1(1) lead by (simp add: peer_hist_def deliver_def)
  have t: "currentTerm (raft ?p) = term_at c i" using rf1(1) by (simp add: deliver_def)
  then have "(term_at c)(i := currentTerm (raft ?p)) = term_at c" by auto
  then show "history (servers c) ((term_at c)(i := currentTerm (raft ?p))) H" using agreesD(2) [OF inv(1)] by simp
  show "term_at c i \<le> currentTerm (raft ?p)" using t by simp
  show "T \<in> led H \<longleftrightarrow> (\<exists>j. elected c' j T)" for T using agreesD(1) [OF inv(1)] same(2) by simp
  show "state (raft ?p) = CANDIDATE \<Longrightarrow> state ?rf = CANDIDATE \<and> log (raft ?p) = log ?rf"
    using rf1(1) by (simp add: deliver_def)
qed (use hb same(1) in simp_all)

lemma still_nextIndex:
  assumes "raft_ok (raft p)" "length ni = peers (raft p)"
  shows "still p (p\<lparr>raft := (raft p)\<lparr>nextIndex := ni\<rparr>\<rparr>)"
  using raft_ok_nextIndex [OF assms] by (cases "state (raft p)") (simp_all add: still_def)

text \<open>A reply that acknowledges nothing.\<close>

lemma still_reply:
  assumes ok: "raft_ok (raft p)" and q: "0 \<le> q" "q < int (peers (raft p))"
    and r: "sendHeartBeat_reply q s r (raft p) = Inr rf"
    and no: "killed (raft p) \<or> \<not> s \<or> state (raft p) \<noteq> LEADER \<or> aeReplyTerm r > currentTerm (raft p) \<or> \<not> Success r"
  shows "still p (p\<lparr>raft := rf\<rparr>)"
proof -
  let ?rf = "raft p"
  consider "rf = ?rf" | "currentTerm ?rf < aeReplyTerm r" "rf = TurnFollower (aeReplyTerm r) NULL ?rf"
    | "rf = ?rf\<lparr>nextIndex := (nextIndex ?rf)[nat q := nextIndex ?rf ! nat q - 1]\<rparr>"
    using sendHeartBeat_reply_cases [OF ok q, of s r] no unfolding r by (auto split: if_splits)
  then show ?thesis
  proof cases
    case 1
    then show ?thesis using ok by (intro still_same) simp_all
  next
    case 2
    then show ?thesis using still_TurnFollower(2) [OF ok 2(1)] by simp
  next
    case 3
    then show ?thesis using still_nextIndex [OF ok] raft_okD(3) [OF ok] by simp
  qed
qed

text \<open>A reply that acknowledges exactly the leader's log: the callee had this log in the leader's term.\<close>

lemma exact_reply_held:
  assumes c: "call_hist n H h" "hbState h = HB_Returned a True r" "Success r"
    and a: "acks_exactly a rf" and l: "line H (currentTerm rf) = log rf"
  shows "\<exists>l. (hbTo h, currentTerm rf, l) \<in> held H \<and> prefix (log rf) l"
proof -
  obtain g l' where g: "cut_from g a" "prefix g (line H (aeTerm a))" "(hbTo h, aeTerm a, l') \<in> held H" "prefix g l'"
    using c unfolding call_hist_def by auto
  have "length g = length (log rf)" and t: "aeTerm a = currentTerm rf"
    using a g(1) by (auto simp: acks_exactly_def cut_from_def len_def)
  then have "g = log rf" using g(2) l by (auto simp: prefix_def)
  then show ?thesis using g(3,4) t by auto
qed

lemma agrees_heartbeat_return:
  assumes inv: "agrees H c" "es_inv c" and leg: "careful (HeartBeatReturn k) c"
    and st: "cluster_step (HeartBeatReturn k) c = Some (Inr (u, c'))"
  shows "\<exists>H'. agrees H' c'"
proof -
  let ?h = "heartbeats c ! k" let ?i = "hbFrom ?h" let ?q = "hbTo ?h" let ?rf = "rf_at c ?i"
  have k: "k < length (heartbeats c)" using st by (auto split: if_splits)
  then have mem: "?h \<in> set (heartbeats c)" by simp
  then have i: "?i \<in> nodes c" and q: "?q \<in> nodes c" using inv(2) by (simp_all add: es_inv_def heartbeat_ok_def)
  obtain a s r where old: "hbState ?h = HB_Returned a s r"
    using st k by (auto simp: Let_def split: hb_goroutine.splits)
  obtain rf where r: "sendHeartBeat_reply ?q s r ?rf = Inr rf"
    and c': "c' = set_heartbeat k HB_Done (c\<lparr>procs := (procs c)(?i := (procs c ?i)\<lparr>raft := rf\<rparr>)\<rparr>)"
    using st k old by (auto simp: Let_def map_res_Inr dest!: on_procD)
  let ?p = "(procs c ?i)\<lparr>raft := rf\<rparr>"
  have sel: "servers c' = servers c" "procs c' = (procs c)(?i := ?p)" "elections c' = elections c"
    "\<And>i t. elected c' i t \<longleftrightarrow> elected c i t"
    by (simp_all add: c')
  have hbs: "h \<in> set (heartbeats c) \<or> call_hist n H' h" if "h \<in> set (heartbeats c')" for h n H'
    using that set_heartbeat_mem call_hist_done unfolding c' by fastforce
  note ok = raft_ok_at [OF inv(1) i]
  have q': "0 \<le> ?q" "?q < int (peers ?rf)" using q es_inv_at(2) [OF inv(2) i] by (simp_all add: nodes_def)
  have p0: "promoting (procs c ?i) = 0"
    using no_promotion [of "HeartBeatReturn k" c ?i] leg i by (simp add: careful_def)
  show ?thesis
  proof (cases "killed ?rf \<or> \<not> s \<or> state ?rf \<noteq> LEADER \<or> aeReplyTerm r > currentTerm ?rf \<or> \<not> Success r")
    case True
    let ?H = "noted ?i (currentTerm (raft ?p)) (log (raft ?p)) H"
    have "agrees ?H c'"
      by (rule agrees_still [OF inv(1) i sel(1,2) still_reply [OF ok q' r True] sel(4)]) (use hbs sel(3) in auto)
    then show ?thesis by blast
  next
    case False
    let ?rf1 = "?rf\<lparr>nextIndex := (nextIndex ?rf)[nat ?q := len (log ?rf)],
                   matchIndex := (matchIndex ?rf)[nat ?q := len (log ?rf) - 1]\<rparr>"
    obtain x where x: "rf = deliver x ?rf1" "commitIndex ?rf \<le> x"
      "x = commitIndex ?rf \<or> x < len (log ?rf) \<and> replicas x ?rf1 > int (peers ?rf div 2)"
      using sendHeartBeat_reply_cases [OF ok q', of s r] False unfolding r by (auto simp: Let_def)
    have right: "acks_exactly a ?rf" "commits_own ?q s r ?rf"
      using leg False old by (simp_all add: careful_def Let_def)
    then have own: "x = commitIndex ?rf \<or> entryTerm (log ?rf ! nat x) = term_at c ?i"
      unfolding commits_own_def r by (simp add: x(1) deliver_def)
    note lead = peer_histD(4,7) [OF agreesD(3) [OF inv(1) i]]
    have st: "state ?rf = LEADER" "s" "Success r" using False by simp_all
    obtain l where l: "(?q, term_at c ?i, l) \<in> held H" "prefix (log ?rf) l"
      using exact_reply_held [OF agreesD(4) [OF inv(1) mem] _ st(3) right(1) lead(1) [OF st(1)]] old st(2) by auto
    have "acked H ?rf1" using lead(2) [OF st(1) p0] q' ok l by (rule acked_reply)
    moreover have "raft_ok ?rf1" using raft_okD(3,4) [OF ok] by (intro raft_ok_indices ok) simp_all
    ultimately have "agrees H c'"
      using x own sel hbs by (intro agrees_commit [OF inv i st(1) p0 refl, where x = x]) auto
    then show ?thesis by blast
  qed
qed

section \<open>Every careful step keeps the invariant\<close>

definition agree_inv :: "'c Cluster \<Rightarrow> bool" where
  "agree_inv c \<longleftrightarrow> match_inv c \<and> (\<exists>H. agrees H c)"

lemma agrees_failed_call:
  assumes A: "agrees H c" and i: "i \<in> nodes c"
    and procs: "servers c' = servers c" "procs c' = procs c" and same: "\<And>j t. elected c' j t \<longleftrightarrow> elected c j t"
    and hb: "\<And>h H'. h \<in> set (heartbeats c') \<Longrightarrow> h \<in> set (heartbeats c) \<or> call_hist (servers c) H' h"
    and el: "\<And>e. e \<in> set (elections c') \<Longrightarrow> \<exists>e0 \<in> set (elections c). eargs e = eargs e0 \<and> cand e = cand e0 \<and> voters e \<subseteq> voters e0"
  shows "agrees H c'"
proof (rule agrees_change [OF A i procs(1), where p = "procs c i"])
  show "procs c' = (procs c)(i := procs c i)" using procs(2) by simp
  have "(term_at c)(i := term_at c i) = term_at c" by auto
  then show "history (servers c) ((term_at c)(i := term_at c i)) H" using agreesD(2) [OF A] by simp
  show "T \<in> led H \<longleftrightarrow> (\<exists>j. elected c' j T)" for T using agreesD(1) [OF A] same by simp
  show "e \<in> set (elections c) \<or> election_hist c' H e" if e: "e \<in> set (elections c')" for e
  proof -
    obtain e0 where e0: "e0 \<in> set (elections c)" "eargs e = eargs e0" "cand e = cand e0" "voters e \<subseteq> voters e0"
      using el [OF e] by blast
    have "election_hist c H e0" using agreesD(5) [OF A e0(1)] .
    then have "election_hist c H e" by (rule election_hist_votes) (use e0 in auto)
    then show ?thesis using procs(2) by (simp add: election_hist_def)
  qed
qed (use A i hb grows_refl agreesD(3) in auto)

lemma agree_inv_step:
  assumes "agree_inv c" "careful a c" and st: "cluster_step a c = Some (Inr (u, c'))"
  shows "agree_inv c'"
proof -
  have ord: "orderly a c" using assms(2) by (simp add: careful_def)
  have m': "match_inv c'" using assms(1) ord st by (auto simp: agree_inv_def intro: match_inv_step)
  obtain H where A: "agrees H c" and es: "es_inv c" "winner_leads c" "es_inv c'"
    using assms(1) m' by (auto simp: agree_inv_def match_inv_def)
  have "\<exists>H'. agrees H' c'"
  proof (cases a)
    case (Local i e)
    show ?thesis
    proof (cases "\<exists>cmd. e = E_Start cmd")
      case True
      then show ?thesis using agrees_start [OF A es(1)] st Local by (auto simp del: cluster_step.simps)
    next
      case False
      then show ?thesis using agrees_local [OF A es(1)] st Local by (simp only:) blast
    qed
  next
    case (CallVote k j b)
    then show ?thesis using agrees_call_vote [OF A es(1)] st by (simp only:)
  next
    case (FailVote k j)
    let ?g = "Returned False RequestVoteReply_zero"
    have k: "k < length (elections c)" "votes (elections c ! k) j = Calling" and c': "c' = set_vote k j ?g c"
      using st FailVote by (auto split: if_splits)
    have "agrees H c'"
    proof (rule agrees_failed_call [OF A called_node [OF es(1) k]])
      fix e assume "e \<in> set (elections c')"
      then have "e \<in> set (elections c) \<or> e = (elections c ! k)\<lparr>votes := (votes (elections c ! k))(j := ?g)\<rparr>"
        using set_update_subset_insert [of "elections c" k] unfolding c' set_vote_def Let_def by fastforce
      moreover have "elections c ! k \<in> set (elections c)" using k(1) by simp
      ultimately show "\<exists>e0 \<in> set (elections c). eargs e = eargs e0 \<and> cand e = cand e0 \<and> voters e \<subseteq> voters e0"
        by (force simp: voters_def)
    qed (use k(1) c' in simp_all)
    then show ?thesis by blast
  next
    case (VoteReturn k j)
    then show ?thesis using agrees_vote_return [OF A es] ord st by (simp only:)
  next
    case (HeartBeatCall k)
    then show ?thesis using agrees_heartbeat_call [OF A es(1)] st by (simp only:)
  next
    case (CallAppend k b)
    then show ?thesis using agrees_call_append [OF A es(1)] st by (simp only:)
  next
    case (FailAppend k)
    then obtain args where k: "k < length (heartbeats c)"
      and c': "c' = set_heartbeat k (HB_Returned args False AppendEntriesReply_zero) c"
      using st by (auto split: if_splits hb_goroutine.splits)
    have "hbTo (heartbeats c ! k) \<in> nodes c" using es(1) k by (simp add: es_inv_def heartbeat_ok_def)
    then have "agrees H c'"
    proof (rule agrees_failed_call [OF A])
      show "h \<in> set (heartbeats c) \<or> call_hist (servers c) H' h" if "h \<in> set (heartbeats c')" for h H'
        using that set_heartbeat_mem [of h k] unfolding c' by (fastforce simp: call_hist_def)
    qed (auto simp: c')
    then show ?thesis by blast
  next
    case (HeartBeatReturn k)
    then show ?thesis using agrees_heartbeat_return [OF A es(1)] assms(2) st by (simp only:)
  qed
  with m' show ?thesis by (simp add: agree_inv_def)
qed

interpretation agreement: invariant_machine cluster_step careful agree_inv
  by unfold_locales (rule agree_inv_step)

end
