(* ===== verification/RaftVoting.thy ===== *)
theory RaftVoting
  imports RaftNode
begin

text \<open>
  A vote given in a term binds the voter for this term: the invariant behind it, as a
  machine over all events of one peer, and the requests that reach a peer in a row.
\<close>

definition vote_kept :: "int \<Rightarrow> int \<Rightarrow> 'c Proc \<Rightarrow> bool" where
  "vote_kept t c p \<longleftrightarrow> c \<noteq> NULL \<and>
     (t < currentTerm (raft p) \<or>
      currentTerm (raft p) = t \<and> votedFor (raft p) = c \<and> state (raft p) = FOLLOWER \<and> promoting p = 0)"

lemma vote_kept_core:
  assumes "vote_kept t c p" "core (raft p') = core (raft p)" "promoting p' = promoting p"
  shows "vote_kept t c p'"
  using assms by (simp add: vote_kept_def)

lemma vote_kept_later: "c \<noteq> NULL \<Longrightarrow> t < currentTerm (raft p) \<Longrightarrow> vote_kept t c p"
  by (simp add: vote_kept_def)

lemma vote_kept_maintain:
  assumes "vote_kept t c p" "maintain_step p = Some (Inr (out, p'))"
  shows "vote_kept t c p'"
  using assms
  by (auto simp: maintain_step_def vote_kept_def Let_def map_res_Inr checkElectionTimeout_def TurnCandidate_def
      handleLeader_tick_def split: maintain_pc.splits option.splits if_splits prod.splits)

lemma vote_kept_step:
  assumes v: "vote_kept t c p" and st: "proc_step e p = Some (Inr (out, p'))"
  shows "vote_kept t c p'"
proof (cases e)
  case (E_RequestVote args)
  then obtain reply rf where "RequestVote args (raft p) = Inr (reply, rf)" "p' = p\<lparr>raft := rf\<rparr>"
    using st by (auto simp: map_res_Inr)
  then show ?thesis
    using v RequestVote_core(3,5-9) [of args "raft p" reply rf]
    by (cases "VoteGranted reply"; cases "currentTerm (raft p) = currentTerm rf") (auto simp: vote_kept_def)
next
  case (E_AppendEntries args)
  then obtain reply rf where r: "AppendEntries args (raft p) = Inr (reply, rf)" "p' = p\<lparr>raft := rf\<rparr>"
    using st by (auto simp: map_res_Inr)
  from AppendEntries_core [OF r(1)] show ?thesis
  proof
    assume "core rf = core (raft p)"
    then show ?thesis using v r(2) by (intro vote_kept_core [OF v]) simp_all
  next
    assume "currentTerm (raft p) \<le> aeTerm args \<and> core rf = core (step_down args (raft p))"
    then show ?thesis using v r(2) step_down_cases [of "raft p" args] by (auto simp: vote_kept_def)
  qed
next
  case (E_Start cmd)
  then show ?thesis using st v by (auto simp: map_res_Inr vote_kept_def dest!: Start_core)
next
  case E_Maintain
  then show ?thesis using st v vote_kept_maintain by auto
next
  case (E_VoteReply success reply n)
  then show ?thesis
    using st v by (auto simp: sendvote_def Let_def TurnFollower_def vote_kept_def split: prod.splits if_splits)
next
  case E_Promote
  then show ?thesis
    using st v by (auto simp: map_res_Inr vote_kept_def dest!: TurnLeader_locked_core split: if_splits)
next
  case (E_HeartBeatReply peer success reply)
  then show ?thesis
    using st v by (auto simp: map_res_Inr vote_kept_def TurnFollower_def dest!: heartbeat_reply_core)
qed (use st v in \<open>auto simp: map_res_Inr vote_kept_def Kill_def TurnLeader_unlocked_def split: if_splits\<close>)

interpretation vote: invariant_machine proc_step any_event "vote_kept t c" for t c
  by unfold_locales (rule vote_kept_step)

text \<open>Granting a vote as a follower establishes it; afterwards only the same candidate is granted it.\<close>

lemma vote_kept_granted:
  assumes "RequestVote args (raft p) = Inr (reply, rf)" "VoteGranted reply" "state (raft p) = FOLLOWER"
    "promoting p = 0" "CandidateId args \<noteq> NULL"
  shows "vote_kept (rvTerm args) (CandidateId args) (p\<lparr>raft := rf\<rparr>)"
  using assms RequestVote_core(7,8,11) [OF assms(1)] by (simp add: vote_kept_def)

lemma vote_kept_same:
  assumes "vote_kept t c p" "RequestVote args (raft p) = Inr (reply, rf)" "VoteGranted reply" "rvTerm args = t"
  shows "CandidateId args = c"
  using assms RequestVote_core(3,7,9) [OF assms(2)] by (auto simp: vote_kept_def)

end
