(* ===== verification/RaftProperties.thy ===== *)
theory RaftProperties
  imports RaftSafety RaftVoting
begin

text \<open>
  The properties of the Raft peers and of the cluster, each with a run of the model at
  which it applies, and the schedules that show where the code departs from Raft.
\<close>

section \<open>Runs\<close>

text \<open>Peer \<open>i\<close> times out, notices it and starts an election.\<close>

definition timeout_of :: "int \<Rightarrow> 'c action list" where
  "timeout_of i = [Local i E_FireElection, Local i E_Maintain, Local i E_Maintain, Local i E_Maintain]"

text \<open>Peer 0 is elected with the vote of peer 1.\<close>

definition elect_run :: "nat action list" where
  "elect_run = timeout_of 0 @ [CallVote 0 1 True, VoteReturn 0 1, Local 0 E_Promote]"

definition final :: "'c Cluster res option \<Rightarrow> 'c Cluster" where
  "final r = (case r of Some (Inr c) \<Rightarrow> c | _ \<Rightarrow> init_cluster 0)"

definition panics :: "'s res option \<Rightarrow> go_error option" where
  "panics r = (case r of Some (Inl e) \<Rightarrow> Some e | _ \<Rightarrow> None)"

text \<open>A peer's term if it is a leader.\<close>

definition leads :: "'c Cluster \<Rightarrow> int \<Rightarrow> int option" where
  "leads c i = (if state (rf_at c i) = LEADER then Some (currentTerm (rf_at c i)) else None)"

definition done_run :: "'c Cluster res option \<Rightarrow> bool" where
  "done_run r = (case r of Some (Inr c) \<Rightarrow> True | _ \<Rightarrow> False)"

lemma done_run_final: "done_run r \<Longrightarrow> r = Some (Inr (final r))"
  by (auto simp: done_run_def final_def split: option.splits sum.splits)

section \<open>Elections\<close>

text \<open>C2: in every run in which no goroutine enters the gap between winning an election and
  \<open>TurnLeader\<close> and no vote of an older election is counted, two peers that lead in the
  same term are the same peer, whatever is lost, delayed or reordered.\<close>

theorem orderly_one_leader:
  assumes "runs cluster_step orderly acts (init_cluster k) = Some (Inr c)"
    and "i \<in> {0..<int (servers c)}" "j \<in> {0..<int (servers c)}"
    and "leads c i = Some t" "leads c j = Some t"
  shows "i = j"
proof -
  have "es_inv c" using election_safety.runs_inv [OF es_inv_init assms(1)] .
  then show ?thesis
    using assms(2-5) one_leader [of c i j] by (auto simp: leads_def nodes_def split: if_splits)
qed

theorem orderly_one_leader_witness:
  "leads (final (runs cluster_step orderly elect_run (init_cluster 3))) 0 = Some 1 \<and>
   \<not> leads (final (runs cluster_step orderly elect_run (init_cluster 3))) 1 = Some 1"
proof -
  have d: "done_run (runs cluster_step orderly elect_run (init_cluster 3))" by code_simp
  have l: "leads (final (runs cluster_step orderly elect_run (init_cluster 3))) 0 = Some 1" by code_simp
  have s: "servers (final (runs cluster_step orderly elect_run (init_cluster 3))) = 3" by code_simp
  show ?thesis
    using orderly_one_leader [OF done_run_final [OF d], of 0 1 1] l s by auto
qed

text \<open>C8: \<open>RequestVote\<close> always returns; it grants the vote exactly when the peer is alive,
  the term is new or the vote of this term is free or already the candidate's, and the
  candidate's log is at least as up to date; a granted vote is recorded with the term and
  restarts the election timer, and the log is never touched.\<close>

theorem vote_rule:
  assumes "raft_ok rf"
  shows "\<exists>reply rf'. RequestVote args rf = Inr (reply, rf') \<and> log rf' = log rf \<and>
    (VoteGranted reply \<longleftrightarrow> \<not> killed rf \<and> may_vote args rf \<and> up_to_date args rf) \<and>
    (VoteGranted reply \<longrightarrow> currentTerm rf' = rvTerm args \<and> votedFor rf' = CandidateId args \<and>
       electionTimer rf' = timer_New)"
proof -
  obtain reply rf' where r: "RequestVote args rf = Inr (reply, rf')" "raft_ok rf'"
    using RequestVote_returns [OF assms] by blast
  note ne = raft_okD(5) [OF assms]
  have "raft_ok (adopt_term args rf)" using assms by (rule inv_intros)
  then have "VoteGranted reply \<Longrightarrow> electionTimer rf' = timer_New"
    using r(1) ne resetTimer_fresh [OF raft_okD(12)]
    by (auto simp: RequestVote_cases RequestVoteReply_zero_def split: if_splits)
  then show ?thesis
    using r(1) RequestVote_frame(1) [OF ne r(1)] RequestVote_grants [OF ne r(1)]
      RequestVote_granted_state [OF ne r(1)] by blast
qed

theorem vote_rule_witness:
  "VoteGranted (fst (projr (RequestVote \<lparr>rvTerm = 1, CandidateId = 1, LastLogIndex = 0, LastLogTerm = 0\<rparr>
     (Make 3 0 :: nat Raft))))"
proof -
  have ok: "raft_ok (Make 3 0 :: nat Raft)" by (rule raft_ok_Make) simp_all
  from vote_rule [OF ok, of "\<lparr>rvTerm = 1, CandidateId = 1, LastLogIndex = 0, LastLogTerm = 0\<rparr>"]
  show ?thesis by (auto simp: may_vote_def up_to_date_def Make_def killed_def len_def)
qed

text \<open>C9: a peer that granted its vote of a term to a candidate (a peer, not the null vote) while it
  was a follower, with no promotion pending (no election of its own won for which \<open>TurnLeader\<close>
  has still to run), never grants it to another candidate of this term, whatever events it goes
  through in between: requests, replies, timers, elections of its own, even its death.\<close>

theorem one_vote_per_term:
  assumes "RequestVote args1 (raft p) = Inr (reply1, rf1)" "VoteGranted reply1"
    and "state (raft p) = FOLLOWER" "promoting p = 0" "CandidateId args1 \<noteq> NULL"
    and "runs proc_step any_event es (p\<lparr>raft := rf1\<rparr>) = Some (Inr p')"
    and "RequestVote args2 (raft p') = Inr (reply2, rf2)" "VoteGranted reply2" "rvTerm args2 = rvTerm args1"
  shows "CandidateId args2 = CandidateId args1"
  using vote_kept_same [OF vote.runs_inv [OF vote_kept_granted [OF assms(1-5)] assms(6)] assms(7-9)] .

definition ask :: "int \<Rightarrow> int \<Rightarrow> RequestVoteArgs" where
  "ask t c = \<lparr>rvTerm = t, CandidateId = c, LastLogIndex = 0, LastLogTerm = 0\<rparr>"

theorem one_vote_per_term_witness:
  "\<exists>reply rf p'. RequestVote (ask 1 1) (Make 3 0 :: nat Raft) = Inr (reply, rf) \<and> VoteGranted reply \<and>
     runs proc_step any_event [E_FireElection] ((spawn 3 0)\<lparr>raft := rf\<rparr>) = Some (Inr p') \<and>
     \<not> (\<exists>reply2 rf2. RequestVote (ask 1 2) (raft p') = Inr (reply2, rf2) \<and> VoteGranted reply2)"
proof -
  let ?p = "spawn 3 0 :: nat Proc"
  obtain reply rf where r: "RequestVote (ask 1 1) (raft ?p) = Inr (reply, rf)" "VoteGranted reply"
    by (simp add: spawn_def RequestVote_cases Make_def may_vote_def up_to_date_def ask_def killed_def len_def)
  obtain p' where p': "runs proc_step any_event [E_FireElection] (?p\<lparr>raft := rf\<rparr>) = Some (Inr p')"
    by (simp add: any_event_def)
  have "\<not> VoteGranted reply2" if "RequestVote (ask 1 2) (raft p') = Inr (reply2, rf2)" for reply2 rf2
    using one_vote_per_term [OF r _ _ _ p' that] by (auto simp: spawn_def Make_def ask_def NULL_def)
  with r p' show ?thesis by (force simp: spawn_def)
qed

section \<open>Log replication\<close>

text \<open>C10: on well-formed arguments \<open>AppendEntries\<close> returns. It accepts exactly when the
  peer is alive, the request is not of an older term and the entry before the new ones is
  the leader's. An accepted request installs the reference merge of the log and the new
  new entries, raises the commit index to the leader's, and sends on the apply channel, in order,
  one message for each entry of the new log after the last one applied and up to the commit
  index; a rejected one leaves log and commit index alone and sends nothing.\<close>

theorem append_entries_spec:
  assumes "raft_ok rf" "wf_args args"
  shows "\<exists>reply rf'. AppendEntries args rf = Inr (reply, rf') \<and>
    (Success reply \<longleftrightarrow> \<not> killed rf \<and> currentTerm rf \<le> aeTerm args \<and> log_matches args (log rf)) \<and>
    log rf' = (if Success reply then follower_log args (log rf) else log rf) \<and>
    commitIndex rf' = (if Success reply then max (commitIndex rf) (LeaderCommit args) else commitIndex rf) \<and>
    applyMsgCh rf' = applyMsgCh rf @ (if Success reply
      then map (\<lambda>k. \<lparr>CommandValid = True, ApplyCommand = Command (log rf' ! k), CommandIndex = int k\<rparr>)
             [Suc (nat (lastApplied rf))..<Suc (nat (commitIndex rf'))]
      else []) \<and>
    (\<not> killed rf \<longrightarrow> lastApplied rf' = commitIndex rf')"
  using AppendEntries_cases [OF assms] raft_okD(10) [OF assms(1)]
  by (auto simp: AppendEntriesReply_zero_def deliver_def entry_msg_def simp del: upt_Suc)

definition entry :: "int \<Rightarrow> nat \<Rightarrow> nat LogEntry" where
  "entry t c = \<lparr>entryTerm = t, Command = Some c\<rparr>"

definition send :: "int \<Rightarrow> int \<Rightarrow> int \<Rightarrow> nat LogEntry list \<Rightarrow> int \<Rightarrow> nat AppendEntriesArgs" where
  "send t prev prevterm es lc = \<lparr>aeTerm = t, LeaderId = 1, PrevLogIndex = prev, PrevLogTerm = prevterm,
     Entries = es, LeaderCommit = lc\<rparr>"

theorem append_entries_spec_witness:
  "\<exists>reply rf'. AppendEntries (send 1 0 0 [entry 1 7, entry 1 8] 1) (Make 3 0) = Inr (reply, rf') \<and>
     Success reply \<and> length (log rf') = 3 \<and> commitIndex rf' = 1"
proof -
  have ok: "raft_ok (Make 3 0 :: nat Raft)" by (rule raft_ok_Make) simp_all
  have wf: "wf_args (send 1 0 0 [entry 1 7, entry 1 8] 1)" by (simp add: wf_args_def send_def)
  from append_entries_spec [OF ok wf] show ?thesis
    by (auto simp: send_def Make_def killed_def log_matches_def len_def follower_log_def Let_def entry_def)
qed

lemma append_entries_spec_raw:
  assumes "raft_ok rf" "wf_args args" "AppendEntries args rf = Inr (reply, rf')" "Success reply"
  shows "log rf' = follower_log args (log rf)" "log_matches args (log rf)" "\<not> killed rf"
    "currentTerm rf' = aeTerm args" "killed rf' = killed rf"
  using AppendEntries_cases [OF assms(1,2)] assms(3,4)
  by (auto simp: AppendEntriesReply_zero_def deliver_def step_down_term killed_def split: if_splits)

text \<open>After an accepted request the log holds, from the index after \<open>PrevLogIndex\<close> on,
  entries with exactly the terms the leader sent, and the entries up to \<open>PrevLogIndex\<close> are
  the old ones; nothing the follower had beyond the sent entries is lost if what it had
  agreed with them.\<close>

lemma accepted_log_agrees:
  assumes "raft_ok rf" "wf_args args" "AppendEntries args rf = Inr (reply, rf')" "Success reply"
  shows "let p = Suc (nat (PrevLogIndex args)) in
    take p (log rf') = take p (log rf) \<and>
    map entryTerm (take (length (Entries args)) (drop p (log rf'))) = map entryTerm (Entries args) \<and>
    (map entryTerm (take (length (Entries args)) (drop p (log rf))) = map entryTerm (Entries args) \<longrightarrow>
       log rf' = log rf)"
proof -
  let ?p = "Suc (nat (PrevLogIndex args))"
  have lg: "log rf' = take ?p (log rf) @ merge_entries (drop ?p (log rf)) (Entries args)"
    and m: "log_matches args (log rf)"
    using append_entries_spec_raw [OF assms] by (auto simp: follower_log_def Let_def)
  have "nat (PrevLogIndex args) < length (log rf)"
    using m assms(2) by (simp add: log_matches_def wf_args_def len_def nat_less_iff)
  then have len: "length (take ?p (log rf)) = ?p" by simp
  have same: "merge_entries xs es = xs" if "map entryTerm (take (length es) xs) = map entryTerm es"
    for xs es :: "'a LogEntry list"
    using that by (induction xs es rule: merge_entries.induct) auto
  show ?thesis
    using len merge_entries_terms [of "Entries args" "drop ?p (log rf)"] same [of "Entries args" "drop ?p (log rf)"]
    by (simp add: Let_def lg del: length_take)
qed

text \<open>A delayed or duplicated request is harmless: after a request was accepted, one of the
  same term with the same previous index and a prefix of the same entries is accepted and
  leaves the log as it is.\<close>

theorem stale_append_keeps_log:
  assumes "raft_ok rf" "wf_args args" "AppendEntries args rf = Inr (reply, rf1)" "Success reply"
    and "Entries args = Entries args2 @ es" "PrevLogIndex args2 = PrevLogIndex args"
    and "PrevLogTerm args2 = PrevLogTerm args" "aeTerm args2 = aeTerm args" "wf_args args2"
  shows "\<exists>reply2 rf2. AppendEntries args2 rf1 = Inr (reply2, rf2) \<and> Success reply2 \<and> log rf2 = log rf1"
proof -
  let ?p = "Suc (nat (PrevLogIndex args))"
  have lg: "log rf1 = take ?p (log rf) @ merge_entries (drop ?p (log rf)) (Entries args)"
    and acc: "\<not> killed rf" "currentTerm rf1 = aeTerm args" "killed rf1 = killed rf" "log_matches args (log rf)"
    using append_entries_spec_raw [OF assms(1-4)] by (auto simp: follower_log_def Let_def)
  have ok1: "raft_ok rf1" using AppendEntries_returns [OF assms(1,2)] assms(3) by auto
  have p: "0 \<le> PrevLogIndex args" "PrevLogIndex args < len (log rf)" and len: "length (take ?p (log rf)) = ?p"
    using acc(4) assms(2) by (auto simp: log_matches_def wf_args_def len_def)
  have at: "log rf1 ! nat (PrevLogIndex args) = log rf ! nat (PrevLogIndex args)"
    using p len by (simp add: lg nth_append len_def)
  have "PrevLogIndex args < len (log rf1)"
    using p(1) len by (simp add: lg len_def del: length_take)
  then have m: "log_matches args2 (log rf1)"
    using acc(4) assms(6,7) at by (simp add: log_matches_def)
  have "follower_log args2 (log rf1) = log rf1"
    using len assms(5,6) merge_entries_absorb [of "drop ?p (log rf)" "Entries args2" es]
    by (simp add: follower_log_def Let_def lg del: length_take)
  then show ?thesis
    using AppendEntries_cases [OF ok1 assms(9)] acc m assms(8) by (simp add: deliver_def)
qed

theorem stale_append_keeps_log_witness:
  "\<exists>reply rf1 reply2 rf2. AppendEntries (send 1 0 0 [entry 1 7, entry 1 8] 0) (Make 3 0) = Inr (reply, rf1) \<and>
     AppendEntries (send 1 0 0 [entry 1 7] 0) rf1 = Inr (reply2, rf2) \<and> log rf2 = log rf1 \<and> length (log rf2) = 3"
proof -
  have ok: "raft_ok (Make 3 0 :: nat Raft)" by (rule raft_ok_Make) simp_all
  have wf: "wf_args (send 1 0 0 [entry 1 7, entry 1 8] 0)" "wf_args (send 1 0 0 [entry 1 7] 0)"
    by (simp_all add: wf_args_def send_def)
  obtain reply rf1 where r: "AppendEntries (send 1 0 0 [entry 1 7, entry 1 8] 0) (Make 3 0) = Inr (reply, rf1)"
    "Success reply" "length (log rf1) = 3"
    using AppendEntries_cases [OF ok wf(1)]
    by (simp add: send_def Make_def killed_def log_matches_def len_def follower_log_def Let_def)
  from stale_append_keeps_log [OF ok wf(1) r(1,2) _ _ _ _ wf(2), of "[entry 1 8]"] r show ?thesis
    by (force simp: send_def)
qed

text \<open>The commit index is capped at the length of the log instead of its last index: an
  accepted request whose leader commit lies beyond the resulting log panics in
  \<open>applymsg\<close>, after the log was changed and under the lock.\<close>

theorem commit_beyond_log_panics:
  assumes "raft_ok rf" "\<not> killed rf" "0 \<le> PrevLogIndex args" "currentTerm rf \<le> aeTerm args"
    and "log_matches args (log rf)" "commitIndex rf < len (follower_log args (log rf))"
    and "len (follower_log args (log rf)) \<le> LeaderCommit args"
  shows "AppendEntries args rf = Inl Index_out_of_range"
proof -
  let ?lg = "follower_log args (log rf)"
  let ?rf1 = "step_down args rf"
  let ?rf2 = "?rf1\<lparr>log := ?lg\<rparr>"
  have P: "PrevLogIndex args < len (log rf)" using assms(5) by (simp add: log_matches_def)
  have new: "append_new args ?rf1 = Inr ?rf2"
    using append_new_merge [of args ?rf1] P assms(3) by (simp add: follower_log_def Let_def)
  have over: "apply_loop n r = Inl Index_out_of_range" if "commitIndex r = len (log r)" "0 < n" for n and r :: "'a Raft"
    using that
  proof (induction n arbitrary: r)
    case (Suc n)
    show ?case
    proof (cases "idx (log r) (commitIndex r + 1 - int (Suc n))")
      case (Inl e)
      then show ?thesis by (auto simp: idx_def split: if_splits)
    next
      case (Inr e)
      then have "0 < n" using Suc.prems by (cases n) (auto simp: idx_def split: if_splits)
      with Inr Suc show ?thesis by (simp add: Let_def)
    qed
  qed simp
  have c: "advance_commit (LeaderCommit args) ?rf2 = ?rf2\<lparr>commitIndex := len ?lg\<rparr>"
    using assms(6,7) by (auto simp: advance_commit_def Min_def)
  have "applymsg (?rf2\<lparr>commitIndex := len ?lg\<rparr>) = Inl Index_out_of_range"
    using over [of "?rf2\<lparr>commitIndex := len ?lg\<rparr>" "nat (len ?lg - lastApplied rf)"] assms(2,6) raft_okD(10) [OF assms(1,2)]
    by (simp add: applymsg_def killed_def)
  then show ?thesis
    using assms(2,4,5) P assms(3) new c
    by (simp add: AppendEntries_def Let_def idx_in log_matches_def step_down_term)
qed

theorem commit_beyond_log_panics_witness:
  "AppendEntries (send 1 0 0 [entry 1 7] 2) (Make 3 0) = Inl Index_out_of_range"
proof (rule commit_beyond_log_panics)
  show "raft_ok (Make 3 0 :: nat Raft)" by (rule raft_ok_Make) simp_all
qed (simp_all add: send_def Make_def killed_def log_matches_def len_def follower_log_def Let_def)

section \<open>A peer through any legal sequence of events\<close>

definition peer_run :: "nat event list" where
  "peer_run = [E_AppendEntries (send 1 0 0 [entry 1 7, entry 1 8] 1), E_Kill, E_FireElection,
     E_AppendEntries (send 1 2 1 [entry 1 9] 3)]"

text \<open>C12: as long as the arguments it receives are well formed and a leader's next indices
  stay within its log, no sequence of events makes a peer panic; and what it has delivered
  on its apply channel is, at every moment, the sequence of messages with the indices 1, 2,
  ... up to \<open>lastApplied\<close>, all of them marked valid.\<close>

theorem peer_safe:
  assumes "runs proc_step legal_event es (spawn k i) = Some r" "0 \<le> i" "i < int k"
  shows "\<exists>p. r = Inr p \<and> list_all CommandValid (applyMsgCh (raft p)) \<and>
    map CommandIndex (applyMsgCh (raft p)) = map int [1..<Suc (nat (lastApplied (raft p)))] \<and>
    (\<not> killed (raft p) \<longrightarrow> lastApplied (raft p) = commitIndex (raft p))"
proof -
  have "raft_ok (raft (spawn k i :: 'a Proc))" using assms(2,3) by (simp add: spawn_def raft_ok_Make)
  from peer.runs_safe [OF this assms(1)] obtain p where "r = Inr p" "raft_ok (raft p)" by blast
  then show ?thesis by (auto simp: raft_ok_def delivered_in_order_def)
qed

theorem peer_safe_witness:
  "\<exists>p. runs proc_step legal_event peer_run (spawn 3 0) = Some (Inr p) \<and>
     map CommandIndex (applyMsgCh (raft p)) = map int [1..<Suc (nat (lastApplied (raft p)))]"
proof -
  have "\<not> Option.is_none (runs proc_step legal_event peer_run (spawn 3 0))" by code_simp
  then obtain r where "runs proc_step legal_event peer_run (spawn 3 0) = Some r"
    by (auto simp: Option.is_none_def)
  from peer_safe [OF this] this show ?thesis by auto
qed

text \<open>Along every legal sequence of events the term and the commit index of a peer never
  decrease.\<close>

theorem peer_monotone:
  assumes "raft_ok (raft p)" "runs proc_step legal_event es p = Some (Inr p')"
  shows "currentTerm (raft p) \<le> currentTerm (raft p') \<and> commitIndex (raft p) \<le> commitIndex (raft p')"
  using peer_term.runs_level [OF assms] peer_commit.runs_level [OF assms] by simp

theorem peer_monotone_witness:
  "\<exists>p. runs proc_step legal_event peer_run (spawn 3 0) = Some (Inr p) \<and> 0 \<le> commitIndex (raft p)"
proof -
  have ok: "raft_ok (raft (spawn 3 0 :: nat Proc))" by (simp add: spawn_def raft_ok_Make)
  have "case runs proc_step legal_event peer_run (spawn 3 0) of Some (Inr p) \<Rightarrow> True | _ \<Rightarrow> False" by code_simp
  then obtain p where p: "runs proc_step legal_event peer_run (spawn 3 0) = Some (Inr p)"
    by (auto split: option.splits sum.splits)
  from peer_monotone [OF ok p] p show ?thesis by (auto simp: spawn_def Make_def)
qed

text \<open>C11: the commit rule. A leader that processes a positive reply from peer \<open>j\<close> in its own
  term returns with the commit index raised to the greatest log index that a majority of the
  peers is recorded to hold, if there is one above it, whatever term its entry is of, and sends on
  the apply channel, in order, one message for each entry after the last one applied and up to
  it. The record of \<open>j\<close> is set to the leader's current last index.\<close>

theorem commit_rule:
  assumes "raft_ok rf" "\<not> killed rf" "state rf = LEADER" "0 \<le> j" "j < int (peers rf)"
    and "aeReplyTerm reply \<le> currentTerm rf" "Success reply"
  shows "\<exists>rf'. sendHeartBeat_reply j True reply rf = Inr rf' \<and>
    matchIndex rf' = (matchIndex rf)[nat j := len (log rf) - 1] \<and>
    commitIndex rf \<le> commitIndex rf' \<and> lastApplied rf' = commitIndex rf' \<and> log rf' = log rf \<and>
    applyMsgCh rf' = applyMsgCh rf @
      map (\<lambda>k. \<lparr>CommandValid = True, ApplyCommand = Command (log rf ! k), CommandIndex = int k\<rparr>)
        [Suc (nat (lastApplied rf))..<Suc (nat (commitIndex rf'))] \<and>
    (commitIndex rf < commitIndex rf' \<longrightarrow> commitIndex rf' < len (log rf) \<and>
       2 * card (holders (commitIndex rf') rf') > peers rf) \<and>
    (\<forall>i. commitIndex rf' < i \<and> i < len (log rf) \<longrightarrow> 2 * card (holders i rf') \<le> peers rf)"
proof -
  let ?rf1 = "rf\<lparr>nextIndex := (nextIndex rf)[nat j := len (log rf)],
                 matchIndex := (matchIndex rf)[nat j := len (log rf) - 1]\<rparr>"
  obtain rf' c where r: "sendHeartBeat_reply j True reply rf = Inr rf'" "rf' = deliver c ?rf1"
    "commitIndex rf \<le> c" "c = commitIndex rf \<or> c < len (log rf) \<and> replicas c ?rf1 > int (peers rf div 2)"
    "\<forall>i. c < i \<and> i < len (log rf) \<longrightarrow> replicas i ?rf1 \<le> int (peers rf div 2)"
    using sendHeartBeat_reply_cases [OF assms(1,4,5), of True reply] assms(2,3,6,7)
    by (auto simp: Let_def)
  have h: "holders i rf' = holders i ?rf1" for i by (simp add: r(2) holders_def)
  have "2 * card (holders i rf') > peers rf" if "replicas i ?rf1 > int (peers rf div 2)" for i
    using that unfolding replicas_holders h by linarith
  moreover have "2 * card (holders i rf') \<le> peers rf" if "replicas i ?rf1 \<le> int (peers rf div 2)" for i
    using that unfolding replicas_holders h by linarith
  ultimately show ?thesis
    using r by (intro exI [of _ rf']) (auto simp: deliver_def entry_msg_def simp del: upt_Suc)
qed

definition leader3 :: "nat Raft" where
  "leader3 = (Make 3 0)\<lparr>state := LEADER, currentTerm := 1, votedFor := 0,
     log := [\<lparr>entryTerm = 0, Command = None\<rparr>, entry 1 7], matchIndex := [1, 0, 0], nextIndex := [2, 1, 1]\<rparr>"

theorem commit_rule_witness:
  "\<exists>rf'. sendHeartBeat_reply 1 True \<lparr>aeReplyTerm = 0, Success = True\<rparr> leader3 = Inr rf' \<and> 1 \<le> commitIndex rf'"
proof -
  have ok: "raft_ok leader3"
    by (simp add: raft_ok_def leader3_def Make_def killed_def delivered_in_order_def)
  obtain rf' where r: "sendHeartBeat_reply 1 True \<lparr>aeReplyTerm = 0, Success = True\<rparr> leader3 = Inr rf'"
    "matchIndex rf' = [1, 1, 0]"
    "\<forall>i. commitIndex rf' < i \<and> i < 2 \<longrightarrow> 2 * card (holders i rf') \<le> 3"
    using commit_rule [OF ok, of 1 "\<lparr>aeReplyTerm = 0, Success = True\<rparr>"]
    by (auto simp: leader3_def Make_def killed_def len_def)
  have "1 \<le> commitIndex rf'"
  proof (rule ccontr)
    assume "\<not> 1 \<le> commitIndex rf'"
    moreover have "holders 1 rf' = {0, 1}"
    proof -
      have "{0..<3::int} = {0, 1, 2}" by auto
      then show ?thesis using r(2) by (auto simp: holders_def)
    qed
    ultimately show False using r(3) [rule_format, of 1] by simp
  qed
  with r(1) show ?thesis by blast
qed

section \<open>Timers\<close>

text \<open>Every election timeout is drawn from 200 to 400 milliseconds, above the heartbeat
  interval, whatever the random number; and each role leaves the timers in the state it
  needs: a follower and a candidate have a fresh election timer without a stale tick and a
  stopped heartbeat timer, a new leader a stopped election timer and a fresh heartbeat timer.\<close>

lemma role_timers:
  assumes "raft_ok rf"
  shows "(\<exists>d. randomTimeoutVal r ELECTIONTIMEOUT_MIN ELECTIONTIMEOUT_MAX = Inr d \<and>
      HEARTBEAT_INTERVAL < d \<and> d < 400 * Millisecond) \<and>
    electionTimer (TurnFollower t v rf) = timer_New \<and> \<not> running (heartBeatTimer (TurnFollower t v rf)) \<and>
    electionTimer (TurnCandidate rf) = timer_New \<and> \<not> running (heartBeatTimer (TurnCandidate rf)) \<and>
    (\<exists>rf' ps. TurnLeader rf = Inr (rf', ps) \<and> heartBeatTimer rf' = timer_New \<and>
       \<not> running (electionTimer rf') \<and> set ps = {0..<int (peers rf)} - {me rf})"
proof -
  have "200 + r mod 200 < 400" using pos_mod_bound [of 200 r] by linarith
  then have "\<exists>d. randomTimeoutVal r ELECTIONTIMEOUT_MIN ELECTIONTIMEOUT_MAX = Inr d \<and>
      HEARTBEAT_INTERVAL < d \<and> d < 400 * Millisecond"
    using pos_mod_sign [of 200 r]
    by (simp add: randomTimeoutVal_def ELECTIONTIMEOUT_MIN_def ELECTIONTIMEOUT_MAX_def HEARTBEAT_INTERVAL_def
        Millisecond_def)
  moreover have "set (other_peers rf) = {0..<int (peers rf)} - {me rf}" by (auto simp: other_peers_def)
  ultimately show ?thesis
    using resetTimer_fresh [OF raft_okD(12) [OF assms]] resetTimer_fresh [OF raft_okD(13) [OF assms]]
      TurnLeader_locked_ok [OF assms]
    by (auto simp: TurnFollower_def TurnCandidate_def TurnLeader_def TurnLeader_unlocked_def timer_Stop_def
        other_peers_def)
qed

text \<open>C36: a leader that is deposed while its \<open>maintain\<close> goroutine waits in \<open>handleLeader\<close>, and for
  which no \<open>TurnLeader\<close> is still to run or to arm the heartbeat timer, never takes part in anything
  it starts itself again: \<open>TurnFollower\<close> stopped the timer it waits for, without a tick left, so
  whatever events follow, it stays blocked there, a follower that stands for no election and sends
  no heartbeat. (With the unlocked tail of \<open>TurnLeader\<close> pending, the timer is started again.)\<close>

theorem deposed_leader_stuck:
  assumes "deposed_waiting p" "runs proc_step any_event es p = Some (Inr p')"
  shows "pc p' = WaitHeartBeat \<and> state (raft p') = FOLLOWER \<and> maintain_step p' = None"
  using deposed.runs_inv [OF assms] by (simp add: deposed_waiting_def maintain_step_def handleLeader_tick_def)

definition depose_run :: "nat event list" where
  "depose_run = [E_FireElection, E_Maintain, E_Maintain, E_Maintain,
     E_VoteReply True \<lparr>rvReplyTerm = 1, VoteGranted = True\<rparr> 1, E_Promote, E_Arm, E_Maintain, E_Maintain,
     E_RequestVote (ask 2 1)]"

theorem deposed_leader_stuck_witness:
  "\<exists>p p'. runs proc_step any_event depose_run (spawn 3 0) = Some (Inr p) \<and>
     runs proc_step any_event [E_FireElection, E_FireHeartBeat] p = Some (Inr p') \<and> maintain_step p' = None"
proof -
  have "case runs proc_step any_event depose_run (spawn 3 0) of Some (Inr p) \<Rightarrow> deposed_waiting p | _ \<Rightarrow> False"
    by code_simp
  then obtain p where p: "runs proc_step any_event depose_run (spawn 3 0) = Some (Inr p)" "deposed_waiting p"
    by (auto split: option.splits sum.splits)
  obtain p' where p': "runs proc_step any_event [E_FireElection, E_FireHeartBeat] p = Some (Inr p')"
    by (simp add: any_event_def)
  from deposed_leader_stuck [OF p(2) p'] p(1) p' show ?thesis by blast
qed

section \<open>Schedules that break Raft\<close>

definition stale_vote_run :: "nat action list" where
  "stale_vote_run = timeout_of 0 @ [CallVote 0 1 True] @ timeout_of 0 @ timeout_of 2 @ timeout_of 2 @
     [CallVote 3 1 True, VoteReturn 3 1, Local 2 E_Promote]"

definition race_run :: "nat action list" where
  "race_run = timeout_of 0 @ [CallVote 0 1 True, VoteReturn 0 1] @ timeout_of 2 @ timeout_of 2 @
     [CallVote 2 0 True, VoteReturn 2 0, Local 2 E_Promote]"

text \<open>\<open>TurnLeader\<close> does not look at what has become of the peer since it won.\<close>

lemma promoted:
  assumes "raft_ok (raft p)" "promoting p > 0"
  shows "\<exists>p'. proc_step E_Promote p = Some (Inr (O_None, p')) \<and>
    state (raft p') = LEADER \<and> currentTerm (raft p') = currentTerm (raft p)"
  using assms TurnLeader_locked_ok [OF assms(1)] by simp

lemma promoted_beside_leader:
  assumes "raft_ok (rf_at c i)" "i \<in> {0..<int (servers c)}" "i \<noteq> j" "leads c j = Some t"
    and "currentTerm (rf_at c i) = t" "promoting (procs c i) > 0"
  shows "\<exists>c'. runs cluster_step any_action [Local i E_Promote] c = Some (Inr c') \<and>
    leads c' i = Some t \<and> leads c' j = Some t"
proof -
  obtain p' where "proc_step E_Promote (procs c i) = Some (Inr (O_None, p'))"
    "state (raft p') = LEADER" "currentTerm (raft p') = t"
    using promoted [OF assms(1,6)] assms(5) by auto
  then show ?thesis using assms(2-4) by (auto simp: on_proc_def leads_def any_action_def simp del: proc_step.simps split: if_splits)
qed

text \<open>C35: two races give a term a second leader. In any state of the cluster with a leader of a
  term, another well-formed peer whose current term is this one becomes a leader of it too, first, when it has
  won an election, of whatever term, and \<open>TurnLeader\<close> is still to run, whatever the peer has done
  since (it may have voted for the other one), because the lock was released in between and
  nothing is checked again; second, when it is a live candidate and a vote granted to it in any of
  its elections returns, with a term not ahead of its own, that brings the count of this election to a majority, because the terms of the
  vote and of the candidacy are not compared.\<close>

theorem races_elect_two_leaders:
  assumes "raft_ok (rf_at c i)" "i \<in> {0..<int (servers c)}" "i \<noteq> j" "leads c j = Some t"
    and "currentTerm (rf_at c i) = t"
  shows "(promoting (procs c i) > 0 \<longrightarrow>
      (\<exists>c'. runs cluster_step any_action [Local i E_Promote] c = Some (Inr c') \<and>
         leads c' i = Some t \<and> leads c' j = Some t)) \<and>
    (\<forall>k v reply. k < length (elections c) \<and> cand (elections c ! k) = i \<and>
         votes (elections c ! k) v = Returned True reply \<and> VoteGranted reply \<and> rvReplyTerm reply \<le> t \<and>
         \<not> killed (rf_at c i) \<and> state (rf_at c i) = CANDIDATE \<and>
         voteNum (elections c ! k) + 1 > int (peers (rf_at c i) div 2) \<longrightarrow>
      (\<exists>c'. runs cluster_step any_action [VoteReturn k v, Local i E_Promote] c = Some (Inr c') \<and>
         leads c' i = Some t \<and> leads c' j = Some t))"
proof (intro conjI allI impI)
  fix k v reply
  let ?e = "elections c ! k" and ?p = "procs c i"
  assume vote: "k < length (elections c) \<and> cand ?e = i \<and> votes ?e v = Returned True reply \<and> VoteGranted reply \<and>
    rvReplyTerm reply \<le> t \<and> \<not> killed (rf_at c i) \<and> state (rf_at c i) = CANDIDATE \<and>
    voteNum ?e + 1 > int (peers (rf_at c i) div 2)"
  let ?p' = "?p\<lparr>raft := (raft ?p)\<lparr>state := LEADER\<rparr>, promoting := promoting ?p + 1\<rparr>"
  have won: "sendvote True reply (voteNum ?e) (rf_at c i) = ((rf_at c i)\<lparr>state := LEADER\<rparr>, voteNum ?e + 1, True)"
    using vote assms(5) by (simp add: sendvote_def)
  then have "\<exists>c1. cluster_step (VoteReturn k v) c = Some (Inr ((), c1)) \<and> procs c1 = (procs c)(i := ?p') \<and>
      servers c1 = servers c"
    using vote by (simp add: Let_def on_proc_def count_vote_def set_election_def)
  then obtain c1 where c1: "cluster_step (VoteReturn k v) c = Some (Inr ((), c1))" "procs c1 = (procs c)(i := ?p')"
    "servers c1 = servers c" by blast
  have "raft_ok (rf_at c1 i)" using raft_ok_sendvote [OF assms(1) won] by (simp add: c1(2))
  moreover have "leads c1 j = Some t" using assms(3,4) by (auto simp: leads_def c1(2) split: if_splits)
  ultimately obtain c' where "runs cluster_step any_action [Local i E_Promote] c1 = Some (Inr c')"
    "leads c' i = Some t" "leads c' j = Some t"
    using promoted_beside_leader [of c1 i j t] assms(2,3,5) c1(2,3) by auto
  then show "\<exists>c'. runs cluster_step any_action [VoteReturn k v, Local i E_Promote] c = Some (Inr c') \<and>
      leads c' i = Some t \<and> leads c' j = Some t"
    using c1(1) unfolding runs_Cons by (intro exI [of _ c']) (simp add: any_action_def del: cluster_step.simps)
qed (use promoted_beside_leader [OF assms] in blast)

text \<open>Peer 0 gets a vote for term 1 that arrives only after it became a candidate of term 2, beside
  peer 2, which peer 1 elected in term 2; and peer 0 wins term 1, votes for peer 2 in term 2, and
  only then runs \<open>TurnLeader\<close>.\<close>

theorem races_elect_two_leaders_witness:
  "(\<exists>c. runs cluster_step any_action (stale_vote_run @ [VoteReturn 0 1, Local 0 E_Promote]) (init_cluster 3) = Some (Inr c) \<and>
     leads c 0 = Some 2 \<and> leads c 2 = Some 2) \<and>
   (\<exists>c. runs cluster_step any_action (race_run @ [Local 0 E_Promote]) (init_cluster 3) = Some (Inr c) \<and>
     leads c 0 = Some 2 \<and> leads c 2 = Some 2)"
proof
  have "case runs cluster_step any_action stale_vote_run (init_cluster 3) of
      Some (Inr c) \<Rightarrow> raft_ok (rf_at c 0) \<and> servers c = 3 \<and> leads c 2 = Some 2 \<and> currentTerm (rf_at c 0) = 2 \<and>
        0 < length (elections c) \<and> cand (elections c ! 0) = 0 \<and>
        votes (elections c ! 0) 1 = Returned True \<lparr>rvReplyTerm = 1, VoteGranted = True\<rparr> \<and>
        \<not> killed (rf_at c 0) \<and> state (rf_at c 0) = CANDIDATE \<and> voteNum (elections c ! 0) = 1 \<and> peers (rf_at c 0) = 3
    | _ \<Rightarrow> False"
    by code_simp
  then obtain c where c: "runs cluster_step any_action stale_vote_run (init_cluster 3) = Some (Inr c)"
    and f: "raft_ok (rf_at c 0)" "servers c = 3" "leads c 2 = Some 2" "currentTerm (rf_at c 0) = 2"
      "0 < length (elections c)" "cand (elections c ! 0) = 0"
      "votes (elections c ! 0) 1 = Returned True \<lparr>rvReplyTerm = 1, VoteGranted = True\<rparr>"
      "\<not> killed (rf_at c 0)" "state (rf_at c 0) = CANDIDATE" "voteNum (elections c ! 0) = 1" "peers (rf_at c 0) = 3"
    by (auto split: option.splits sum.splits)
  obtain c' where "runs cluster_step any_action [VoteReturn 0 1, Local 0 E_Promote] c = Some (Inr c')"
    "leads c' 0 = Some 2" "leads c' 2 = Some 2"
    using races_elect_two_leaders [of c 0 2 2, THEN conjunct2, rule_format,
        of 0 1 "\<lparr>rvReplyTerm = 1, VoteGranted = True\<rparr>"] f by auto
  then show "\<exists>c. runs cluster_step any_action (stale_vote_run @ [VoteReturn 0 1, Local 0 E_Promote]) (init_cluster 3) =
      Some (Inr c) \<and> leads c 0 = Some 2 \<and> leads c 2 = Some 2"
    unfolding runs_append c by simp
next
  have "case runs cluster_step any_action race_run (init_cluster 3) of
      Some (Inr c) \<Rightarrow> raft_ok (rf_at c 0) \<and> servers c = 3 \<and> leads c 2 = Some 2 \<and> currentTerm (rf_at c 0) = 2 \<and>
        promoting (procs c 0) > 0
    | _ \<Rightarrow> False"
    by code_simp
  then obtain c where c: "runs cluster_step any_action race_run (init_cluster 3) = Some (Inr c)"
    and f: "raft_ok (rf_at c 0)" "servers c = 3" "leads c 2 = Some 2" "currentTerm (rf_at c 0) = 2" "promoting (procs c 0) > 0"
    by (auto split: option.splits sum.splits)
  show "\<exists>c. runs cluster_step any_action (race_run @ [Local 0 E_Promote]) (init_cluster 3) = Some (Inr c) \<and>
      leads c 0 = Some 2 \<and> leads c 2 = Some 2"
    using races_elect_two_leaders [of c 0 2 2] f unfolding runs_append c by simp
qed

definition div_run :: "nat action list" where
  "div_run = timeout_of 0 @ [CallVote 0 1 True, VoteReturn 0 1, Local 0 E_Promote, Local 0 E_Arm,
      HeartBeatCall 0, CallAppend 0 True, Local 0 (E_Start (Some 7)), HeartBeatReturn 0] @
     timeout_of 2 @ timeout_of 2 @
     [CallVote 2 1 True, VoteReturn 2 1, Local 2 E_Promote, Local 2 E_Arm, Local 2 (E_Start (Some 8)),
      HeartBeatCall 3, CallAppend 3 True, HeartBeatReturn 3]"

text \<open>A positive reply is taken to acknowledge the leader's whole log, also what was
  appended after the request was sent. Even in an orderly run, peer 0 commits and delivers a
  command that no other peer holds, and peer 2 later delivers another one at the same index.\<close>

lemma unreplicated_commit_diverges:
  "let c = final (runs cluster_step orderly div_run (init_cluster 3))
   in map (\<lambda>m. (CommandIndex m, ApplyCommand m)) (applyMsgCh (rf_at c 0)) = [(1, Some 7)] \<and>
      map (\<lambda>m. (CommandIndex m, ApplyCommand m)) (applyMsgCh (rf_at c 2)) = [(1, Some 8)]"
  by code_simp

definition crash_run :: "nat action list" where
  "crash_run = timeout_of 0 @ [CallVote 0 1 True, VoteReturn 0 1, Local 0 E_Promote, Local 0 E_Arm,
     Local 1 E_Kill, HeartBeatCall 0, CallAppend 0 True, HeartBeatReturn 0, Local 0 E_FireHeartBeat,
     Local 0 E_Maintain, Local 0 E_Maintain, Local 0 E_Maintain, HeartBeatCall 2]"

text \<open>A refusal lowers the next index without a floor. A killed peer answers with the zero
  reply, the leader takes it for a refusal, and its next heartbeat to it slices its log before
  the first entry: the leader panics, in an orderly run.\<close>

lemma killed_peer_crashes_leader:
  "panics (runs cluster_step orderly crash_run (init_cluster 3)) = Some Index_out_of_range"
  by code_simp

end
