(* ===== verification/RaftConsensus.thy ===== *)
theory RaftConsensus
  imports RaftDelivery RaftProperties
begin

text \<open>
  What the invariant of \<open>RaftAgreement\<close> says of the peers: state machine safety and leader
  completeness, and a run that shows that committing entries of older terms breaks them.
\<close>

section \<open>The first state\<close>

abbreviation zero_entry :: "'c LogEntry" where
  "zero_entry \<equiv> \<lparr>entryTerm = 0, Command = None\<rparr>"

definition first_history :: "nat \<Rightarrow> 'c History" where
  "first_history n = \<lparr>led = {}, line = (\<lambda>T. if T = 0 then [zero_entry] else []),
     held = {(v, 0, [zero_entry]) |v. v \<in> {0..<int n}}\<rparr>"

lemma first_history_sel [simp]:
  "led (first_history n) = {}" "line (first_history n) 0 = [zero_entry]"
  "T \<noteq> 0 \<Longrightarrow> line (first_history n) T = []"
  "(v, t, l) \<in> held (first_history n) \<longleftrightarrow> 0 \<le> v \<and> v < int n \<and> t = 0 \<and> l = [zero_entry]"
  by (auto simp: first_history_def)

lemma chain_first: "chain (first_history n) [zero_entry]" "chain (first_history n) []"
  by (auto simp: chain_def prefix_Cons)

lemma init_sel [simp]:
  "servers (init_cluster n) = n" "elections (init_cluster n) = []" "heartbeats (init_cluster n) = []"
  "procs (init_cluster n) i = \<lparr>raft = Make n i, pc = MaintainTop, promoting = 0, arming = 0\<rparr>"
  by (simp_all add: init_cluster_def spawn_def)

lemma majority_all: "0 < n \<Longrightarrow> majority n {0..<int n}"
  by (simp add: majority_def zdiv_int)

lemma agrees_init: "agrees (first_history n) (init_cluster n)"
proof -
  let ?H = "first_history n :: 'a History"
  have "peer_hist n ?H i \<lparr>raft = Make n i, pc = MaintainTop, promoting = 0, arming = 0\<rparr>"
    if i: "0 \<le> i" "i < int n" for i
  proof -
    have "chosen n ?H [zero_entry] 0" using majority_all [of n] i unfolding chosen_def by force
    then have "settled n ?H [zero_entry] 0" unfolding settled_def by blast
    moreover have "keeps ?H i 1 [zero_entry]" by (rule keepsI) auto
    ultimately show ?thesis
      using raft_ok_Make [OF i, where 'a = 'a] i
      by (simp add: peer_hist_def committed_def Make_def)
  qed
  moreover have "history n (term_at (init_cluster n :: 'a Cluster)) ?H"
  proof -
    have "chain ?H (line ?H T) \<and> terms_in T (line ?H T)" for T
      using chain_first by (cases "T = 0") (auto simp: terms_in_def)
    then show ?thesis using chain_first by (auto simp: history_def terms_in_def Make_def)
  qed
  ultimately show ?thesis by (simp add: agrees_def elected_def nodes_def)
qed

lemma agree_inv_init: "agree_inv (init_cluster n)"
  using agrees_init match_inv_init by (auto simp: agree_inv_def)

section \<open>Agreement\<close>

lemma careful_history:
  assumes "runs cluster_step careful acts (init_cluster n) = Some (Inr c)"
  obtains H where "agrees H c"
  using agreement.runs_inv [OF agree_inv_init assms] by (auto simp: agree_inv_def)

lemma delivered_entries:
  assumes A: "agrees H c" and i: "i \<in> nodes c"
  defines "a \<equiv> nat (lastApplied (rf_at c i))"
  shows "applyMsgCh (rf_at c i) = map (entry_msg (log (rf_at c i))) [1..<Suc a]"
    "settled (servers c) H (take (Suc a) (log (rf_at c i))) (term_at c i)" "a < length (log (rf_at c i))"
    "length (applyMsgCh (rf_at c i)) = a"
proof -
  note p = peer_histD [OF agreesD(3) [OF A i]]
  have la: "0 \<le> lastApplied (rf_at c i)" "lastApplied (rf_at c i) \<le> commitIndex (rf_at c i)"
    using raft_okD(7,8) [OF p(1)] by blast+
  show "applyMsgCh (rf_at c i) = map (entry_msg (log (rf_at c i))) [1..<Suc a]"
    using p(8) by (simp add: committed_def a_def)
  then show "length (applyMsgCh (rf_at c i)) = a" by (simp del: upt_Suc)
  have "prefix (take (Suc a) (log (rf_at c i))) (take (Suc (nat (commitIndex (rf_at c i)))) (log (rf_at c i)))"
    using la unfolding a_def by (intro prefix_take_mono [OF prefix_order.refl]) (auto simp: prefix_take_mono)
  then show "settled (servers c) H (take (Suc a) (log (rf_at c i))) (term_at c i)"
    using p(8) settled_prefix unfolding committed_def by blast
  show "a < length (log (rf_at c i))" using p(8) la by (auto simp: committed_def a_def len_def)
qed

lemma prefix_nth: "prefix a b \<Longrightarrow> k < length a \<Longrightarrow> a ! k = b ! k"
  by (auto simp: prefix_def nth_append)

text \<open>C1: state machine safety. In every careful run of any number of peers, two peers never
  deliver different commands at the same index: what one has put on its apply channel and what
  another has are the same as far as both go.\<close>

theorem state_machine_safety:
  assumes "runs cluster_step careful acts (init_cluster n) = Some (Inr c)"
    and "i \<in> {0..<int (servers c)}" "j \<in> {0..<int (servers c)}"
    and "k < length (applyMsgCh (rf_at c i))" "k < length (applyMsgCh (rf_at c j))"
  shows "applyMsgCh (rf_at c i) ! k = applyMsgCh (rf_at c j) ! k"
proof -
  obtain H where A: "agrees H c" using assms(1) by (rule careful_history)
  have n: "i \<in> nodes c" "j \<in> nodes c" using assms(2,3) by (simp_all add: nodes_def)
  note di = delivered_entries [OF A n(1)] and dj = delivered_entries [OF A n(2)]
  let ?i = "take (Suc (nat (lastApplied (rf_at c i)))) (log (rf_at c i))"
  let ?j = "take (Suc (nat (lastApplied (rf_at c j)))) (log (rf_at c j))"
  have k: "Suc k < length ?i" "Suc k < length ?j" using assms(4,5) di(3,4) dj(3,4) by simp_all
  have "prefix ?i ?j \<or> prefix ?j ?i" using settled_comparable [OF agreesD(2) [OF A] di(2) dj(2)] .
  then have "?i ! Suc k = ?j ! Suc k" using prefix_nth [OF _ k(1)] prefix_nth [OF _ k(2)] by metis
  then have "log (rf_at c i) ! Suc k = log (rf_at c j) ! Suc k" using k by simp
  then show ?thesis using assms(4,5) di(1,4) dj(1,4) by (simp add: entry_msg_def del: upt_Suc)
qed

text \<open>Peer 0 of three leads, replicates a command to peer 1, commits it, and tells peer 2.\<close>

definition committed_run :: "nat action list" where
  "committed_run = timeout_of 0 @ [CallVote 0 1 True, VoteReturn 0 1, Local 0 E_Promote,
     Local 0 (E_Start (Some 7)), Local 0 E_Arm, HeartBeatCall 0, CallAppend 0 True, HeartBeatReturn 0,
     HeartBeatCall 1, CallAppend 1 True, HeartBeatReturn 1]"

lemma committed_run_runs: "case runs cluster_step careful committed_run (init_cluster 3) of
    Some (Inr c) \<Rightarrow> servers c = 3 \<and> state (rf_at c 0) = LEADER \<and> term_at c 0 = 1 \<and> term_at c 2 = 1 \<and>
      commitIndex (rf_at c 2) = 1 \<and> map ApplyCommand (applyMsgCh (rf_at c 0)) = [Some 7] \<and>
      length (applyMsgCh (rf_at c 2)) = 1
  | _ \<Rightarrow> False"
  by code_simp

theorem state_machine_safety_witness:
  "\<exists>c. runs cluster_step careful committed_run (init_cluster 3) = Some (Inr c) \<and>
     map ApplyCommand (applyMsgCh (rf_at c 2)) = [Some 7]"
proof -
  obtain c where c: "runs cluster_step careful committed_run (init_cluster 3) = Some (Inr c)"
    and s: "servers c = 3" "map ApplyCommand (applyMsgCh (rf_at c 0)) = [Some 7]" "length (applyMsgCh (rf_at c 2)) = 1"
    using committed_run_runs by (auto split: option.splits sum.splits)
  have "length (applyMsgCh (rf_at c 0)) = 1" using arg_cong [OF s(2), of length] by simp
  then have "applyMsgCh (rf_at c 2) ! 0 = applyMsgCh (rf_at c 0) ! 0"
    using s(1,3) by (intro state_machine_safety [OF c]) simp_all
  moreover have "applyMsgCh (rf_at c 2) = [applyMsgCh (rf_at c 2) ! 0]"
    using s(3) by (simp add: list_eq_iff_nth_eq)
  moreover have "ApplyCommand (applyMsgCh (rf_at c 0) ! 0) = Some 7"
    using s(2) by (cases "applyMsgCh (rf_at c 0)") auto
  ultimately show ?thesis using c by (intro exI [of _ c]) (metis list.simps(8) list.simps(9))
qed

text \<open>C4: leader completeness. In every careful run the log of a leader begins with everything
  that any peer, of its term or an earlier one, knows to be committed.\<close>

theorem leader_completeness:
  assumes "runs cluster_step careful acts (init_cluster n) = Some (Inr c)"
    and "i \<in> {0..<int (servers c)}" "j \<in> {0..<int (servers c)}"
    and "state (rf_at c j) = LEADER" "currentTerm (rf_at c i) \<le> currentTerm (rf_at c j)"
  shows "commitIndex (rf_at c i) < len (log (rf_at c j)) \<and>
     take (Suc (nat (commitIndex (rf_at c i)))) (log (rf_at c j)) =
     take (Suc (nat (commitIndex (rf_at c i)))) (log (rf_at c i))"
proof -
  obtain H where A: "agrees H c" using assms(1) by (rule careful_history)
  have n: "i \<in> nodes c" "j \<in> nodes c" using assms(2,3) by (simp_all add: nodes_def)
  note pi = peer_histD [OF agreesD(3) [OF A n(1)]] and pj = peer_histD [OF agreesD(3) [OF A n(2)]]
  let ?k = "Suc (nat (commitIndex (rf_at c i)))"
  have ci: "commitIndex (rf_at c i) < len (log (rf_at c i))" "settled (servers c) H (take ?k (log (rf_at c i))) (term_at c i)"
    using pi(8) by (simp_all add: committed_def)
  have "prefix (take ?k (log (rf_at c i))) (line H (term_at c j))"
    using settled_in_line [OF agreesD(2) [OF A] ci(2) pj(3)] assms(4,5) by blast
  then have pre: "prefix (take ?k (log (rf_at c i))) (log (rf_at c j))" using pj(4) assms(4) by simp
  have len: "?k \<le> length (log (rf_at c i))" using ci(1) raft_okD(9) [OF pi(1)] by (auto simp: len_def)
  then have "?k \<le> length (log (rf_at c j))" using prefix_length_le [OF pre] by simp
  then show ?thesis using prefix_take_eq [OF pre len] by (auto simp: len_def)
qed

theorem leader_completeness_witness:
  "\<exists>c. runs cluster_step careful committed_run (init_cluster 3) = Some (Inr c) \<and> commitIndex (rf_at c 2) = 1 \<and>
     1 < len (log (rf_at c 0)) \<and> take 2 (log (rf_at c 0)) = take 2 (log (rf_at c 2))"
proof -
  obtain c where c: "runs cluster_step careful committed_run (init_cluster 3) = Some (Inr c)"
    and s: "servers c = 3" "state (rf_at c 0) = LEADER" "term_at c 0 = 1" "term_at c 2 = 1" "commitIndex (rf_at c 2) = 1"
    using committed_run_runs by (auto split: option.splits sum.splits)
  show ?thesis
    using leader_completeness [OF c, of 2 0] c s by (intro exI [of _ c]) (simp add: numeral_2_eq_2)
qed

section \<open>Committing entries of older terms\<close>

text \<open>Without the condition on the term of the committed entry, agreement is lost.\<close>

definition exact :: "'c action \<Rightarrow> 'c Cluster \<Rightarrow> bool" where
  "exact a c \<longleftrightarrow> orderly a c \<and> acks_right a c"

definition vote_for :: "nat \<Rightarrow> int \<Rightarrow> 'c action list" where
  "vote_for k j = [CallVote k j True, VoteReturn k j]"

definition beat :: "nat \<Rightarrow> nat action list" where
  "beat k = [HeartBeatCall k, CallAppend k True, HeartBeatReturn k]"

definition next_beats :: "int \<Rightarrow> nat action list" where
  "next_beats i = [Local i E_FireHeartBeat, Local i E_Maintain, Local i E_Maintain, Local i E_Maintain]"

text \<open>
  Peer 0 takes command 7 in term 1 and tells nobody; peer 4 leads term 2, makes peer 0 step
  down and takes command 8; peer 0 leads term 3, brings command 7 to peer 1, takes command 9,
  and brings both to peer 2; then peer 4 leads term 4.
\<close>

definition old_term_run :: "nat action list" where
  "old_term_run =
     timeout_of 0 @ vote_for 0 1 @ vote_for 0 2 @ [Local 0 E_Promote, Local 0 (E_Start (Some 7))] @
     timeout_of 4 @ timeout_of 4 @ vote_for 2 2 @ vote_for 2 3 @
     [Local 4 E_Promote, Local 4 E_Arm, HeartBeatCall 0, CallAppend 0 True, Local 4 (E_Start (Some 8))] @
     timeout_of 0 @ [CallVote 3 4 True] @ vote_for 3 1 @ vote_for 3 2 @
     [Local 0 E_Promote, Local 0 E_Arm] @ beat 4 @ beat 5 @
     next_beats 0 @ beat 8 @ [Local 0 (E_Start (Some 9))] @ beat 9 @
     timeout_of 4 @ vote_for 4 1 @ vote_for 4 3 @
     [Local 4 E_Promote, Local 4 (E_Start (Some 10)), Local 4 E_Arm] @ beat 13 @ beat 15 @
     next_beats 4 @ beat 17 @ beat 19"

text \<open>A leader commits an entry of an older term as soon as a majority has it, although a
  later leader may not. Even in an orderly run in which every reply acknowledges exactly the log
  it is taken for, peer 0 of five delivers command 7 at index 1 and peer 4 delivers 8 there.\<close>

lemma old_term_commit_diverges:
  "let c = final (runs cluster_step exact old_term_run (init_cluster 5))
   in map (\<lambda>m. (CommandIndex m, ApplyCommand m)) (applyMsgCh (rf_at c 0)) = [(1, Some 7)] \<and>
      map (\<lambda>m. (CommandIndex m, ApplyCommand m)) (applyMsgCh (rf_at c 4)) = [(1, Some 8), (2, Some 10)]"
  by code_simp

end
