(* ===== verification/RaftRepair.thy ===== *)
theory RaftRepair
  imports RaftConsensus
begin

text \<open>
  Repair of a follower's log (\<open>sendHeartBeat\<close> of \<open>mp2/src/raft/raft.go\<close> with the handler it
  calls): a leader that goes on sending heartbeats to a live peer finds, one refusal at a time,
  the place where their logs agree, and the peer then has the leader's log.
\<close>

text \<open>One heartbeat of the leader to peer \<open>q\<close> whose reply arrives before anything else happens.\<close>

definition exchange :: "int \<Rightarrow> 'c Raft \<times> 'c Raft \<Rightarrow> ('c Raft \<times> 'c Raft) res" where
  "exchange q = (\<lambda>(ldr, flw). bind_res (sendHeartBeat_args q ldr) (\<lambda>a. case a of
       None \<Rightarrow> Inr (ldr, flw)
     | Some args \<Rightarrow> bind_res (AppendEntries args flw) (\<lambda>(reply, flw).
         map_res (\<lambda>ldr. (ldr, flw)) (sendHeartBeat_reply q True reply ldr))))"

fun exchanges :: "nat \<Rightarrow> int \<Rightarrow> 'c Raft \<times> 'c Raft \<Rightarrow> ('c Raft \<times> 'c Raft) res" where
  "exchanges 0 q s = Inr s"
| "exchanges (Suc k) q s = bind_res (exchange q s) (exchanges k q)"

text \<open>The leader may call \<open>q\<close>, whose log matches its own and is not ahead of it in term.\<close>

definition repairable :: "int \<Rightarrow> 'c Raft \<Rightarrow> 'c Raft \<Rightarrow> bool" where
  "repairable q ldr flw \<longleftrightarrow> raft_ok ldr \<and> raft_ok flw \<and> \<not> killed ldr \<and> \<not> killed flw \<and> state ldr = LEADER \<and>
     currentTerm flw \<le> currentTerm ldr \<and> commitIndex ldr < len (log ldr) \<and> 0 \<le> q \<and> q < int (peers ldr) \<and>
     1 \<le> nextIndex ldr ! nat q \<and> nextIndex ldr ! nat q \<le> len (log ldr) \<and>
     matching (log ldr) (log flw) \<and> log flw ! 0 = log ldr ! 0"

text \<open>The call the leader would make.\<close>

definition call_to :: "int \<Rightarrow> 'c Raft \<Rightarrow> 'c AppendEntriesArgs" where
  "call_to q ldr = \<lparr>aeTerm = currentTerm ldr, LeaderId = me ldr, PrevLogIndex = nextIndex ldr ! nat q - 1,
     PrevLogTerm = entryTerm (log ldr ! nat (nextIndex ldr ! nat q - 1)),
     Entries = drop (nat (nextIndex ldr ! nat q)) (log ldr), LeaderCommit = commitIndex ldr\<rparr>"

lemma call_to_facts:
  assumes "repairable q ldr flw"
  shows "sendHeartBeat_args q ldr = Inr (Some (call_to q ldr))" "wf_args (call_to q ldr)"
    "aeTerm (call_to q ldr) = currentTerm ldr" "cut_from (log ldr) (call_to q ldr)"
proof -
  show a: "sendHeartBeat_args q ldr = Inr (Some (call_to q ldr))"
    using assms by (simp add: repairable_def sendHeartBeat_args_ok call_to_def)
  then show "wf_args (call_to q ldr)" "aeTerm (call_to q ldr) = currentTerm ldr" "cut_from (log ldr) (call_to q ldr)"
    using assms sendHeartBeat_args_wf(1) sendHeartBeat_args_cut unfolding repairable_def by blast+
qed

text \<open>A refusal moves the place one entry back, and happens only behind the first entry.\<close>

lemma exchange_refused:
  assumes r: "repairable q ldr flw" and no: "\<not> log_matches (call_to q ldr) (log flw)"
  defines "ldr' \<equiv> ldr\<lparr>nextIndex := (nextIndex ldr)[nat q := nextIndex ldr ! nat q - 1]\<rparr>"
  shows "exchange q (ldr, flw) = Inr (ldr', step_down (call_to q ldr) flw)"
    and "repairable q ldr' (step_down (call_to q ldr) flw)"
    and "nextIndex ldr' ! nat q = nextIndex ldr ! nat q - 1"
proof -
  note f = call_to_facts [OF r]
  have d: "raft_ok ldr" "raft_ok flw" "\<not> killed ldr" "\<not> killed flw" "state ldr = LEADER"
    "currentTerm flw \<le> currentTerm ldr" "0 \<le> q" "q < int (peers ldr)" "log flw ! 0 = log ldr ! 0"
    "1 \<le> nextIndex ldr ! nat q"
    using r by (simp_all add: repairable_def)
  have "AppendEntries (call_to q ldr) flw =
      Inr (\<lparr>aeReplyTerm = currentTerm ldr, Success = False\<rparr>, step_down (call_to q ldr) flw)"
    using d(4,6) no f(3) by (simp add: AppendEntries_cases [OF d(2) f(2)])
  moreover have "sendHeartBeat_reply q True \<lparr>aeReplyTerm = currentTerm ldr, Success = False\<rparr> ldr = Inr ldr'"
    using sendHeartBeat_reply_cases [OF d(1,7,8), of True "\<lparr>aeReplyTerm = currentTerm ldr, Success = False\<rparr>"] d(3,5)
    by (auto simp: ldr'_def)
  ultimately show "exchange q (ldr, flw) = Inr (ldr', step_down (call_to q ldr) flw)"
    by (simp add: exchange_def f(1))
  show next': "nextIndex ldr' ! nat q = nextIndex ldr ! nat q - 1"
    using raft_okD(3) [OF d(1)] d(7,8) by (simp add: ldr'_def)
  have "nextIndex ldr ! nat q \<noteq> 1"
  proof
    assume "nextIndex ldr ! nat q = 1"
    then have "log_matches (call_to q ldr) (log flw)"
      using d(9) raft_okD(5) [OF d(2)] by (simp add: log_matches_def call_to_def len_def)
    then show False using no by simp
  qed
  moreover have "raft_ok ldr'" using raft_okD(3) [OF d(1)] unfolding ldr'_def by (intro raft_ok_nextIndex d(1)) simp
  moreover have "raft_ok (step_down (call_to q ldr) flw)"
    using f(3) raft_okD(6) [OF d(1)] by (intro raft_ok_step_down d(2)) simp
  moreover have "currentTerm (step_down (call_to q ldr) flw) = currentTerm ldr"
    using step_down_term [of flw "call_to q ldr"] d(6) f(3) by simp
  moreover have "\<not> killed ldr'" using d(3) by (simp add: ldr'_def killed_def)
  ultimately show "repairable q ldr' (step_down (call_to q ldr) flw)"
    using r next' d(10) unfolding repairable_def by (simp add: ldr'_def)
qed

text \<open>An acceptance leaves the peer with the leader's log.\<close>

lemma exchange_accepted:
  assumes r: "repairable q ldr flw" and yes: "log_matches (call_to q ldr) (log flw)"
  shows "\<exists>ldr' flw'. exchange q (ldr, flw) = Inr (ldr', flw') \<and> prefix (log ldr) (log flw') \<and>
    commitIndex ldr \<le> commitIndex flw' \<and> currentTerm flw' = currentTerm ldr \<and> state ldr' = LEADER \<and>
    currentTerm ldr' = currentTerm ldr \<and> log ldr' = log ldr \<and>
    matchIndex ldr' ! nat q = len (log ldr) - 1 \<and> nextIndex ldr' ! nat q = len (log ldr)"
proof -
  note f = call_to_facts [OF r]
  have d: "raft_ok ldr" "raft_ok flw" "\<not> killed ldr" "\<not> killed flw" "state ldr = LEADER"
    "currentTerm flw \<le> currentTerm ldr" "0 \<le> q" "q < int (peers ldr)" "matching (log ldr) (log flw)"
    using r by (simp_all add: repairable_def)
  let ?flw = "deliver (max (commitIndex flw) (LeaderCommit (call_to q ldr)))
      ((step_down (call_to q ldr) flw)\<lparr>log := follower_log (call_to q ldr) (log flw)\<rparr>)"
  have ae: "AppendEntries (call_to q ldr) flw = Inr (\<lparr>aeReplyTerm = 0, Success = True\<rparr>, ?flw)"
    using d(4,6) yes f(3) by (simp add: AppendEntries_cases [OF d(2) f(2)])
  have "0 \<le> currentTerm ldr" using raft_okD(6) [OF d(1)] .
  then obtain ldr' x where l: "sendHeartBeat_reply q True \<lparr>aeReplyTerm = 0, Success = True\<rparr> ldr = Inr ldr'"
    "ldr' = deliver x (ldr\<lparr>nextIndex := (nextIndex ldr)[nat q := len (log ldr)],
       matchIndex := (matchIndex ldr)[nat q := len (log ldr) - 1]\<rparr>)"
    using sendHeartBeat_reply_cases [OF d(1,7,8), of True "\<lparr>aeReplyTerm = 0, Success = True\<rparr>"] d(3,5)
    by (auto simp: Let_def)
  have "exchange q (ldr, flw) = Inr (ldr', ?flw)" by (simp add: exchange_def f(1) ae l(1))
  moreover have "prefix (log ldr) (log ?flw)"
    using matching_follower_log [OF d(9) f(4) yes] by (simp only: deliver_simps) simp
  moreover have "commitIndex ldr \<le> commitIndex ?flw"
    by (simp only: deliver_simps) (simp add: call_to_def)
  moreover have "currentTerm ?flw = currentTerm ldr"
    using step_down_term [of flw "call_to q ldr"] d(6) f(3) by (simp only: deliver_simps) simp
  moreover have "state ldr' = LEADER" "currentTerm ldr' = currentTerm ldr" "log ldr' = log ldr"
    "matchIndex ldr' ! nat q = len (log ldr) - 1" "nextIndex ldr' ! nat q = len (log ldr)"
    using l(2) raft_okD(3,4) [OF d(1)] d(5,7,8) by (simp_all add: deliver_simps)
  ultimately show ?thesis by blast
qed

lemma repairs:
  assumes "repairable q ldr flw"
  shows "\<exists>k \<le> nat (nextIndex ldr ! nat q). \<exists>ldr' flw'. exchanges k q (ldr, flw) = Inr (ldr', flw') \<and>
    prefix (log ldr) (log flw') \<and> commitIndex ldr \<le> commitIndex flw' \<and> currentTerm flw' = currentTerm ldr \<and>
    state ldr' = LEADER \<and> currentTerm ldr' = currentTerm ldr \<and> log ldr' = log ldr \<and>
    matchIndex ldr' ! nat q = len (log ldr) - 1 \<and> nextIndex ldr' ! nat q = len (log ldr)"
  using assms
proof (induction "nat (nextIndex ldr ! nat q)" arbitrary: ldr flw rule: less_induct)
  case less
  have next1: "1 \<le> nextIndex ldr ! nat q" using less.prems by (simp add: repairable_def)
  show ?case
  proof (cases "log_matches (call_to q ldr) (log flw)")
    case True
    from exchange_accepted [OF less.prems True] obtain ldr' flw' where e: "exchange q (ldr, flw) = Inr (ldr', flw')"
      "prefix (log ldr) (log flw')" "commitIndex ldr \<le> commitIndex flw'" "currentTerm flw' = currentTerm ldr"
      "state ldr' = LEADER" "currentTerm ldr' = currentTerm ldr" "log ldr' = log ldr"
      "matchIndex ldr' ! nat q = len (log ldr) - 1" "nextIndex ldr' ! nat q = len (log ldr)" by blast
    have "exchanges 1 q (ldr, flw) = Inr (ldr', flw')" using e(1) by simp
    moreover have "1 \<le> nat (nextIndex ldr ! nat q)" using next1 by simp
    ultimately show ?thesis using e(2-9) by blast
  next
    case False
    note x = exchange_refused [OF less.prems False]
    let ?l = "ldr\<lparr>nextIndex := (nextIndex ldr)[nat q := nextIndex ldr ! nat q - 1]\<rparr>"
    have "nat (nextIndex ?l ! nat q) < nat (nextIndex ldr ! nat q)" using x(3) next1 by simp
    from less.hyps [OF this x(2)] obtain k ldr' flw' where k: "k \<le> nat (nextIndex ?l ! nat q)"
      "exchanges k q (?l, step_down (call_to q ldr) flw) = Inr (ldr', flw')"
      "prefix (log ldr) (log flw')" "commitIndex ldr \<le> commitIndex flw'" "currentTerm flw' = currentTerm ldr"
      "state ldr' = LEADER" "currentTerm ldr' = currentTerm ldr" "log ldr' = log ldr"
      "matchIndex ldr' ! nat q = len (log ldr) - 1" "nextIndex ldr' ! nat q = len (log ldr)" by auto
    have "exchanges (Suc k) q (ldr, flw) = Inr (ldr', flw')" using x(1) k(2) by simp
    moreover have "Suc k \<le> nat (nextIndex ldr ! nat q)" using k(1) x(3) next1 by linarith
    ultimately show ?thesis using k(3-10) by blast
  qed
qed

section \<open>In a careful run\<close>

text \<open>The committed parts of two logs begin with the same entry, so a leader and its followers are repairable.\<close>

lemma same_first_entry:
  assumes A: "agrees H c" and n: "i \<in> nodes c" "q \<in> nodes c"
  shows "log (rf_at c q) ! 0 = log (rf_at c i) ! 0"
proof -
  have first: "settled (servers c) H (take 1 (log (rf_at c v))) (term_at c v)" "take 1 (log (rf_at c v)) = [log (rf_at c v) ! 0]"
    if "v \<in> nodes c" for v
  proof -
    note p = peer_histD [OF agreesD(3) [OF A that]]
    show "take 1 (log (rf_at c v)) = [log (rf_at c v) ! 0]"
      using own_log(1) [OF A that] by (cases "log (rf_at c v)") simp_all
    have "prefix (take 1 (log (rf_at c v))) (take (Suc (nat (commitIndex (rf_at c v)))) (log (rf_at c v)))"
      by (cases "log (rf_at c v)") simp_all
    then show "settled (servers c) H (take 1 (log (rf_at c v))) (term_at c v)"
      using p(8) settled_prefix unfolding committed_def by blast
  qed
  from settled_comparable [OF agreesD(2) [OF A] first(1) [OF n(1)] first(1) [OF n(2)]]
  show ?thesis by (auto simp: first(2) [OF n(1), simplified] first(2) [OF n(2), simplified])
qed

lemma careful_repairable:
  assumes run: "runs cluster_step careful acts (init_cluster n) = Some (Inr c)"
    and n: "i \<in> {0..<int (servers c)}" "q \<in> {0..<int (servers c)}"
    and "state (rf_at c i) = LEADER" "\<not> killed (rf_at c i)" "\<not> killed (rf_at c q)"
      "currentTerm (rf_at c q) \<le> currentTerm (rf_at c i)"
      "1 \<le> nextIndex (rf_at c i) ! nat q" "nextIndex (rf_at c i) ! nat q \<le> len (log (rf_at c i))"
  shows "repairable q (rf_at c i) (rf_at c q)"
proof -
  have inv: "agree_inv c" by (rule agreement.runs_inv [OF agree_inv_init run])
  then obtain H where A: "agrees H c" and es: "es_inv c" by (auto simp: agree_inv_def match_inv_def)
  have d: "i \<in> nodes c" "q \<in> nodes c" using n by (simp_all add: nodes_def)
  note pi = peer_histD [OF agreesD(3) [OF A d(1)]] and pq = peer_histD [OF agreesD(3) [OF A d(2)]]
  have "matching (log (rf_at c i)) (log (rf_at c q))"
    using own_log(2) [OF A d(1)] own_log(2) [OF A d(2)] by (rule chain_matching)
  moreover have "commitIndex (rf_at c i) < len (log (rf_at c i))" using pi(8) by (simp add: committed_def)
  ultimately show ?thesis
    using assms(4-) n(2) pi(1) pq(1) es_inv_at(2) [OF es d(1)] same_first_entry [OF A d]
    by (simp add: repairable_def)
qed

text \<open>C21: log repair. From any state of a careful run in which a leader's next index for a peer lies
  within its log, at 1 or above (it does at every promotion; refusals that cross on the way can
  lower it to 0, where the next heartbeat panics), the live leader, whose heartbeats to the live
  peer, not ahead of it in term, are answered one after the other, needs at most \<open>nextIndex\<close> of
  them until the peer has the whole of the leader's log, has delivered what the leader has
  committed, and is counted for it.\<close>

theorem log_repair:
  assumes "runs cluster_step careful acts (init_cluster n) = Some (Inr c)"
    and "i \<in> {0..<int (servers c)}" "q \<in> {0..<int (servers c)}"
    and "state (rf_at c i) = LEADER" "\<not> killed (rf_at c i)" "\<not> killed (rf_at c q)"
      "currentTerm (rf_at c q) \<le> currentTerm (rf_at c i)"
      "1 \<le> nextIndex (rf_at c i) ! nat q" "nextIndex (rf_at c i) ! nat q \<le> len (log (rf_at c i))"
  shows "\<exists>k ldr flw. k \<le> nat (nextIndex (rf_at c i) ! nat q) \<and>
    exchanges k q (rf_at c i, rf_at c q) = Inr (ldr, flw) \<and>
    prefix (log (rf_at c i)) (log flw) \<and> commitIndex (rf_at c i) \<le> commitIndex flw \<and>
    state ldr = LEADER \<and> currentTerm ldr = currentTerm (rf_at c i) \<and> log ldr = log (rf_at c i) \<and>
    matchIndex ldr ! nat q = len (log ldr) - 1 \<and> nextIndex ldr ! nat q = len (log ldr)"
  using repairs [OF careful_repairable [OF assms]] by metis

text \<open>Peer 1 has command 7 of leader 0 and leads term 2; peer 2 has nothing.\<close>

definition behind_run :: "nat action list" where
  "behind_run = timeout_of 0 @ vote_for 0 1 @ [Local 0 E_Promote, Local 0 (E_Start (Some 7)), Local 0 E_Arm] @
     beat 0 @ timeout_of 1 @ vote_for 1 0 @ [Local 1 E_Promote]"

lemma behind_run_runs: "case runs cluster_step careful behind_run (init_cluster 3) of
    Some (Inr c) \<Rightarrow> servers c = 3 \<and> state (rf_at c 1) = LEADER \<and> \<not> killed (rf_at c 1) \<and> \<not> killed (rf_at c 2) \<and>
      term_at c 2 \<le> term_at c 1 \<and> map Command (log (rf_at c 1)) = [None, Some 7] \<and>
      length (log (rf_at c 2)) = 1 \<and> nextIndex (rf_at c 1) ! 2 = 2
  | _ \<Rightarrow> False"
  by code_simp

theorem log_repair_witness:
  "\<exists>c k ldr flw. runs cluster_step careful behind_run (init_cluster 3) = Some (Inr c) \<and>
     length (log (rf_at c 2)) = 1 \<and> k \<le> 2 \<and> exchanges k 2 (rf_at c 1, rf_at c 2) = Inr (ldr, flw) \<and>
     prefix (log (rf_at c 1)) (log flw) \<and> matchIndex ldr ! 2 = 1"
proof -
  obtain c where c: "runs cluster_step careful behind_run (init_cluster 3) = Some (Inr c)"
    and s: "servers c = 3" "state (rf_at c 1) = LEADER" "\<not> killed (rf_at c 1)" "\<not> killed (rf_at c 2)"
      "term_at c 2 \<le> term_at c 1" "map Command (log (rf_at c 1)) = [None, Some 7]"
      "length (log (rf_at c 2)) = 1" "nextIndex (rf_at c 1) ! 2 = 2"
    using behind_run_runs by (auto split: option.splits sum.splits)
  have len: "len (log (rf_at c 1)) = 2" using arg_cong [OF s(6), of length] by (simp add: len_def)
  obtain k ldr flw where k: "k \<le> 2" "exchanges k 2 (rf_at c 1, rf_at c 2) = Inr (ldr, flw)"
    "prefix (log (rf_at c 1)) (log flw)" "log ldr = log (rf_at c 1)" "matchIndex ldr ! 2 = len (log ldr) - 1"
    using log_repair [OF c, of 1 2] s len by auto
  then have "matchIndex ldr ! 2 = 1" using len by simp
  with c k(1-3) s(7) show ?thesis by blast
qed

end
