(* ===== verification/RaftElecting.thy ===== *)
theory RaftElecting
  imports RaftRepair
begin

text \<open>
  A leader can be elected (\<open>checkElectionTimeout\<close>, \<open>startElection\<close>, \<open>RequestVote\<close>,
  \<open>sendvote\<close> and \<open>TurnLeader\<close> of \<open>mp2/src/raft/raft.go\<close>): a live peer whose timer goes off
  becomes leader when half of the peers, alive, not ahead of it in term and no more up to
  date, answer before anything else happens; and it can then bring its log to every peer.
\<close>

section \<open>Steps that nothing forbids\<close>

definition calm :: "'c Cluster \<Rightarrow> bool" where
  "calm c \<longleftrightarrow> (\<forall>i \<in> nodes c. promoting (procs c i) = 0)"

lemma calm_orderly: "calm c \<Longrightarrow> \<not> uses_stale_vote a c \<Longrightarrow> orderly a c"
  by (auto simp: calm_def orderly_def overtakes_promotion_def list_ex_iff set_indices nodes_def)

lemma calm_careful:
  assumes "calm c"
  shows "careful (Local i e) c" "careful (CallVote k j b) c" "\<not> stale_vote k j c \<Longrightarrow> careful (VoteReturn k j) c"
  using calm_orderly [OF assms] by (simp_all add: careful_def)

section \<open>The timer goes off\<close>

definition asking :: "int \<Rightarrow> 'c Raft \<Rightarrow> RequestVoteArgs" where
  "asking i rf = \<lparr>rvTerm = currentTerm rf + 1, CandidateId = i, LastLogIndex = len (log rf) - 1,
     LastLogTerm = entryTerm (last (log rf))\<rparr>"

definition first_poll :: "int \<Rightarrow> 'c Raft \<Rightarrow> Election" where
  "first_poll i rf = \<lparr>cand = i, eargs = asking i rf, voteNum = 1,
     votes = (\<lambda>j. if j \<in> set (other_peers rf) then Calling else Idle)\<rparr>"

lemma timeout_starts_election:
  assumes i: "i \<in> nodes c" "calm c" and ok: "raft_ok (rf_at c i)" "me (rf_at c i) = i"
    and p: "\<not> killed (rf_at c i)" "state (rf_at c i) \<noteq> LEADER" "pc (procs c i) = MaintainTop"
      "running (electionTimer (rf_at c i))"
  shows "\<exists>p. runs cluster_step careful (timeout_of i) c =
      Some (Inr (c\<lparr>procs := (procs c)(i := p), elections := elections c @ [first_poll i (rf_at c i)]\<rparr>)) \<and>
    raft_ok (raft p) \<and> state (raft p) = CANDIDATE \<and> currentTerm (raft p) = term_at c i + 1 \<and>
    \<not> killed (raft p) \<and> log (raft p) = log (rf_at c i) \<and> peers (raft p) = peers (rf_at c i) \<and> promoting p = 0"
proof -
  let ?p = "procs c i"
  let ?at = "\<lambda>p es. c\<lparr>procs := (procs c)(i := p), elections := elections c @ es\<rparr>"
  let ?rf1 = "(raft ?p)\<lparr>electionTimer := timer_fire (electionTimer (raft ?p))\<rparr>"
  let ?rf2 = "TurnCandidate (?rf1\<lparr>electionTimer := (electionTimer ?rf1)\<lparr>tick := False\<rparr>\<rparr>)"
  let ?p1 = "?p\<lparr>raft := ?rf1\<rparr>" let ?p2 = "?p1\<lparr>pc := InElectionCheck\<rparr>"
  let ?p3 = "?p\<lparr>raft := ?rf2, pc := InStartElection\<rparr>" let ?p4 = "?p\<lparr>raft := ?rf2, pc := MaintainTop\<rparr>"
  have at: "i \<in> nodes c" "0 \<le> i" "i < int (servers c)" "promoting ?p = 0" using i by (auto simp: nodes_def calm_def)
  have ok2: "raft_ok ?rf2" "\<not> killed ?rf2"
    using ok(1) p(1) by (auto intro!: raft_ok_TurnCandidate raft_ok_timers raft_ok_fire) (simp add: TurnCandidate_def killed_def)
  have rf2: "state ?rf2 = CANDIDATE" "currentTerm ?rf2 = term_at c i + 1" "log ?rf2 = log (raft ?p)"
    "peers ?rf2 = peers (raft ?p)" "me ?rf2 = i" "other_peers ?rf2 = other_peers (raft ?p)"
    using ok(2) by (simp_all add: TurnCandidate_def other_peers_def)
  have calm: "calm (?at q es)" if "promoting q = 0" for q es
    using i(2) that by (simp add: calm_def nodes_def)
  have swap: "c\<lparr>elections := es, procs := f\<rparr> = c\<lparr>procs := f, elections := es\<rparr>" for es f by (cases c) simp
  have go: "runs cluster_step careful (Local i e # as) (?at q es) =
      runs cluster_step careful as (spawn_goroutines i out (?at q' es))"
    if "proc_step e q = Some (Inr (out, q'))" "local_event e" "promoting q = 0" for e as q es out q'
    using at that(1,2) calm_careful(1) [OF calm [OF that(3)]]
    by (intro runs_step [where out = "()"]) (simp_all add: on_proc_def swap)
  have 1: "proc_step E_FireElection ?p = Some (Inr (O_None, ?p1))" by simp
  have 2: "proc_step E_Maintain ?p1 = Some (Inr (O_None, ?p2))" using p by (simp add: maintain_step_def killed_def)
  have 3: "proc_step E_Maintain ?p2 = Some (Inr (O_None, ?p3))"
    using p(1,4) by (simp add: maintain_step_def checkElectionTimeout_def killed_def timer_fire_def)
  have 4: "proc_step E_Maintain ?p3 = Some (Inr (O_Election (asking i (raft ?p)) 1 (other_peers (raft ?p)), ?p4))"
    using ok2 rf2 by (simp add: maintain_step_def startElection_ok asking_def)
  have c: "c = ?at ?p []" by simp
  have pr: "promoting ?p = 0" "promoting ?p1 = 0" "promoting ?p2 = 0" "promoting ?p3 = 0" using at(4) by simp_all
  have "runs cluster_step careful (timeout_of i) (?at ?p []) = Some (Inr (?at ?p4 [first_poll i (raft ?p)]))"
    unfolding timeout_of_def
    by (simp only: go [OF 1 _ pr(1)] go [OF 2 _ pr(2)] go [OF 3 _ pr(3)] go [OF 4 _ pr(4)] spawn_goroutines.simps
        local_event.simps runs.simps(1)) (simp add: first_poll_def)
  then show ?thesis
    using ok2 rf2 at(4) unfolding c [symmetric] by (intro exI [of _ ?p4]) simp
qed

section \<open>The votes come in\<close>

text \<open>Election \<open>k\<close> is under way, its candidate has heard of no later term.\<close>

definition standing :: "nat \<Rightarrow> Election \<Rightarrow> 'c Cluster \<Rightarrow> bool" where
  "standing k e c \<longleftrightarrow> k < length (elections c) \<and> elections c ! k = e \<and> cand e \<in> nodes c \<and> calm c \<and>
     state (rf_at c (cand e)) = CANDIDATE \<and> term_at c (cand e) = eterm e \<and> \<not> killed (rf_at c (cand e)) \<and>
     peers (rf_at c (cand e)) = servers c"

text \<open>A peer that is asked and will grant its vote.\<close>

definition elector :: "Election \<Rightarrow> 'c Cluster \<Rightarrow> int \<Rightarrow> bool" where
  "elector e c j \<longleftrightarrow> j \<in> nodes c \<and> j \<noteq> cand e \<and> votes e j = Calling \<and> log (rf_at c j) \<noteq> [] \<and>
     \<not> killed (rf_at c j) \<and> term_at c j < eterm e \<and> up_to_date (eargs e) (rf_at c j)"

definition granted :: "Election \<Rightarrow> RequestVoteReply" where
  "granted e = \<lparr>rvReplyTerm = eterm e, VoteGranted = True\<rparr>"

lemma call_grants:
  assumes "k < length (elections c)" "elections c ! k = e" "elector e c j"
  shows "\<exists>rf. cluster_step (CallVote k j True) c = Some (Inr ((), c\<lparr>procs := (procs c)(j := (procs c j)\<lparr>raft := rf\<rparr>),
    elections := (elections c)[k := e\<lparr>votes := (votes e)(j := Returned True (granted e))\<rparr>]\<rparr>))"
proof -
  have j: "votes e j = Calling" "log (rf_at c j) \<noteq> []" "\<not> killed (rf_at c j)" "may_vote (eargs e) (rf_at c j)"
    "up_to_date (eargs e) (rf_at c j)"
    using assms(3) by (simp_all add: elector_def may_vote_def)
  show ?thesis
    using assms(1,2) j
    by (simp add: on_proc_def RequestVote_cases vote_reply_def set_vote_def set_election_def Let_def granted_def) blast
qed

lemma return_counts:
  assumes "k < length (elections c)" "elections c ! k = e" "votes e j = Returned True (granted e)"
    and "state (rf_at c (cand e)) = CANDIDATE" "term_at c (cand e) = eterm e" "\<not> killed (rf_at c (cand e))"
  defines "w \<equiv> voteNum e + 1 > int (peers (rf_at c (cand e)) div 2)"
  shows "cluster_step (VoteReturn k j) c = Some (Inr ((), c\<lparr>procs := (procs c)(cand e :=
      voted_proc (procs c (cand e)) (if w then (rf_at c (cand e))\<lparr>state := LEADER\<rparr> else rf_at c (cand e)) w),
    elections := (elections c)[k := e\<lparr>voteNum := voteNum e + 1, votes := (votes e)(j := Counted)\<rparr>]\<rparr>))"
proof -
  have "sendvote True (granted e) (voteNum e) (rf_at c (cand e)) =
      (if w then (rf_at c (cand e))\<lparr>state := LEADER\<rparr> else rf_at c (cand e), voteNum e + 1, w)"
    using assms(4-6) by (simp add: sendvote_def granted_def Let_def w_def)
  then show ?thesis
    using assms(1-3) by (simp add: on_proc_def count_vote_def set_election_def Let_def voted_proc_def)
qed

lemma one_vote:
  assumes s: "standing k e c" and j: "elector e c j"
  defines "e' \<equiv> e\<lparr>voteNum := voteNum e + 1, votes := (votes e)(j := Counted)\<rparr>"
    and "w \<equiv> voteNum e + 1 > int (servers c div 2)"
  shows "\<exists>c'. runs cluster_step careful (vote_for k j) c = Some (Inr c') \<and> servers c' = servers c \<and>
    elections c' = (elections c)[k := e'] \<and> procs c' (cand e) =
      voted_proc (procs c (cand e)) (if w then (rf_at c (cand e))\<lparr>state := LEADER\<rparr> else rf_at c (cand e)) w \<and>
    (\<forall>m. m \<noteq> j \<and> m \<noteq> cand e \<longrightarrow> procs c' m = procs c m) \<and> promoting (procs c' j) = promoting (procs c j)"
proof -
  have k: "k < length (elections c)" "elections c ! k = e" and jc: "j \<noteq> cand e" and calm: "calm c"
    using s j by (simp_all add: standing_def elector_def)
  obtain rf where call: "cluster_step (CallVote k j True) c = Some (Inr ((), c\<lparr>procs := (procs c)(j := (procs c j)\<lparr>raft := rf\<rparr>),
    elections := (elections c)[k := e\<lparr>votes := (votes e)(j := Returned True (granted e))\<rparr>]\<rparr>))"
    using call_grants [OF k j] by blast
  let ?e = "e\<lparr>votes := (votes e)(j := Returned True (granted e))\<rparr>"
  let ?c = "c\<lparr>procs := (procs c)(j := (procs c j)\<lparr>raft := rf\<rparr>), elections := (elections c)[k := ?e]\<rparr>"
  have "granted ?e = granted e" "cand ?e = cand e" "eterm ?e = eterm e" "voteNum ?e = voteNum e"
    by (simp_all add: granted_def)
  note ret = return_counts [of k ?c ?e j, unfolded this]
  have "cluster_step (VoteReturn k j) ?c = Some (Inr ((), ?c\<lparr>procs := (procs ?c)(cand e :=
      voted_proc (procs ?c (cand e)) (if w then (rf_at ?c (cand e))\<lparr>state := LEADER\<rparr> else rf_at ?c (cand e)) w),
    elections := (elections ?c)[k := ?e\<lparr>voteNum := voteNum e + 1, votes := (votes ?e)(j := Counted)\<rparr>]\<rparr>))"
    unfolding w_def using ret s k jc by (simp add: standing_def)
  moreover have "calm ?c" using calm by (simp add: calm_def nodes_def)
  moreover have "\<not> stale_vote k j ?c" using s k jc by (simp add: stale_vote_def standing_def Let_def)
  ultimately show ?thesis
    using k jc calm_careful(2) [OF calm, of k j True] call calm_careful(3) [of ?c k j]
    unfolding vote_for_def e'_def by (simp add: runs_step)
qed

lemma half_vote:
  assumes "standing k e c" "distinct js" "\<forall>j \<in> set js. elector e c j" "js \<noteq> []"
    and "voteNum e + len js = int (servers c div 2) + 1"
  shows "\<exists>c'. runs cluster_step careful (concat (map (vote_for k) js)) c = Some (Inr c') \<and> servers c' = servers c \<and>
    procs c' (cand e) = voted_proc (procs c (cand e)) ((rf_at c (cand e))\<lparr>state := LEADER\<rparr>) True \<and>
    (\<forall>m \<in> nodes c - {cand e}. promoting (procs c' m) = 0)"
  using assms
proof (induction js arbitrary: c e)
  case (Cons j js)
  let ?e = "e\<lparr>voteNum := voteNum e + 1, votes := (votes e)(j := Counted)\<rparr>"
  let ?w = "voteNum e + 1 > int (servers c div 2)"
  have j: "elector e c j" and calm: "calm c" using Cons.prems(1,3) by (simp_all add: standing_def)
  obtain c1 where c1: "runs cluster_step careful (vote_for k j) c = Some (Inr c1)" "servers c1 = servers c"
    "elections c1 = (elections c)[k := ?e]"
    "procs c1 (cand e) = voted_proc (procs c (cand e))
       (if ?w then (rf_at c (cand e))\<lparr>state := LEADER\<rparr> else rf_at c (cand e)) ?w"
    "\<forall>m. m \<noteq> j \<and> m \<noteq> cand e \<longrightarrow> procs c1 m = procs c m" "promoting (procs c1 j) = promoting (procs c j)"
    using one_vote [OF Cons.prems(1) j] by blast
  have quiet: "promoting (procs c1 m) = 0" if "m \<in> nodes c" "m \<noteq> cand e" for m
    using c1(5,6) calm that unfolding calm_def by metis
  show ?case
  proof (cases "js = []")
    case True
    then have ?w using Cons.prems(5) by (simp add: len_def)
    then show ?thesis using c1 quiet True by (intro exI [of _ c1]) simp
  next
    case False
    then have no: "\<not> ?w" using Cons.prems(5) by (cases js) (simp_all add: len_def)
    have same: "procs c1 (cand e) = procs c (cand e)" using c1(4) no by (simp add: voted_proc_def)
    have "promoting (procs c1 m) = 0" if "m \<in> nodes c" for m
      using quiet calm same that by (cases "m = cand e") (auto simp: calm_def)
    then have "calm c1" using c1(2) by (simp add: calm_def nodes_def)
    then have "standing k ?e c1"
      using Cons.prems(1) c1(2,3) same by (simp add: standing_def nodes_def)
    moreover have "\<forall>m \<in> set js. elector ?e c1 m"
    proof
      fix m assume m: "m \<in> set js"
      then have e: "elector e c m" "m \<noteq> j" using Cons.prems(2,3) by auto
      moreover from this have "procs c1 m = procs c m" using c1(5) by (simp add: elector_def)
      ultimately show "elector ?e c1 m" using c1(2) by (simp add: elector_def nodes_def)
    qed
    ultimately obtain c2 where "runs cluster_step careful (concat (map (vote_for k) js)) c1 = Some (Inr c2)"
      "servers c2 = servers c1" "procs c2 (cand e) = voted_proc (procs c1 (cand e)) ((rf_at c1 (cand e))\<lparr>state := LEADER\<rparr>) True"
      "\<forall>m \<in> nodes c1 - {cand e}. promoting (procs c2 m) = 0"
      using Cons.IH [of ?e c1] Cons.prems(2,5) False c1(2) by (auto simp: len_def)
    then show ?thesis
      using c1(1,2) same by (intro exI [of _ c2]) (simp add: runs_append nodes_def)
  qed
qed simp

section \<open>A leader\<close>

text \<open>A live peer that is not ahead of the candidate in term, nor more up to date.\<close>

definition supporter :: "'c Raft \<Rightarrow> 'c Raft \<Rightarrow> bool" where
  "supporter ca rf \<longleftrightarrow> \<not> killed rf \<and> currentTerm rf \<le> currentTerm ca \<and>
     (entryTerm (last (log rf)) < entryTerm (last (log ca)) \<or>
      entryTerm (last (log rf)) = entryTerm (last (log ca)) \<and> len (log rf) \<le> len (log ca))"

definition campaign :: "nat \<Rightarrow> int \<Rightarrow> int list \<Rightarrow> 'c action list" where
  "campaign k i js = timeout_of i @ concat (map (vote_for k) js) @ [Local i E_Promote]"

lemma promotion_leads:
  assumes i: "i \<in> nodes c" and p: "procs c i = voted_proc p (rf\<lparr>state := LEADER\<rparr>) True" "promoting p = 0" "raft_ok rf"
    and others: "\<forall>m \<in> nodes c - {i}. promoting (procs c m) = 0"
  shows "\<exists>c'. runs cluster_step careful [Local i E_Promote] c = Some (Inr c') \<and> state (rf_at c' i) = LEADER \<and>
    term_at c' i = currentTerm rf \<and> log (rf_at c' i) = log rf \<and>
    nextIndex (rf_at c' i) = replicate (peers rf) (len (log rf))"
proof -
  have ok: "raft_ok (rf\<lparr>state := LEADER\<rparr>)" using p(3) by (auto simp: raft_ok_def killed_def delivered_in_order_def)
  have "careful (Local i E_Promote) c"
    using others by (auto simp: careful_def orderly_def overtakes_promotion_def list_ex_iff set_indices nodes_def)
  then show ?thesis
    using i p(1,2) by (simp add: nodes_def on_proc_def voted_proc_def TurnLeader_locked_ok [OF ok])
qed

lemma campaign_wins:
  assumes A: "agrees H c" "es_inv c" and i: "i \<in> nodes c" and calm: "calm c"
    and p: "\<not> killed (rf_at c i)" "state (rf_at c i) \<noteq> LEADER" "pc (procs c i) = MaintainTop"
      "running (electionTimer (rf_at c i))"
    and js: "distinct js" "set js \<subseteq> nodes c - {i}" "js \<noteq> []" "len js = int (servers c div 2)"
      "\<forall>j \<in> set js. supporter (rf_at c i) (rf_at c j)"
  shows "\<exists>c'. runs cluster_step careful (campaign (length (elections c)) i js) c = Some (Inr c') \<and>
    state (rf_at c' i) = LEADER \<and> term_at c' i = term_at c i + 1 \<and> log (rf_at c' i) = log (rf_at c i) \<and>
    nextIndex (rf_at c' i) = replicate (servers c) (len (log (rf_at c i)))"
proof -
  let ?k = "length (elections c)" let ?e = "first_poll i (rf_at c i)"
  have ok: "raft_ok (rf_at c i)" using A(1) i by (rule raft_ok_at)
  note me = es_inv_at(1,2) [OF A(2) i]
  obtain p where t: "runs cluster_step careful (timeout_of i) c =
      Some (Inr (c\<lparr>procs := (procs c)(i := p), elections := elections c @ [?e]\<rparr>))"
    and r: "raft_ok (raft p)" "state (raft p) = CANDIDATE" "currentTerm (raft p) = term_at c i + 1"
      "\<not> killed (raft p)" "log (raft p) = log (rf_at c i)" "peers (raft p) = peers (rf_at c i)" "promoting p = 0"
    using timeout_starts_election [OF i calm ok me(1) p] by blast
  let ?c = "c\<lparr>procs := (procs c)(i := p), elections := elections c @ [?e]\<rparr>"
  have e: "cand ?e = i" "eterm ?e = term_at c i + 1" "voteNum ?e = 1"
    "votes ?e j = (if j \<in> nodes c - {i} then Calling else Idle)" "eargs ?e = asking i (rf_at c i)" for j
    using other_peers_nodes [OF A(2) i] by (simp_all add: first_poll_def asking_def)
  have "calm ?c" using calm r(7) by (simp add: calm_def nodes_def)
  then have "standing ?k ?e ?c"
    unfolding standing_def e(1,2) using i r me(2) by (simp add: nodes_def)
  moreover have "\<forall>j \<in> set js. elector ?e ?c j"
  proof
    fix j assume j: "j \<in> set js"
    then have "j \<in> nodes c" "j \<noteq> i" "supporter (rf_at c i) (rf_at c j)" using js(2,5) by auto
    then show "elector ?e ?c j"
      unfolding elector_def e using own_log(1) [OF A(1)]
      by (auto simp: nodes_def supporter_def up_to_date_def asking_def)
  qed
  ultimately obtain c2 where c2: "runs cluster_step careful (concat (map (vote_for ?k) js)) ?c = Some (Inr c2)"
    "servers c2 = servers c" "procs c2 i = voted_proc p ((raft p)\<lparr>state := LEADER\<rparr>) True"
    "\<forall>m \<in> nodes c - {i}. promoting (procs c2 m) = 0"
    using half_vote [of ?k ?e ?c js] js(1,3,4) unfolding e(1,3) by (auto simp: nodes_def)
  have "i \<in> nodes c2" "\<forall>m \<in> nodes c2 - {i}. promoting (procs c2 m) = 0" using i c2(2,4) by (simp_all add: nodes_def)
  then obtain c' where "runs cluster_step careful [Local i E_Promote] c2 = Some (Inr c')" "state (rf_at c' i) = LEADER"
    "term_at c' i = currentTerm (raft p)" "log (rf_at c' i) = log (raft p)"
    "nextIndex (rf_at c' i) = replicate (peers (raft p)) (len (log (raft p)))"
    using promotion_leads [OF _ c2(3) r(7,1)] by blast
  then show ?thesis
    using t c2(1) r(3,5,6) me(2) unfolding campaign_def runs_append by (intro exI [of _ c']) simp
qed

text \<open>C20: election liveness. In any state that a careful run of any number of peers reaches, with no
  promotion under way on any peer, take a live peer that does not lead, whose election timer runs
  and whose \<open>maintain\<close> goroutine is at the top of its loop (that of a leader deposed while it
  waits in \<open>handleLeader\<close> is not, see \<open>deposed_leader_stuck\<close>). It becomes leader of the next term
  when its timer goes off and its requests to at least one and to half of the peers are answered,
  which are alive, not ahead of it in term and no more up to date; the run stays careful, its log is
  as before, and its next index for every peer is where \<open>log_repair\<close> needs it.\<close>

theorem election_completes:
  assumes "runs cluster_step careful acts (init_cluster n) = Some (Inr c)"
    and "i \<in> {0..<int (servers c)}" "\<forall>j \<in> {0..<int (servers c)}. promoting (procs c j) = 0"
    and "\<not> killed (rf_at c i)" "state (rf_at c i) \<noteq> LEADER" "pc (procs c i) = MaintainTop"
      "running (electionTimer (rf_at c i))"
    and "distinct js" "set js \<subseteq> {0..<int (servers c)} - {i}" "js \<noteq> []" "len js = int (servers c div 2)"
      "\<forall>j \<in> set js. supporter (rf_at c i) (rf_at c j)"
  shows "\<exists>c'. runs cluster_step careful (acts @ campaign (length (elections c)) i js) (init_cluster n) = Some (Inr c') \<and>
    state (rf_at c' i) = LEADER \<and> currentTerm (rf_at c' i) = currentTerm (rf_at c i) + 1 \<and>
    log (rf_at c' i) = log (rf_at c i) \<and>
    nextIndex (rf_at c' i) = replicate (servers c) (len (log (rf_at c i)))"
proof -
  have "agree_inv c" by (rule agreement.runs_inv [OF agree_inv_init assms(1)])
  then obtain H where "agrees H c" "es_inv c" by (auto simp: agree_inv_def match_inv_def)
  then show ?thesis
    using campaign_wins [of H c i js] assms unfolding runs_append calm_def nodes_def by simp
qed

text \<open>Peer 0 of three has led and committed; peer 1, which has its log, is elected by peer 2.\<close>

lemma successor_facts: "case runs cluster_step careful committed_run (init_cluster 3) of
    Some (Inr c) \<Rightarrow> servers c = 3 \<and> promoting (procs c 0) = 0 \<and> promoting (procs c 1) = 0 \<and> promoting (procs c 2) = 0 \<and>
      \<not> killed (rf_at c 1) \<and> state (rf_at c 1) = FOLLOWER \<and> pc (procs c 1) = MaintainTop \<and>
      running (electionTimer (rf_at c 1)) \<and> supporter (rf_at c 1) (rf_at c 2) \<and> term_at c 1 = 1 \<and>
      length (log (rf_at c 1)) = 2 \<and> length (elections c) = 1
  | _ \<Rightarrow> False"
  by code_simp

theorem election_completes_witness:
  "\<exists>c'. runs cluster_step careful (committed_run @ campaign 1 1 [2]) (init_cluster 3) = Some (Inr c') \<and>
     state (rf_at c' 1) = LEADER \<and> currentTerm (rf_at c' 1) = 2 \<and> nextIndex (rf_at c' 1) = [2, 2, 2]"
proof -
  obtain c where c: "runs cluster_step careful committed_run (init_cluster 3) = Some (Inr c)"
    and s: "servers c = 3" "promoting (procs c 0) = 0" "promoting (procs c 1) = 0" "promoting (procs c 2) = 0"
      "\<not> killed (rf_at c 1)" "state (rf_at c 1) = FOLLOWER" "pc (procs c 1) = MaintainTop"
      "running (electionTimer (rf_at c 1))" "supporter (rf_at c 1) (rf_at c 2)" "term_at c 1 = 1"
      "length (log (rf_at c 1)) = 2" "length (elections c) = 1"
    using successor_facts by (auto split: option.splits sum.splits)
  have "{0..<int 3} = {0, 1, 2}" by auto
  then show ?thesis
    using election_completes [OF c, of 1 "[2]"] s by (auto simp: len_def numeral_3_eq_3)
qed

end
