(* ===== verification/GoMaps.thy ===== *)
theory GoMaps
  imports Prelude
begin

text \<open>
  Go maps. A map is an association list; the order of the list is the order in which
  \<open>range\<close> visits the keys, and no lemma fixes that order. The locale states what the
  operations of the components ask of a map, and the loops over its keys are analysed in it.
\<close>

section \<open>The contract of a map\<close>

text \<open>
  What the operations ask of a Go map: lookup after an assignment, and the keys of a
  \<open>range\<close> loop, which assignments to present keys do not change.
\<close>

locale go_map =
  fixes lookup_in :: "'m \<Rightarrow> 'k \<Rightarrow> 'v option"
    and assign :: "'k \<Rightarrow> 'v \<Rightarrow> 'm \<Rightarrow> 'm"
    and keys_of :: "'m \<Rightarrow> 'k list"
  assumes lookup_assign:
      "lookup_in (assign k v m) k' = (if k' = k then Some v else lookup_in m k')"
    and keys_lookup: "k \<in> set (keys_of m) \<longleftrightarrow> lookup_in m k \<noteq> None"
    and keys_assign: "lookup_in m k \<noteq> None \<Longrightarrow> keys_of (assign k v m) = keys_of m"
begin

text \<open>
  \<open>for k := range m { m[k] = f(k, m[k]) }\<close>, where the body may panic: each key is
  transformed on its own.
\<close>

definition sweep :: "('k \<Rightarrow> 'v \<Rightarrow> 'v res) \<Rightarrow> 'k list \<Rightarrow> 'm \<Rightarrow> 'm res" where
  "sweep f ks m = for_res ks (\<lambda>k m. case lookup_in m k of None \<Rightarrow> Inr m
      | Some v \<Rightarrow> bind_res (f k v) (\<lambda>v'. Inr (assign k v' m))) m"

lemma sweep_Nil: "sweep f [] m = Inr m"
  by (simp add: sweep_def)

lemma sweep_Cons:
  "sweep f (k # ks) m = (case lookup_in m k of None \<Rightarrow> sweep f ks m
      | Some v \<Rightarrow> bind_res (f k v) (\<lambda>v'. sweep f ks (assign k v' m)))"
  by (auto simp: sweep_def bind_res_def split: option.splits sum.splits)

lemma sweep_lookup:
  assumes "sweep f ks m = Inr m'" "distinct ks"
  shows "lookup_in m' k =
    (if k \<in> set ks then (case lookup_in m k of None \<Rightarrow> None
                        | Some v \<Rightarrow> (case f k v of Inl _ \<Rightarrow> None | Inr v' \<Rightarrow> Some v'))
     else lookup_in m k)"
  using assms
proof (induction ks arbitrary: m)
  case (Cons x ks)
  show ?case
  proof (cases "lookup_in m x")
    case None
    with Cons show ?thesis by (auto simp: sweep_Cons split: option.splits)
  next
    case (Some v)
    with Cons.prems(1) obtain v' where "f x v = Inr v'" "sweep f ks (assign x v' m) = Inr m'"
      by (auto simp: sweep_Cons bind_res_Inr)
    with Cons.IH [OF this(2)] Cons.prems(2) Some show ?thesis
      by (auto simp: lookup_assign split: option.splits)
  qed
qed (simp add: sweep_Nil)

lemma sweep_ok:
  assumes "distinct ks"
  shows "ok (sweep f ks m) \<longleftrightarrow> (\<forall>k\<in>set ks. \<forall>v. lookup_in m k = Some v \<longrightarrow> ok (f k v))"
  using assms
proof (induction ks arbitrary: m)
  case (Cons x ks)
  show ?case
  proof (cases "lookup_in m x")
    case (Some v)
    have "(\<forall>k\<in>set ks. \<forall>w. lookup_in (assign x v' m) k = Some w \<longrightarrow> ok (f k w))
      \<longleftrightarrow> (\<forall>k\<in>set ks. \<forall>w. lookup_in m k = Some w \<longrightarrow> ok (f k w))" for v'
      using Cons.prems by (auto simp: lookup_assign split: if_splits)
    with Cons Some show ?thesis by (cases "f x v") (auto simp: sweep_Cons)
  qed (use Cons in \<open>auto simp: sweep_Cons\<close>)
qed (simp add: sweep_Nil)

lemma sweep_keys: "sweep f ks m = Inr m' \<Longrightarrow> keys_of m' = keys_of m"
proof (induction ks arbitrary: m)
  case (Cons x ks)
  then show ?case
    by (cases "lookup_in m x") (auto simp: sweep_Cons bind_res_Inr keys_assign)
qed (simp add: sweep_Nil)

end

definition range_keys :: "('k \<times> 'v) list \<Rightarrow> 'k list" where
  "range_keys m = map fst m"

interpretation assoc: go_map map_of AList.update range_keys
proof unfold_locales
  show "map_of (AList.update k v m) k' = (if k' = k then Some v else map_of m k')"
    for k k' :: 'a and v :: 'b and m by (simp add: AList.update_conv')
  show "k \<in> set (range_keys m) \<longleftrightarrow> map_of m k \<noteq> None" for k :: 'a and m :: "('a \<times> 'b) list"
    by (simp add: range_keys_def map_of_eq_None_iff)
  show "map_of m k \<noteq> None \<Longrightarrow> range_keys (AList.update k v m) = range_keys m"
    for k :: 'a and v :: 'b and m
    by (simp add: range_keys_def AList.update_keys map_of_eq_None_iff)
qed

text \<open>Reading a missing key yields the zero value of the element type.\<close>

definition get_or :: "'v \<Rightarrow> ('k \<times> 'v) list \<Rightarrow> 'k \<Rightarrow> 'v" where
  "get_or z m k = (case map_of m k of None \<Rightarrow> z | Some v \<Rightarrow> v)"

abbreviation slot :: "('k \<times> 'v list) list \<Rightarrow> 'k \<Rightarrow> 'v list" where
  "slot \<equiv> get_or []"

lemma get_or_update [simp]: "get_or z (AList.update k v m) k' = (if k' = k then v else get_or z m k')"
  by (simp add: get_or_def AList.update_conv')

lemma get_or_delete [simp]: "get_or z (AList.delete k m) k' = (if k' = k then z else get_or z m k')"
  by (simp add: get_or_def AList.delete_conv')

lemma get_or_Nil [simp]: "get_or z [] k = z"
  by (simp add: get_or_def)

lemma get_or_Some: "map_of m k = Some v \<Longrightarrow> get_or z m k = v"
  by (simp add: get_or_def)

lemma get_or_cases: "get_or z m k \<noteq> z \<Longrightarrow> map_of m k = Some (get_or z m k)"
  by (auto simp: get_or_def split: option.splits)

lemma AList_update_mem: "(k', v') \<in> set (AList.update k v m) \<Longrightarrow> (k', v') \<in> set m \<or> k' = k \<and> v' = v"
  by (induction m) (auto split: if_splits)

end
