(* ===== verification/RpcNetwork.thy ===== *)
theory RpcNetwork
  imports GoMaps
begin

text \<open>
  \<open>mp2/src/labrpc/labrpc.go\<close>: the simulated network. The maps of \<open>Network\<close>,
  the life of one request in \<open>processReq\<close> (routing, loss, waiting for the handler while
  the server may be deleted, loss or delay of the reply), the dispatch of a request to a
  service and its method, and \<open>Call\<close>. A pointer to a \<open>Server\<close> is a number, nil is
  \<open>None\<close>. The outcomes of \<open>rand\<close> are arguments. Delays are not modelled: the order
  of the steps of different requests is the scheduler's.
\<close>

section \<open>The network\<close>

record Network =
  reliable :: bool
  longDelays :: bool
  longReordering :: bool
  ends :: "string list"
  enabled :: "(string \<times> bool) list"
  net_servers :: "(int \<times> nat option) list"
  connections :: "(string \<times> int option) list"
  rpc_count :: int
  rpc_bytes :: int
  net_done :: bool \<comment> \<open>\<open>done\<close> is closed\<close>

definition MakeNetwork :: Network where
  "MakeNetwork = \<lparr>reliable = True, longDelays = False, longReordering = False, ends = [], enabled = [],
     net_servers = [], connections = [], rpc_count = 0, rpc_bytes = 0, net_done = False\<rparr>"

definition Cleanup :: "Network \<Rightarrow> Network res" where
  "Cleanup rn = (if net_done rn then Inl (Panicked ''close of closed channel'') else Inr (rn\<lparr>net_done := True\<rparr>))"

text \<open>What the goroutine of \<open>MakeNetwork\<close> does with a request before \<open>processReq\<close>.\<close>

definition accept_request :: "string \<Rightarrow> Network \<Rightarrow> Network" where
  "accept_request args rn = rn\<lparr>rpc_count := rpc_count rn + 1, rpc_bytes := rpc_bytes rn + len args\<rparr>"

definition Reliable :: "bool \<Rightarrow> Network \<Rightarrow> Network" where
  "Reliable yes rn = rn\<lparr>reliable := yes\<rparr>"

definition LongReordering :: "bool \<Rightarrow> Network \<Rightarrow> Network" where
  "LongReordering yes rn = rn\<lparr>longReordering := yes\<rparr>"

definition LongDelays :: "bool \<Rightarrow> Network \<Rightarrow> Network" where
  "LongDelays yes rn = rn\<lparr>longDelays := yes\<rparr>"

definition MakeEnd :: "string \<Rightarrow> Network \<Rightarrow> Network res" where
  "MakeEnd endname rn =
     (if endname \<in> set (ends rn) then Inl (Fatal ''MakeEnd: already exists'')
      else Inr (rn\<lparr>ends := endname # ends rn, enabled := AList.update endname False (enabled rn),
                   connections := AList.update endname None (connections rn)\<rparr>))"

definition AddServer :: "int \<Rightarrow> nat \<Rightarrow> Network \<Rightarrow> Network" where
  "AddServer servername rs rn = rn\<lparr>net_servers := AList.update servername (Some rs) (net_servers rn)\<rparr>"

definition DeleteServer :: "int \<Rightarrow> Network \<Rightarrow> Network" where
  "DeleteServer servername rn = rn\<lparr>net_servers := AList.update servername None (net_servers rn)\<rparr>"

definition Connect :: "string \<Rightarrow> int \<Rightarrow> Network \<Rightarrow> Network" where
  "Connect endname servername rn =
     rn\<lparr>connections := AList.update endname (Some servername) (connections rn)\<rparr>"

definition Enable :: "string \<Rightarrow> bool \<Rightarrow> Network \<Rightarrow> Network" where
  "Enable endname yes rn = rn\<lparr>enabled := AList.update endname yes (enabled rn)\<rparr>"

text \<open>The statistics; \<open>counts\<close> are the counters of the servers, by pointer.\<close>

definition GetCount :: "(nat \<Rightarrow> int) \<Rightarrow> int \<Rightarrow> Network \<Rightarrow> int res" where
  "GetCount counts servername rn =
     (case get_or None (net_servers rn) servername of None \<Rightarrow> Inl Nil_dereference | Some server \<Rightarrow> Inr (counts server))"

definition GetTotalCount :: "Network \<Rightarrow> int" where
  "GetTotalCount rn = rpc_count rn"

definition GetTotalBytes :: "Network \<Rightarrow> int" where
  "GetTotalBytes rn = rpc_bytes rn"

definition is_enabled :: "Network \<Rightarrow> string \<Rightarrow> bool" where
  "is_enabled rn endname = get_or False (enabled rn) endname"

section \<open>One request\<close>

definition readEndnameInfo :: "string \<Rightarrow> Network \<Rightarrow> bool \<times> int option \<times> nat option \<times> bool \<times> bool" where
  "readEndnameInfo endname rn =
     (let servername = get_or None (connections rn) endname
      in (is_enabled rn endname, servername,
          (case servername of None \<Rightarrow> None | Some s \<Rightarrow> get_or None (net_servers rn) s),
          reliable rn, longReordering rn))"

definition isServerDead :: "string \<Rightarrow> int \<Rightarrow> nat \<Rightarrow> Network \<Rightarrow> bool" where
  "isServerDead endname servername server rn \<longleftrightarrow>
     \<not> is_enabled rn endname \<or> get_or None (net_servers rn) servername \<noteq> Some server"

text \<open>
  Where a request goes: nowhere (it fails after a delay), lost on an unreliable network, or
  to the handler of a server. \<open>coin\<close> is \<open>rand.Int()\<close>.
\<close>

datatype route = Not_connected | Request_lost | Dispatched int nat

definition begin_request :: "string \<Rightarrow> nat \<Rightarrow> Network \<Rightarrow> route" where
  "begin_request endname coin rn =
     (case readEndnameInfo endname rn of
        (yes, Some servername, Some server, rel, _) \<Rightarrow>
          if \<not> yes then Not_connected
          else if \<not> rel \<and> coin mod 1000 < 100 then Request_lost
          else Dispatched servername server
      | _ \<Rightarrow> Not_connected)"

text \<open>
  What the waiting loop sees: the handler's reply, or another 100 milliseconds passed and
  the network as it is then. \<open>None\<close> while it still waits; \<open>Some None\<close> when the
  server was found dead.
\<close>

datatype 'r poll = Handler_replied 'r | Poll Network

fun await_reply :: "string \<Rightarrow> int \<Rightarrow> nat \<Rightarrow> 'r poll list \<Rightarrow> 'r option option" where
  "await_reply endname servername server [] = None"
| "await_reply endname servername server (Handler_replied r # es) = Some (Some r)"
| "await_reply endname servername server (Poll rn # es) =
     (if isServerDead endname servername server rn then Some None
      else await_reply endname servername server es)"

text \<open>\<open>replyMsg{false, nil}\<close> is \<open>None\<close>, \<open>replyMsg{true, r}\<close> is \<open>Some r\<close>.\<close>

definition end_request ::
    "string \<Rightarrow> int \<Rightarrow> nat \<Rightarrow> bool \<Rightarrow> string option \<Rightarrow> nat \<Rightarrow> Network \<Rightarrow> string option \<times> Network" where
  "end_request endname servername server rel outcome coin rn =
     (case outcome of
        None \<Rightarrow> (None, rn)
      | Some r \<Rightarrow>
          if isServerDead endname servername server rn then (None, rn)
          else if \<not> rel \<and> coin mod 1000 < 100 then (None, rn)
          else (Some r, rn\<lparr>rpc_bytes := rpc_bytes rn + len r\<rparr>))"

text \<open>
  \<open>processReq\<close>: \<open>rn\<close> is the network when the request arrives, \<open>rn'\<close> when the
  waiting is over.
\<close>

definition processReq ::
    "string \<Rightarrow> nat \<Rightarrow> nat \<Rightarrow> string poll list \<Rightarrow> Network \<Rightarrow> Network \<Rightarrow> (string option \<times> Network) option" where
  "processReq endname coin1 coin2 es rn rn' =
     (case begin_request endname coin1 rn of
        Not_connected \<Rightarrow> Some (None, rn')
      | Request_lost \<Rightarrow> Some (None, rn')
      | Dispatched servername server \<Rightarrow>
          map_option (\<lambda>outcome. end_request endname servername server (reliable rn) outcome coin2 rn')
            (await_reply endname servername server es))"

section \<open>Dispatch\<close>

text \<open>
  A method of a receiver with state \<open>'s\<close>, from the bytes of its argument to those of its
  reply; \<open>reflect\<close>'s description of it is what \<open>MakeService\<close> tests.
\<close>

record 's Method =
  m_name :: string
  m_exported :: bool
  m_numIn :: int
  m_in2_ptr :: bool
  m_numOut :: int
  m_func :: "string \<Rightarrow> 's \<Rightarrow> (string \<times> 's) res"

record 's Service =
  svc_name :: string
  svc_methods :: "(string \<times> 's Method) list"

record 's RpcServer =
  services :: "(string \<times> 's Service) list"
  srv_count :: int

definition MakeServer :: "'s RpcServer" where
  "MakeServer = \<lparr>services = [], srv_count = 0\<rparr>"

definition AddService :: "'s Service \<Rightarrow> 's RpcServer \<Rightarrow> 's RpcServer" where
  "AddService svc rs = rs\<lparr>services := AList.update (svc_name svc) svc (services rs)\<rparr>"

definition suitable :: "'s Method \<Rightarrow> bool" where
  "suitable m \<longleftrightarrow> m_exported m \<and> m_numIn m = 3 \<and> m_in2_ptr m \<and> m_numOut m = 0"

definition MakeService :: "string \<Rightarrow> 's Method list \<Rightarrow> 's Service" where
  "MakeService typename ms =
     \<lparr>svc_name = typename,
      svc_methods = fold (\<lambda>m tab. if suitable m then AList.update (m_name m) m tab else tab) ms []\<rparr>"

fun LastIndex :: "string \<Rightarrow> char \<Rightarrow> int" where
  "LastIndex [] c = -1"
| "LastIndex (x # xs) c =
     (let i = LastIndex xs c in if i \<ge> 0 then i + 1 else if x = c then 0 else -1)"

definition Service_dispatch :: "string \<Rightarrow> string \<Rightarrow> 's Service \<Rightarrow> 's \<Rightarrow> (string \<times> 's) res" where
  "Service_dispatch methname args svc s =
     (case map_of (svc_methods svc) methname of
        Some m \<Rightarrow> m_func m args s
      | None \<Rightarrow> Inl (Fatal ''labrpc.Service.dispatch(): unknown method''))"

definition Server_dispatch ::
    "string \<Rightarrow> string \<Rightarrow> 's RpcServer \<Rightarrow> 's \<Rightarrow> 's RpcServer \<times> (string \<times> 's) res" where
  "Server_dispatch svcMeth args rs s =
     (rs\<lparr>srv_count := srv_count rs + 1\<rparr>,
      let dot = LastIndex svcMeth (CHR ''.'')
      in bind_res (slice_to svcMeth dot) (\<lambda>serviceName.
         bind_res (slice_from svcMeth (dot + 1)) (\<lambda>methodName.
           case map_of (services rs) serviceName of
             Some service \<Rightarrow> Service_dispatch methodName args service s
           | None \<Rightarrow> Inl (Fatal ''labrpc.Server.dispatch(): unknown service''))))"

text \<open>
  The handler that \<open>Service.dispatch\<close> runs for a Go method \<open>f\<close>: gob decodes the
  argument, \<open>f\<close> fills the reply, gob encodes it. gob is not part of the repository:
  \<open>decode_args\<close> and \<open>encode_reply\<close> are parameters.
\<close>

definition handler ::
    "(string \<Rightarrow> 'a) \<Rightarrow> ('r \<Rightarrow> string) \<Rightarrow> ('a \<Rightarrow> 's \<Rightarrow> ('r \<times> 's) res) \<Rightarrow> string \<Rightarrow> 's \<Rightarrow> (string \<times> 's) res" where
  "handler decode_args encode_reply f bytes s =
     map_res (\<lambda>(r, s'). (encode_reply r, s')) (f (decode_args bytes) s)"

text \<open>\<open>Call\<close>, after the request: the reply is decoded over the caller's variable.\<close>

definition Call_return :: "(string \<Rightarrow> 'r \<Rightarrow> 'r option) \<Rightarrow> string option \<Rightarrow> 'r \<Rightarrow> (bool \<times> 'r) res" where
  "Call_return decode_reply rep reply =
     (case rep of
        None \<Rightarrow> Inr (False, reply)
      | Some bytes \<Rightarrow> (case decode_reply bytes reply of
            None \<Rightarrow> Inl (Fatal ''ClientEnd.Call(): decode reply'')
          | Some r \<Rightarrow> Inr (True, r)))"

text \<open>
  \<open>Call\<close>: once the network is cleaned up the \<open>select\<close> may take the closed
  channel; \<open>rep\<close> is what \<open>processReq\<close> sent on the reply channel.
\<close>

definition Call ::
    "(string \<Rightarrow> 'r \<Rightarrow> 'r option) \<Rightarrow> bool \<Rightarrow> Network \<Rightarrow> string option \<Rightarrow> 'r \<Rightarrow> (bool \<times> 'r) res" where
  "Call decode_reply takes_done rn rep reply =
     (if net_done rn \<and> takes_done then Inr (False, reply) else Call_return decode_reply rep reply)"

section \<open>What reaches whom\<close>

lemma is_enabled_Enable [simp]:
  "is_enabled (Enable e yes rn) e' = (if e' = e then yes else is_enabled rn e')"
  by (simp add: is_enabled_def Enable_def)

lemma begin_request_dispatched:
  "begin_request endname coin rn = Dispatched servername server \<longleftrightarrow>
     is_enabled rn endname \<and> get_or None (connections rn) endname = Some servername \<and>
     get_or None (net_servers rn) servername = Some server \<and> (reliable rn \<or> 100 \<le> coin mod 1000)"
  by (auto simp: begin_request_def readEndnameInfo_def Let_def split: option.splits)

lemma await_reply_result:
  "await_reply endname servername server es = Some (Some r) \<Longrightarrow> Handler_replied r \<in> set es"
  by (induction endname servername server es rule: await_reply.induct) (auto split: if_splits)

text \<open>A reply that arrives was made by the server the request was routed to, still in place.\<close>

lemma processReq_delivers:
  assumes "processReq endname coin1 coin2 es rn rn' = Some (Some r, rn2)"
  shows "\<exists>servername server.
    begin_request endname coin1 rn = Dispatched servername server \<and>
    Handler_replied r \<in> set es \<and> \<not> isServerDead endname servername server rn' \<and>
    rn2 = rn'\<lparr>rpc_bytes := rpc_bytes rn' + len r\<rparr>"
  using assms
  by (auto simp: processReq_def end_request_def dest!: await_reply_result split: route.splits option.splits if_splits)

lemma processReq_disabled:
  "\<not> is_enabled rn endname \<Longrightarrow> processReq endname coin1 coin2 es rn rn' = Some (None, rn')"
  by (auto simp: processReq_def begin_request_def readEndnameInfo_def Let_def split: option.splits)

text \<open>On a reliable network an undisturbed request is answered.\<close>

lemma processReq_answers:
  assumes "begin_request endname coin1 rn = Dispatched servername server" "reliable rn"
    and "\<forall>p\<in>set ps. \<not> isServerDead endname servername server p"
    and "\<not> isServerDead endname servername server rn'"
  shows "processReq endname coin1 coin2 (map Poll ps @ [Handler_replied r]) rn rn' =
    Some (Some r, rn'\<lparr>rpc_bytes := rpc_bytes rn' + len r\<rparr>)"
proof -
  have "await_reply endname servername server (map Poll ps @ [Handler_replied r]) = Some (Some r)"
    using assms(3) by (induction ps) auto
  then show ?thesis using assms by (simp add: processReq_def end_request_def)
qed

lemma LastIndex_none: "c \<notin> set s \<Longrightarrow> LastIndex s c = -1"
  by (induction s) auto

lemma LastIndex_split: "c \<notin> set m \<Longrightarrow> LastIndex (s @ c # m) c = len s"
proof (induction s)
  case Nil
  then show ?case by (simp add: LastIndex_none)
next
  case (Cons x s)
  then have "LastIndex (s @ c # m) c \<ge> 0" by simp
  with Cons show ?case by simp
qed

lemma Server_dispatch_method:
  assumes "CHR ''.'' \<notin> set meth"
  shows "snd (Server_dispatch (svc @ CHR ''.'' # meth) args rs s) =
    (case map_of (services rs) svc of
       Some service \<Rightarrow> Service_dispatch meth args service s
     | None \<Rightarrow> Inl (Fatal ''labrpc.Server.dispatch(): unknown service''))"
proof -
  have "nat (len svc + 1) = Suc (length svc)" by (simp add: len_def)
  then show ?thesis
    using LastIndex_split [OF assms, of svc]
    by (simp add: Server_dispatch_def Let_def slice_to_def slice_from_def)
qed

lemma MakeService_methods:
  assumes "distinct (map m_name ms)"
  shows "map_of (svc_methods (MakeService typename ms)) n = find (\<lambda>m. m_name m = n) (filter suitable ms)"
proof -
  have "map_of (fold (\<lambda>m tab. if suitable m then AList.update (m_name m) m tab else tab) ms tab) n =
    (case find (\<lambda>m. m_name m = n) (filter suitable ms) of Some m \<Rightarrow> Some m | None \<Rightarrow> map_of tab n)"
    for tab using assms
  proof (induction ms arbitrary: tab)
    case (Cons m ms)
    have "m_name m' \<noteq> m_name m" if "m' \<in> set ms" for m'
      using Cons.prems imageI [OF that, of m_name] by auto
    then have "find (\<lambda>m'. m_name m' = n) (filter suitable ms) = None" if "m_name m = n"
      using that by (auto simp: find_None_iff)
    with Cons show ?case by (auto simp: AList.update_conv' split: option.splits)
  qed simp
  then show ?thesis by (auto simp: MakeService_def split: option.splits)
qed

end
