(* ===== verification/RaftConfig.thy ===== *)
theory RaftConfig
  imports RaftState RpcNetwork
begin

text \<open>
  \<open>mp2/src/raft/config.go\<close>: the configuration that runs a group of peers on the
  simulated network. \<open>connect\<close> and \<open>disconnect\<close> switch the matrix of end
  points, the reader of an apply channel records what each peer committed, and the checks
  of the tests look at the peers. Peer numbers are \<open>int\<close>, out of range they panic.
\<close>

datatype apply_error = Different_value int int | Out_of_order int

record 'c config =
  cfg_net :: Network
  n :: nat
  rafts :: "'c Raft option list"
  applyErr :: "apply_error option list"
  connected :: "bool list"
  endnames :: "string list option list"
  logs :: "(int \<times> 'c option) list list"
  maxIndex :: int

section \<open>Starting and connecting peers\<close>

definition row_of :: "string list option \<Rightarrow> string list" where
  "row_of r = (case r of None \<Rightarrow> [] | Some xs \<Rightarrow> xs)"

definition endname :: "int \<Rightarrow> int \<Rightarrow> 'c config \<Rightarrow> string res" where
  "endname i j cfg = bind_res (idx (endnames cfg) i) (\<lambda>r. idx (row_of r) j)"

definition set_enabled :: "int \<Rightarrow> int \<Rightarrow> bool \<Rightarrow> 'c config \<Rightarrow> 'c config res" where
  "set_enabled i j yes cfg = map_res (\<lambda>e. cfg\<lparr>cfg_net := Enable e yes (cfg_net cfg)\<rparr>) (endname i j cfg)"

text \<open>The random names \<open>randstring(20)\<close> and the new \<open>Server\<close> are arguments.\<close>

definition start1 :: "int \<Rightarrow> string list \<Rightarrow> nat \<Rightarrow> 'c config \<Rightarrow> 'c config res" where
  "start1 i names srv cfg =
     bind_res (upd (endnames cfg) i (Some names)) (\<lambda>rows.
     bind_res (for_res (indices (n cfg)) (\<lambda>j cfg.
         bind_res (endname i j cfg) (\<lambda>e.
         map_res (\<lambda>rn. cfg\<lparr>cfg_net := Connect e j rn\<rparr>) (MakeEnd e (cfg_net cfg))))
       (cfg\<lparr>endnames := rows\<rparr>)) (\<lambda>cfg.
     bind_res (upd (rafts cfg) i (Some (Make (n cfg) i))) (\<lambda>rs.
     Inr (cfg\<lparr>rafts := rs, cfg_net := AddServer i srv (cfg_net cfg)\<rparr>))))"

definition connect :: "int \<Rightarrow> 'c config \<Rightarrow> 'c config res" where
  "connect i cfg =
     bind_res (upd (connected cfg) i True) (\<lambda>cs.
     bind_res (for_res (indices (n cfg)) (\<lambda>j cfg.
         bind_res (idx (connected cfg) j) (\<lambda>c. if c then set_enabled i j True cfg else Inr cfg))
       (cfg\<lparr>connected := cs\<rparr>))
     (for_res (indices (n cfg)) (\<lambda>j cfg.
         bind_res (idx (connected cfg) j) (\<lambda>c. if c then set_enabled j i True cfg else Inr cfg))))"

definition disconnect :: "int \<Rightarrow> 'c config \<Rightarrow> 'c config res" where
  "disconnect i cfg =
     bind_res (upd (connected cfg) i False) (\<lambda>cs.
     bind_res (for_res (indices (n cfg)) (\<lambda>j cfg.
         bind_res (idx (endnames cfg) i) (\<lambda>r. if r \<noteq> None then set_enabled i j False cfg else Inr cfg))
       (cfg\<lparr>connected := cs\<rparr>))
     (for_res (indices (n cfg)) (\<lambda>j cfg.
         bind_res (idx (endnames cfg) j) (\<lambda>r. if r \<noteq> None then set_enabled j i False cfg else Inr cfg))))"

definition setunreliable :: "bool \<Rightarrow> 'c config \<Rightarrow> 'c config" where
  "setunreliable unrel cfg = cfg\<lparr>cfg_net := Reliable (\<not> unrel) (cfg_net cfg)\<rparr>"

definition setlongreordering :: "bool \<Rightarrow> 'c config \<Rightarrow> 'c config" where
  "setlongreordering longrel cfg = cfg\<lparr>cfg_net := LongReordering longrel (cfg_net cfg)\<rparr>"

definition empty_config :: "nat \<Rightarrow> 'c config" where
  "empty_config k = \<lparr>cfg_net = MakeNetwork, n = k, rafts = replicate k None, applyErr = replicate k None,
     connected = replicate k False, endnames = replicate k None, logs = replicate k [], maxIndex = 0\<rparr>"

text \<open>\<open>names i\<close> are the end names drawn for peer \<open>i\<close>, \<open>srv i\<close> its server.\<close>

definition make_config ::
    "nat \<Rightarrow> bool \<Rightarrow> (int \<Rightarrow> string list) \<Rightarrow> (int \<Rightarrow> nat) \<Rightarrow> 'c config res" where
  "make_config k unreliable names srv =
     (let cfg = setunreliable unreliable (empty_config k);
          cfg = cfg\<lparr>cfg_net := LongDelays True (cfg_net cfg)\<rparr>
      in bind_res (for_res (indices k) (\<lambda>i. start1 i (names i) (srv i)) cfg)
           (for_res (indices k) connect))"

section \<open>Reading an apply channel\<close>

text \<open>
  One message on the apply channel of peer \<open>i\<close>: whether the reader goes on, and the
  configuration. The error of a different value names the last peer that has one.
\<close>

definition differing :: "'c ApplyMsg \<Rightarrow> 'c config \<Rightarrow> int option" where
  "differing m cfg = fold (\<lambda>j err.
     case map_of (logs cfg ! nat j) (CommandIndex m) of
       Some old \<Rightarrow> if old \<noteq> ApplyCommand m then Some j else err
     | None \<Rightarrow> err) (indices (length (logs cfg))) None"

definition max_index :: "int \<Rightarrow> int \<Rightarrow> int" where
  "max_index i cur = (if i > cur then i else cur)"

definition read_apply :: "int \<Rightarrow> 'c ApplyMsg \<Rightarrow> 'c config \<Rightarrow> (bool \<times> 'c config) res" where
  "read_apply i m cfg =
     (if \<not> CommandValid m then Inr (True, cfg)
      else bind_res (idx (logs cfg) i) (\<lambda>lg.
           let prevok = (map_of lg (CommandIndex m - 1) \<noteq> None);
               err1 = map_option (\<lambda>j. Different_value i j) (differing m cfg);
               err2 = (if CommandIndex m > 1 \<and> \<not> prevok then Some (Out_of_order i) else err1)
           in bind_res (upd (logs cfg) i (AList.update (CommandIndex m) (ApplyCommand m) lg)) (\<lambda>lgs.
              let cfg = cfg\<lparr>logs := lgs, maxIndex := max_index (CommandIndex m) (maxIndex cfg)\<rparr>
              in case err2 of
                   None \<Rightarrow> Inr (True, cfg)
                 | Some e \<Rightarrow> map_res (\<lambda>es. (False, cfg\<lparr>applyErr := es\<rparr>)) (upd (applyErr cfg) i (Some e)))))"

fun read_applies :: "int \<Rightarrow> 'c ApplyMsg list \<Rightarrow> 'c config \<Rightarrow> 'c config res" where
  "read_applies i [] cfg = Inr cfg"
| "read_applies i (m # ms) cfg =
     bind_res (read_apply i m cfg) (\<lambda>(goes_on, cfg). if goes_on then read_applies i ms cfg else Inr cfg)"

section \<open>The checks\<close>

text \<open>\<open>GetState\<close> of every peer, with its \<open>connected\<close> flag.\<close>

definition leader_table :: "(bool \<times> int \<times> bool) list \<Rightarrow> (int \<times> int list) list" where
  "leader_table ps = fold (\<lambda>(i, c, t, l) tab.
     if c \<and> l then AList.update t (slot tab t @ [i]) tab else tab) (zip (indices (length ps)) ps) []"

text \<open>One iteration of \<open>checkOneLeader\<close>; \<open>None\<close> goes on to the next.\<close>

definition one_leader_round :: "(bool \<times> int \<times> bool) list \<Rightarrow> int option res" where
  "one_leader_round ps =
     (let leaders = leader_table ps
      in if list_ex (\<lambda>(t, is). len is > 1) leaders then Inl (Fatal ''term has (>1) leaders'')
         else if leaders \<noteq> [] then
           bind_res (idx (slot leaders (fold (\<lambda>(t, _) last. if t > last then t else last) leaders (-1))) 0)
             (\<lambda>i. Inr (Some i))
         else Inr None)"

fun one_leader_rounds :: "(bool \<times> int \<times> bool) list list \<Rightarrow> int res" where
  "one_leader_rounds [] = Inl (Fatal ''expected one leader, got none'')"
| "one_leader_rounds (ps # rounds) =
     bind_res (one_leader_round ps) (\<lambda>r. case r of Some i \<Rightarrow> Inr i | None \<Rightarrow> one_leader_rounds rounds)"

text \<open>\<open>checkOneLeader\<close>: ten iterations; \<open>env k\<close> is what the \<open>k\<close>-th sees.\<close>

definition checkOneLeader :: "(nat \<Rightarrow> (bool \<times> int \<times> bool) list) \<Rightarrow> int res" where
  "checkOneLeader env = one_leader_rounds (map env [0..<10])"

definition checkTerms :: "(bool \<times> int \<times> bool) list \<Rightarrow> int res" where
  "checkTerms ps = for_res ps (\<lambda>(c, xterm, _) t.
     if c then (if t = -1 then Inr xterm else if t \<noteq> xterm then Inl (Fatal ''servers disagree on term'') else Inr t)
     else Inr t) (-1)"

definition checkNoLeader :: "(bool \<times> int \<times> bool) list \<Rightarrow> unit res" where
  "checkNoLeader ps = for_res ps (\<lambda>(c, _, is_leader) u.
     if c \<and> is_leader then Inl (Fatal ''expected no leader'') else Inr u) ()"

definition nCommitted :: "int \<Rightarrow> 'c config \<Rightarrow> (int \<times> 'c option) res" where
  "nCommitted index cfg = for_res (indices (length (rafts cfg))) (\<lambda>i (count, cmd).
     bind_res (idx (applyErr cfg) i) (\<lambda>err.
     case err of
       Some _ \<Rightarrow> Inl (Fatal ''apply error'')
     | None \<Rightarrow> bind_res (idx (logs cfg) i) (\<lambda>lg.
         case map_of lg index of
           None \<Rightarrow> Inr (count, cmd)
         | Some cmd1 \<Rightarrow>
             if count > 0 \<and> cmd \<noteq> cmd1 then Inl (Fatal ''committed values do not match'')
             else Inr (count + 1, cmd1)))) (0, None)"

section \<open>The matrix of end points\<close>

definition ename :: "'c config \<Rightarrow> nat \<Rightarrow> nat \<Rightarrow> string" where
  "ename cfg i j = row_of (endnames cfg ! i) ! j"

definition shaped :: "'c config \<Rightarrow> bool" where
  "shaped cfg \<longleftrightarrow>
     length (connected cfg) = n cfg \<and> length (endnames cfg) = n cfg \<and>
     (\<forall>i < n cfg. \<exists>row. endnames cfg ! i = Some row \<and> length row = n cfg) \<and>
     (\<forall>i < n cfg. \<forall>j < n cfg. \<forall>a < n cfg. \<forall>b < n cfg. ename cfg i j = ename cfg a b \<longrightarrow> i = a \<and> j = b)"

text \<open>An end point is enabled exactly between two connected peers.\<close>

definition matrix_ok :: "'c config \<Rightarrow> bool" where
  "matrix_ok cfg \<longleftrightarrow> shaped cfg \<and>
     (\<forall>i < n cfg. \<forall>j < n cfg.
        is_enabled (cfg_net cfg) (ename cfg i j) \<longleftrightarrow> connected cfg ! i \<and> connected cfg ! j)"

lemma shapedD:
  assumes "shaped cfg"
  shows "length (connected cfg) = n cfg" "length (endnames cfg) = n cfg"
    "i < n cfg \<Longrightarrow> \<exists>row. endnames cfg ! i = Some row \<and> length row = n cfg"
    "i < n cfg \<Longrightarrow> j < n cfg \<Longrightarrow> a < n cfg \<Longrightarrow> b < n cfg \<Longrightarrow> ename cfg i j = ename cfg a b \<longleftrightarrow> i = a \<and> j = b"
  using assms unfolding shaped_def by blast+

lemma enable_fold:
  "is_enabled (fold (\<lambda>e. Enable e yes) es rn) e' = (if e' \<in> set es then yes else is_enabled rn e')"
  by (induction es arbitrary: rn) auto

text \<open>A loop that switches the end points \<open>f j\<close> of the peers with \<open>P j\<close>.\<close>

lemma switch_loop:
  assumes "\<And>j net. j < k \<Longrightarrow> body (int j) (cfg\<lparr>cfg_net := net\<rparr>) =
    Inr (cfg\<lparr>cfg_net := if P j then Enable (f j) yes net else net\<rparr>)"
  shows "for_res (indices k) body cfg =
    Inr (cfg\<lparr>cfg_net := fold (\<lambda>e. Enable e yes) (map f (filter P [0..<k])) (cfg_net cfg)\<rparr>)"
  using assms
proof (induction k)
  case 0
  then show ?case by (simp add: indices_def)
next
  case (Suc k)
  then have "for_res (indices k) body cfg =
    Inr (cfg\<lparr>cfg_net := fold (\<lambda>e. Enable e yes) (map f (filter P [0..<k])) (cfg_net cfg)\<rparr>)" by simp
  with Suc.prems [of k] show ?case by (simp add: indices_Suc for_res_append)
qed

lemma set_enabled_eq:
  assumes "i < n cfg" "j < n cfg" "shaped cfg"
  shows "set_enabled (int i) (int j) yes (cfg\<lparr>cfg_net := net\<rparr>) =
    Inr (cfg\<lparr>cfg_net := Enable (ename cfg i j) yes net\<rparr>)"
proof -
  obtain row where "endnames cfg ! i = Some row" "length row = n cfg" using shapedD(3) [OF assms(3,1)] by blast
  then show ?thesis
    using assms shapedD(2) [OF assms(3)]
    by (simp add: set_enabled_def endname_def idx_int row_of_def ename_def)
qed

lemma shaped_connected: "shaped cfg \<Longrightarrow> length cs = n cfg \<Longrightarrow> shaped (cfg\<lparr>connected := cs\<rparr>)"
  by (simp add: shaped_def ename_def)

lemma shaped_net: "shaped (cfg\<lparr>cfg_net := net\<rparr>) \<longleftrightarrow> shaped cfg"
  by (simp add: shaped_def ename_def)

lemma connect_result:
  assumes sh: "shaped cfg" and i: "i < n cfg"
  shows "connect (int i) cfg = Inr (cfg\<lparr>connected := (connected cfg)[i := True],
    cfg_net := fold (\<lambda>e. Enable e True) (map (\<lambda>j. ename cfg j i) (filter (\<lambda>j. (connected cfg)[i := True] ! j) [0..<n cfg]))
      (fold (\<lambda>e. Enable e True) (map (\<lambda>j. ename cfg i j) (filter (\<lambda>j. (connected cfg)[i := True] ! j) [0..<n cfg]))
        (cfg_net cfg))\<rparr>)"
proof -
  let ?c = "cfg\<lparr>connected := (connected cfg)[i := True]\<rparr>"
  have sc: "shaped ?c" using sh shapedD(1) [OF sh] by (simp add: shaped_connected)
  have len: "length (connected ?c) = n cfg" using shapedD(1) [OF sh] by simp
  have e: "ename ?c a b = ename cfg a b" for a b by (simp add: ename_def)
  have out: "for_res (indices (n cfg)) (\<lambda>j cfg.
      bind_res (idx (connected cfg) j) (\<lambda>c. if c then set_enabled (int i) j True cfg else Inr cfg)) ?c =
    Inr (?c\<lparr>cfg_net := fold (\<lambda>e. Enable e True) (map (\<lambda>j. ename cfg i j) (filter (\<lambda>j. connected ?c ! j) [0..<n cfg]))
      (cfg_net ?c)\<rparr>)"
    using len i set_enabled_eq [OF _ _ sc, of i] by (intro switch_loop) (simp add: idx_int e)
  have inc: "for_res (indices (n cfg)) (\<lambda>j cfg.
      bind_res (idx (connected cfg) j) (\<lambda>c. if c then set_enabled j (int i) True cfg else Inr cfg)) (?c\<lparr>cfg_net := rn\<rparr>) =
    Inr (?c\<lparr>cfg_net := fold (\<lambda>e. Enable e True) (map (\<lambda>j. ename cfg j i) (filter (\<lambda>j. connected ?c ! j) [0..<n cfg])) rn\<rparr>)"
    for rn
    using len i set_enabled_eq [OF _ _ sc, of _ i]
      switch_loop [where cfg = "?c\<lparr>cfg_net := rn\<rparr>" and k = "n cfg" and yes = True and
        P = "\<lambda>j. connected ?c ! j" and f = "\<lambda>j. ename cfg j i" and
        body = "\<lambda>j cfg. bind_res (idx (connected cfg) j) (\<lambda>c. if c then set_enabled j (int i) True cfg else Inr cfg)"]
    by (simp add: idx_int e)
  show ?thesis
    using i len by (simp add: connect_def upd_def len_def out inc [simplified] del: upt_Suc)
qed

lemma disconnect_result:
  assumes sh: "shaped cfg" and i: "i < n cfg"
  shows "disconnect (int i) cfg = Inr (cfg\<lparr>connected := (connected cfg)[i := False],
    cfg_net := fold (\<lambda>e. Enable e False) (map (\<lambda>j. ename cfg j i) [0..<n cfg])
      (fold (\<lambda>e. Enable e False) (map (\<lambda>j. ename cfg i j) [0..<n cfg]) (cfg_net cfg))\<rparr>)"
proof -
  let ?c = "cfg\<lparr>connected := (connected cfg)[i := False]\<rparr>"
  have sc: "shaped ?c" using sh shapedD(1) [OF sh] by (simp add: shaped_connected)
  have len: "length (connected ?c) = n cfg" "length (endnames cfg) = n cfg" using shapedD(1,2) [OF sh] by simp_all
  have e: "ename ?c a b = ename cfg a b" for a b by (simp add: ename_def)
  have row: "\<exists>r. endnames cfg ! j = Some r" if "j < n cfg" for j using shapedD(3) [OF sh that] by blast
  have out: "for_res (indices (n cfg)) (\<lambda>j cfg.
      bind_res (idx (endnames cfg) (int i)) (\<lambda>r. if r \<noteq> None then set_enabled (int i) j False cfg else Inr cfg)) ?c =
    Inr (?c\<lparr>cfg_net := fold (\<lambda>e. Enable e False) (map (\<lambda>j. ename cfg i j) (filter (\<lambda>_. True) [0..<n cfg])) (cfg_net ?c)\<rparr>)"
    using len i row [OF i] set_enabled_eq [OF _ _ sc, of i]
    by (intro switch_loop) (auto simp: idx_int e)
  have inc: "for_res (indices (n cfg)) (\<lambda>j cfg.
      bind_res (idx (endnames cfg) j) (\<lambda>r. if r \<noteq> None then set_enabled j (int i) False cfg else Inr cfg)) (?c\<lparr>cfg_net := rn\<rparr>) =
    Inr (?c\<lparr>cfg_net := fold (\<lambda>e. Enable e False) (map (\<lambda>j. ename cfg j i) (filter (\<lambda>_. True) [0..<n cfg])) rn\<rparr>)"
    for rn
    using len i row set_enabled_eq [OF _ _ sc, of _ i]
      switch_loop [where cfg = "?c\<lparr>cfg_net := rn\<rparr>" and k = "n cfg" and yes = False and
        P = "\<lambda>_. True" and f = "\<lambda>j. ename cfg j i" and
        body = "\<lambda>j cfg. bind_res (idx (endnames cfg) j) (\<lambda>r. if r \<noteq> None then set_enabled j (int i) False cfg else Inr cfg)"]
    by (simp add: idx_int e)
  show ?thesis
    using i len by (simp add: disconnect_def upd_def len_def out [simplified] inc [simplified] del: upt_Suc)
qed

lemma ename_fields [simp]:
  "ename (cfg\<lparr>connected := cs, cfg_net := rn\<rparr>) = ename cfg"
  by (simp add: ename_def fun_eq_iff)

lemma matrix_connect:
  assumes m: "matrix_ok cfg" and i: "i < n cfg"
  obtains cfg' where "connect (int i) cfg = Inr cfg'" "matrix_ok cfg'" "n cfg' = n cfg"
    "connected cfg' = (connected cfg)[i := True]"
proof -
  have sh: "shaped cfg" using m by (simp add: matrix_ok_def)
  note r = connect_result [OF sh i]
  show ?thesis
  proof (rule that [OF r])
    show "matrix_ok (cfg\<lparr>connected := (connected cfg)[i := True],
      cfg_net := fold (\<lambda>e. Enable e True) (map (\<lambda>j. ename cfg j i) (filter (\<lambda>j. (connected cfg)[i := True] ! j) [0..<n cfg]))
      (fold (\<lambda>e. Enable e True) (map (\<lambda>j. ename cfg i j) (filter (\<lambda>j. (connected cfg)[i := True] ! j) [0..<n cfg]))
        (cfg_net cfg))\<rparr>)"
      using m i shapedD(1) [OF sh] shapedD(4) [OF sh]
      by (auto simp: matrix_ok_def shaped_connected shaped_net enable_fold nth_list_update image_iff split: if_splits)
  qed simp_all
qed

lemma matrix_disconnect:
  assumes m: "matrix_ok cfg" and i: "i < n cfg"
  obtains cfg' where "disconnect (int i) cfg = Inr cfg'" "matrix_ok cfg'" "n cfg' = n cfg"
    "connected cfg' = (connected cfg)[i := False]"
proof -
  have sh: "shaped cfg" using m by (simp add: matrix_ok_def)
  show ?thesis
  proof (rule that [OF disconnect_result [OF sh i]])
    show "matrix_ok (cfg\<lparr>connected := (connected cfg)[i := False],
      cfg_net := fold (\<lambda>e. Enable e False) (map (\<lambda>j. ename cfg j i) [0..<n cfg])
        (fold (\<lambda>e. Enable e False) (map (\<lambda>j. ename cfg i j) [0..<n cfg]) (cfg_net cfg))\<rparr>)"
      using m i shapedD(1) [OF sh] shapedD(4) [OF sh]
      by (auto simp: matrix_ok_def shaped_connected shaped_net enable_fold nth_list_update image_iff split: if_splits)
  qed simp_all
qed

text \<open>The configuration as a machine: tests attach and detach peers in any order.\<close>

datatype cfg_event = Attach nat | Detach nat

fun cfg_step :: "cfg_event \<Rightarrow> 'c config \<Rightarrow> (unit \<times> 'c config) res option" where
  "cfg_step (Attach i) cfg = Some (map_res (Pair ()) (connect (int i) cfg))"
| "cfg_step (Detach i) cfg = Some (map_res (Pair ()) (disconnect (int i) cfg))"

fun cfg_legal :: "cfg_event \<Rightarrow> 'c config \<Rightarrow> bool" where
  "cfg_legal (Attach i) cfg = (i < n cfg)"
| "cfg_legal (Detach i) cfg = (i < n cfg)"

lemma cfg_step_ok:
  assumes "matrix_ok cfg" "cfg_legal e cfg" "cfg_step e cfg = Some r"
  shows "\<exists>cfg'. r = Inr ((), cfg') \<and> matrix_ok cfg' \<and> n cfg' = n cfg"
proof (cases e)
  case (Attach i)
  then have "i < n cfg" using assms(2) by simp
  from matrix_connect [OF assms(1) this] obtain cfg' where "connect (int i) cfg = Inr cfg'" "matrix_ok cfg'" "n cfg' = n cfg" .
  then show ?thesis using assms(3) Attach by auto
next
  case (Detach i)
  then have "i < n cfg" using assms(2) by simp
  from matrix_disconnect [OF assms(1) this] obtain cfg' where "disconnect (int i) cfg = Inr cfg'" "matrix_ok cfg'" "n cfg' = n cfg" .
  then show ?thesis using assms(3) Detach by auto
qed

interpretation wiring: safe_machine cfg_step cfg_legal matrix_ok
proof unfold_locales
  fix e and cfg cfg' :: "'a config" and out err
  assume ok: "matrix_ok cfg" "cfg_legal e cfg"
  show "matrix_ok cfg'" if "cfg_step e cfg = Some (Inr (out, cfg'))"
    using cfg_step_ok [OF ok that] by simp
  show "cfg_step e cfg \<noteq> Some (Inl err)"
    using cfg_step_ok [OF ok, of "Inl err"] by auto
qed

section \<open>What the reader of an apply channel accepts\<close>

text \<open>A peer that delivers the indices in order is never reported as out of order.\<close>

definition reads_upto :: "nat \<Rightarrow> int \<Rightarrow> 'c config \<Rightarrow> bool" where
  "reads_upto i k cfg \<longleftrightarrow> i < length (logs cfg) \<and> length (applyErr cfg) = length (logs cfg) \<and>
     (\<forall>x. 1 \<le> x \<and> x \<le> k \<longrightarrow> map_of (logs cfg ! i) x \<noteq> None)"

lemma read_apply_in_order:
  assumes "reads_upto i k cfg" "CommandValid m" "CommandIndex m = k + 1" "0 \<le> k"
  shows "\<exists>goes_on cfg'. read_apply (int i) m cfg = Inr (goes_on, cfg') \<and>
    (if goes_on then reads_upto i (k + 1) cfg' \<and> applyErr cfg' = applyErr cfg
     else \<exists>j. applyErr cfg' = (applyErr cfg)[i := Some (Different_value (int i) j)])"
proof -
  have i: "i < length (logs cfg)" "length (applyErr cfg) = length (logs cfg)"
    and p: "1 \<le> x \<Longrightarrow> x \<le> k \<Longrightarrow> map_of (logs cfg ! i) x \<noteq> None" for x
    using assms(1) by (auto simp: reads_upto_def)
  have prev: "\<not> (CommandIndex m > 1 \<and> map_of (logs cfg ! i) (CommandIndex m - 1) = None)"
    using p [of k] assms(3,4) by (cases "1 \<le> k") auto
  let ?lgs = "(logs cfg)[i := AList.update (CommandIndex m) (ApplyCommand m) (logs cfg ! i)]"
  let ?cfg = "cfg\<lparr>logs := ?lgs, maxIndex := max_index (CommandIndex m) (maxIndex cfg)\<rparr>"
  have upto: "reads_upto i (k + 1) ?cfg"
    using i p assms(3) by (auto simp: reads_upto_def AList.update_conv')
  have r: "read_apply (int i) m cfg = (case map_option (\<lambda>j. Different_value (int i) j) (differing m cfg) of
      None \<Rightarrow> Inr (True, ?cfg)
    | Some e \<Rightarrow> Inr (False, ?cfg\<lparr>applyErr := (applyErr cfg)[i := Some e]\<rparr>))"
    using prev i assms(2)
    by (cases "differing m cfg") (auto simp: read_apply_def idx_int upd_def len_def Let_def)
  show ?thesis using upto by (auto simp: r split: option.splits)
qed

lemma read_applies_in_order:
  assumes "reads_upto i k cfg" "0 \<le> k" "list_all CommandValid ms"
    "map CommandIndex ms = map int [Suc (nat k)..<Suc (nat k) + length ms]"
  shows "\<exists>cfg'. read_applies (int i) ms cfg = Inr cfg' \<and>
    (applyErr cfg' = applyErr cfg \<or> (\<exists>j. applyErr cfg' = (applyErr cfg)[i := Some (Different_value (int i) j)]))"
  using assms
proof (induction ms arbitrary: k cfg)
  case (Cons m ms)
  have up: "[Suc (nat k)..<Suc (nat k) + length (m # ms)] =
    Suc (nat k) # [Suc (nat (k + 1))..<Suc (nat (k + 1)) + length ms]"
    using Cons.prems(2) by (subst upt_conv_Cons) (auto simp: nat_add_distrib)
  have m: "CommandValid m" "CommandIndex m = k + 1" "list_all CommandValid ms"
    "map CommandIndex ms = map int [Suc (nat (k + 1))..<Suc (nat (k + 1)) + length ms]"
    using Cons.prems(2-4) unfolding up by (simp_all del: upt_Suc)
  obtain goes_on cfg1 where r: "read_apply (int i) m cfg = Inr (goes_on, cfg1)"
    "if goes_on then reads_upto i (k + 1) cfg1 \<and> applyErr cfg1 = applyErr cfg
     else \<exists>j. applyErr cfg1 = (applyErr cfg)[i := Some (Different_value (int i) j)]"
    using read_apply_in_order [OF Cons.prems(1) m(1,2) Cons.prems(2)] by blast
  show ?case
  proof (cases goes_on)
    case True
    with r have "reads_upto i (k + 1) cfg1" "applyErr cfg1 = applyErr cfg" by auto
    with Cons.IH [OF this(1) _ m(3,4)] Cons.prems(2) r(1) True show ?thesis by simp
  next
    case False
    with r show ?thesis by auto
  qed
qed simp

section \<open>What the leader check finds\<close>

definition leaders_of :: "(bool \<times> int \<times> bool) list \<Rightarrow> int \<Rightarrow> int list" where
  "leaders_of ps t = map fst (filter (\<lambda>(i, c, t', l). c \<and> l \<and> t' = t) (zip (indices (length ps)) ps))"

lemma leader_table_slot: "slot (leader_table ps) t = leaders_of ps t"
proof -
  have "slot (fold (\<lambda>(i, c, t, l) tab. if c \<and> l then AList.update t (slot tab t @ [i]) tab else tab) xs tab) t =
    slot tab t @ map fst (filter (\<lambda>(i, c, t', l). c \<and> l \<and> t' = t) xs)" for xs :: "(int \<times> bool \<times> int \<times> bool) list" and tab
    by (induction xs arbitrary: tab) (auto split: if_splits)
  then show ?thesis by (simp add: leader_table_def leaders_of_def)
qed

lemma leader_table_entries:
  "distinct (range_keys (leader_table ps)) \<and> (\<forall>(t, is)\<in>set (leader_table ps). is \<noteq> [])"
proof -
  have "distinct (range_keys tab) \<Longrightarrow> (\<forall>(t, is)\<in>set tab. is \<noteq> []) \<Longrightarrow>
    distinct (range_keys (fold f xs tab)) \<and> (\<forall>(t, is)\<in>set (fold f xs tab). is \<noteq> [])"
    if f: "f = (\<lambda>(i, c, t, l) tab. if c \<and> l then AList.update t (slot tab t @ [i]) tab else tab)"
    for f and xs :: "(int \<times> bool \<times> int \<times> bool) list" and tab
  proof (induction xs arbitrary: tab)
    case (Cons x xs)
    obtain i c t l where x: "x = (i, c, t, l)" by (cases x)
    let ?tab = "f x tab"
    have "distinct (range_keys ?tab)"
      using Cons.prems(1) by (simp add: f x range_keys_def AList.distinct_update)
    moreover have "\<forall>(t, is)\<in>set ?tab. is \<noteq> []"
      using Cons.prems(2) by (auto simp: f x dest: AList_update_mem)
    ultimately show ?case using Cons.IH [of ?tab] by simp
  qed simp
  from this [OF refl, of "[]"] show ?thesis by (simp add: leader_table_def range_keys_def)
qed

lemma leader_table_mem: "(t, is) \<in> set (leader_table ps) \<longleftrightarrow> is = leaders_of ps t \<and> is \<noteq> []"
proof
  assume mem: "(t, is) \<in> set (leader_table ps)"
  then have "map_of (leader_table ps) t = Some is"
    using leader_table_entries [of ps] by (simp add: range_keys_def)
  with mem leader_table_entries [of ps] show "is = leaders_of ps t \<and> is \<noteq> []"
    using leader_table_slot [of ps t] by (auto simp: get_or_def)
next
  assume "is = leaders_of ps t \<and> is \<noteq> []"
  then have "slot (leader_table ps) t = is" "slot (leader_table ps) t \<noteq> []" by (auto simp: leader_table_slot)
  then show "(t, is) \<in> set (leader_table ps)" by (auto dest: get_or_cases map_of_SomeD)
qed

lemma leaders_of_iff:
  "i \<in> set (leaders_of ps t) \<longleftrightarrow> 0 \<le> i \<and> i < int (length ps) \<and> ps ! nat i = (True, t, True)"
proof -
  have "zip (indices (length ps)) ps = map (\<lambda>k. (int k, ps ! k)) [0..<length ps]"
    by (rule nth_equalityI) (simp_all add: indices_def)
  then have "i \<in> set (leaders_of ps t) \<longleftrightarrow> (\<exists>k < length ps. i = int k \<and> ps ! k = (True, t, True))"
    by (force simp: leaders_of_def)
  also have "\<dots> \<longleftrightarrow> 0 \<le> i \<and> i < int (length ps) \<and> ps ! nat i = (True, t, True)"
    by (metis int_nat_eq nat_int of_nat_0_le_iff of_nat_less_iff)
  finally show ?thesis .
qed

lemma last_term:
  "fold (\<lambda>(t, _) last. if t > last then t else last) tab a = Lattices_Big.Max (insert a (fst ` set tab))"
  for a :: int and tab :: "(int \<times> 'b) list"
proof -
  have "(\<lambda>(t, _ :: 'b) last. if t > last then t else last) = (\<lambda>x. max (fst x) :: int \<Rightarrow> int)"
    by (auto simp: fun_eq_iff max_def)
  then have "fold (\<lambda>(t, _) last. if t > last then t else last) tab a = fold max (map fst tab) a"
    by (simp add: fold_map o_def)
  also have "\<dots> = Lattices_Big.Max (set (a # map fst tab))" by (simp only: Max.set_eq_fold)
  finally show ?thesis by simp
qed

definition leader_terms :: "(bool \<times> int \<times> bool) list \<Rightarrow> int set" where
  "leader_terms ps = {t. leaders_of ps t \<noteq> []}"

lemma leader_terms_iff: "t \<in> leader_terms ps \<longleftrightarrow> (True, t, True) \<in> set ps"
proof -
  have "t \<in> leader_terms ps \<longleftrightarrow> (\<exists>i. i \<in> set (leaders_of ps t))"
    by (auto simp: leader_terms_def intro: list.set_sel(1))
  also have "\<dots> \<longleftrightarrow> (\<exists>k < length ps. ps ! k = (True, t, True))"
    unfolding leaders_of_iff by (metis int_nat_eq nat_int of_nat_0_le_iff of_nat_less_iff)
  finally show ?thesis by (auto simp: in_set_conv_nth)
qed

lemma leader_table_terms: "fst ` set (leader_table ps) = leader_terms ps"
  by (auto simp: leader_terms_def image_iff Bex_def leader_table_mem)

text \<open>One round: too many leaders in a term, none at all, or the leader of the last term.\<close>

lemma one_leader_round_result:
  assumes "\<forall>t \<in> leader_terms ps. 0 \<le> t"
  shows "one_leader_round ps =
    (if \<exists>t. length (leaders_of ps t) > 1 then Inl (Fatal ''term has (>1) leaders'')
     else if leader_terms ps = {} then Inr None
     else Inr (Some (hd (leaders_of ps (Lattices_Big.Max (leader_terms ps))))))"
proof -
  have "list_ex (\<lambda>(t, is). len is > 1) (leader_table ps) \<longleftrightarrow>
      (\<exists>t. leaders_of ps t \<noteq> [] \<and> length (leaders_of ps t) > 1)"
    by (auto simp: list_ex_iff Bex_def leader_table_mem len_def)
  then have multi: "list_ex (\<lambda>(t, is). len is > 1) (leader_table ps) \<longleftrightarrow> (\<exists>t. length (leaders_of ps t) > 1)"
    by (metis length_greater_0_conv less_trans zero_less_one)
  have empty: "leader_table ps = [] \<longleftrightarrow> leader_terms ps = {}"
    using leader_table_terms [of ps] by force
  have fin: "finite (leader_terms ps)" using leader_table_terms [of ps] by (metis finite_imageI List.finite_set)
  have "fold (\<lambda>(t, _) last. if t > last then t else last) (leader_table ps) (-1) = Lattices_Big.Max (leader_terms ps)"
    if "leader_terms ps \<noteq> {}"
  proof -
    have "Lattices_Big.Max (leader_terms ps) \<in> leader_terms ps" using fin that by simp
    then have "0 \<le> Lattices_Big.Max (leader_terms ps)" using assms by blast
    then show ?thesis using that fin by (simp add: last_term leader_table_terms)
  qed
  moreover have "idx (leaders_of ps (Lattices_Big.Max (leader_terms ps))) 0 = Inr (hd (leaders_of ps (Lattices_Big.Max (leader_terms ps))))"
    if "leader_terms ps \<noteq> {}"
  proof -
    have "Lattices_Big.Max (leader_terms ps) \<in> leader_terms ps" using fin that by simp
    then show ?thesis by (simp add: leader_terms_def idx_def hd_conv_nth)
  qed
  ultimately show ?thesis
    by (auto simp: one_leader_round_def Let_def multi empty leader_table_slot)
qed

section \<open>The fresh configuration\<close>

text \<open>The state after \<open>k\<close> peers were started: nobody is connected, no end point is enabled.\<close>

definition started :: "nat \<Rightarrow> nat \<Rightarrow> (int \<Rightarrow> string list) \<Rightarrow> 'c config \<Rightarrow> bool" where
  "started N k names cfg \<longleftrightarrow>
     n cfg = N \<and> connected cfg = replicate N False \<and> length (endnames cfg) = N \<and> length (rafts cfg) = N \<and>
     (\<forall>i < k. endnames cfg ! i = Some (names (int i))) \<and>
     set (ends (cfg_net cfg)) = (\<Union>i<k. set (names (int i))) \<and> (\<forall>e. \<not> is_enabled (cfg_net cfg) e)"

definition good_names :: "nat \<Rightarrow> (int \<Rightarrow> string list) \<Rightarrow> bool" where
  "good_names N names \<longleftrightarrow>
     (\<forall>i < N. length (names (int i)) = N \<and> distinct (names (int i)) \<and>
        (\<forall>j < i. set (names (int i)) \<inter> set (names (int j)) = {}))"

lemma good_names_distinct:
  assumes "good_names N names" "i < N"
  shows "length (names (int i)) = N" "distinct (names (int i))"
    "j < N \<Longrightarrow> i \<noteq> j \<Longrightarrow> set (names (int i)) \<inter> set (names (int j)) = {}"
proof -
  show "length (names (int i)) = N" "distinct (names (int i))"
    using assms by (simp_all add: good_names_def)
  show "set (names (int i)) \<inter> set (names (int j)) = {}" if "j < N" "i \<noteq> j"
    using assms that unfolding good_names_def by (cases "j < i") (blast, metis inf_commute linorder_neqE_nat)
qed

lemma start_ends:
  assumes "m \<le> length row" "distinct row" "set row \<inter> set (ends (cfg_net cfg)) = {}"
    "i < length (endnames cfg)" "endnames cfg ! i = Some row" "\<forall>e. \<not> is_enabled (cfg_net cfg) e"
  shows "\<exists>rn. for_res (indices m) (\<lambda>j cfg. bind_res (endname (int i) j cfg) (\<lambda>e.
         map_res (\<lambda>rn. cfg\<lparr>cfg_net := Connect e j rn\<rparr>) (MakeEnd e (cfg_net cfg)))) cfg = Inr (cfg\<lparr>cfg_net := rn\<rparr>) \<and>
     set (ends rn) = set (take m row) \<union> set (ends (cfg_net cfg)) \<and> (\<forall>e. \<not> is_enabled rn e)"
  using assms(1)
proof (induction m)
  case 0
  then show ?case using assms(6) by (auto simp: indices_def intro!: exI [of _ "cfg_net cfg"])
next
  case (Suc m)
  then obtain rn where rn: "for_res (indices m) (\<lambda>j cfg. bind_res (endname (int i) j cfg) (\<lambda>e.
         map_res (\<lambda>rn. cfg\<lparr>cfg_net := Connect e j rn\<rparr>) (MakeEnd e (cfg_net cfg)))) cfg = Inr (cfg\<lparr>cfg_net := rn\<rparr>)"
     "set (ends rn) = set (take m row) \<union> set (ends (cfg_net cfg))" "\<forall>e. \<not> is_enabled rn e" by auto
  have m: "m < length row" using Suc.prems by simp
  have e: "endname (int i) (int m) (cfg\<lparr>cfg_net := rn\<rparr>) = Inr (row ! m)"
    using assms(4,5) m by (simp add: endname_def idx_int row_of_def)
  have "row ! m \<notin> set (take m row)" using assms(2) m by (auto simp: in_set_conv_nth nth_eq_iff_index_eq)
  then have new: "row ! m \<notin> set (ends rn)" using assms(3) m rn(2) nth_mem [OF m] by blast
  let ?rn = "Connect (row ! m) (int m) (rn\<lparr>ends := row ! m # ends rn, enabled := AList.update (row ! m) False (enabled rn),
    connections := AList.update (row ! m) None (connections rn)\<rparr>)"
  have "MakeEnd (row ! m) rn = Inr (rn\<lparr>ends := row ! m # ends rn, enabled := AList.update (row ! m) False (enabled rn),
    connections := AList.update (row ! m) None (connections rn)\<rparr>)" using new by (simp add: MakeEnd_def)
  moreover have "set (ends ?rn) = set (take (Suc m) row) \<union> set (ends (cfg_net cfg))"
    using rn(2) m by (auto simp: Connect_def take_Suc_conv_app_nth)
  moreover have "\<forall>e. \<not> is_enabled ?rn e" using rn(3) by (simp add: is_enabled_def Connect_def)
  ultimately show ?case using rn(1) e by (auto simp: indices_Suc for_res_append)
qed

lemma started_step:
  assumes st: "started N k names cfg" and good: "good_names N names" and k: "k < N"
  shows "\<exists>cfg'. start1 (int k) (names (int k)) srv cfg = Inr cfg' \<and> started N (Suc k) names cfg'"
proof -
  note d = st [unfolded started_def]
  let ?c = "cfg\<lparr>endnames := (endnames cfg)[k := Some (names (int k))]\<rparr>"
  have fresh: "set (names (int k)) \<inter> set (ends (cfg_net ?c)) = {}"
    using d good_names_distinct(3) [OF good k] k by (auto simp: disjoint_iff)
  have row: "N \<le> length (names (int k))" "distinct (names (int k))" "length (names (int k)) = N"
    using good_names_distinct(1,2) [OF good k] by simp_all
  obtain rn where rn: "for_res (indices N) (\<lambda>j cfg. bind_res (endname (int k) j cfg) (\<lambda>e.
         map_res (\<lambda>rn. cfg\<lparr>cfg_net := Connect e j rn\<rparr>) (MakeEnd e (cfg_net cfg)))) ?c = Inr (?c\<lparr>cfg_net := rn\<rparr>)"
     "set (ends rn) = set (names (int k)) \<union> set (ends (cfg_net cfg))" "\<forall>e. \<not> is_enabled rn e"
    using start_ends [OF row(1,2) fresh, of k] d k row(3) by auto
  let ?cfg = "?c\<lparr>rafts := (rafts cfg)[k := Some (Make N (int k))], cfg_net := AddServer (int k) srv rn\<rparr>"
  have "start1 (int k) (names (int k)) srv cfg = Inr ?cfg"
    using d k rn(1) by (simp add: start1_def upd_def len_def)
  moreover have "started N (Suc k) names ?cfg"
    using d k rn(2,3)
    by (auto simp: started_def AddServer_def is_enabled_def nth_list_update less_Suc_eq lessThan_Suc)
  ultimately show ?thesis by blast
qed

lemma started_all:
  assumes "good_names N names" "started N 0 names cfg" "k \<le> N"
  shows "\<exists>cfg'. for_res (indices k) (\<lambda>i. start1 i (names i) (srv i)) cfg = Inr cfg' \<and> started N k names cfg'"
  using assms(3)
proof (induction k)
  case 0
  then show ?case using assms(2) by (simp add: indices_def)
next
  case (Suc k)
  then obtain c where "for_res (indices k) (\<lambda>i. start1 i (names i) (srv i)) cfg = Inr c" "started N k names c" by auto
  with started_step [OF this(2) assms(1), of "srv (int k)"] Suc.prems show ?case
    by (auto simp: indices_Suc for_res_append)
qed

lemma started_matrix:
  assumes "started N N names cfg" "good_names N names"
  shows "matrix_ok cfg"
proof -
  note d = assms(1) [unfolded started_def]
  have e: "ename cfg i j = names (int i) ! j" if "i < N" for i j
    using d that by (simp add: ename_def row_of_def)
  have "i = a \<and> j = b" if "i < N" "j < N" "a < N" "b < N" "names (int i) ! j = names (int a) ! b" for i j a b
  proof -
    have "names (int i) ! j \<in> set (names (int i))"
      using nth_mem that(2) good_names_distinct(1) [OF assms(2) that(1)] by metis
    moreover have "names (int a) ! b \<in> set (names (int a))"
      using nth_mem that(4) good_names_distinct(1) [OF assms(2) that(3)] by metis
    ultimately have "i = a" using that good_names_distinct(3) [OF assms(2), of i a] by auto
    then show ?thesis
      using that good_names_distinct(1,2) [OF assms(2), of i] by (simp add: nth_eq_iff_index_eq)
  qed
  then have "shaped cfg"
    using d e good_names_distinct(1) [OF assms(2)] by (auto simp: shaped_def)
  then show ?thesis using d by (simp add: matrix_ok_def)
qed

lemma connect_all:
  assumes "matrix_ok cfg" "n cfg = N" "k \<le> N"
  shows "\<exists>cfg'. for_res (indices k) connect cfg = Inr cfg' \<and> matrix_ok cfg' \<and> n cfg' = N \<and>
    (\<forall>i < k. connected cfg' ! i) \<and> length (connected cfg') = N"
  using assms(3)
proof (induction k)
  case 0
  then show ?case using assms(1,2) by (simp add: indices_def matrix_ok_def shaped_def)
next
  case (Suc k)
  then obtain c where c: "for_res (indices k) connect cfg = Inr c" "matrix_ok c" "n c = N"
    "\<forall>i < k. connected c ! i" "length (connected c) = N" by auto
  from matrix_connect [OF c(2), of k] Suc.prems c(3)
  obtain c' where c': "connect (int k) c = Inr c'" "matrix_ok c'" "n c' = n c"
    "connected c' = (connected c)[k := True]" by auto
  then show ?case
    using c Suc.prems by (auto simp: indices_Suc for_res_append nth_list_update less_Suc_eq)
qed

lemma make_config_result:
  assumes "good_names N names"
  shows "\<exists>cfg :: 'c config. make_config N unreliable names srv = Inr cfg \<and> matrix_ok cfg \<and> n cfg = N \<and>
    connected cfg = replicate N True"
proof -
  have "started N 0 names ((setunreliable unreliable (empty_config N :: 'c config))\<lparr>cfg_net :=
      LongDelays True (cfg_net (setunreliable unreliable (empty_config N :: 'c config)))\<rparr>)"
    by (simp add: started_def setunreliable_def empty_config_def LongDelays_def Reliable_def MakeNetwork_def is_enabled_def)
  from started_all [OF assms this order_refl, of srv] obtain c where
    c: "for_res (indices N) (\<lambda>i. start1 i (names i) (srv i)) ((setunreliable unreliable (empty_config N :: 'c config))\<lparr>cfg_net :=
      LongDelays True (cfg_net (setunreliable unreliable (empty_config N :: 'c config)))\<rparr>) = Inr c" "started N N names c"
    by (elim exE conjE)
  obtain cfg where cfg: "for_res (indices N) connect c = Inr cfg" "matrix_ok cfg" "n cfg = N"
    "\<forall>i < N. connected cfg ! i" "length (connected cfg) = N"
    using connect_all [OF started_matrix [OF c(2) assms] _ order_refl] c(2) by (auto simp: started_def)
  have "connected cfg = replicate N True" using cfg(4,5) by (intro nth_equalityI) simp_all
  moreover have "make_config N unreliable names srv = Inr cfg"
    using cfg(1) c(1) by (simp add: make_config_def Let_def)
  ultimately show ?thesis using cfg(2,3) by blast
qed

end
