(* ===== verification/NetProperties.thy ===== *)
theory NetProperties
  imports RaftConfig RaftSafety
begin

text \<open>
  The properties of the simulated network and of the configuration that runs the peers:
  routing and delivery of a request, the matrix of end points, and what the apply-channel
  reader and the leader check say about the peers of the Raft model.
\<close>

section \<open>Requests\<close>

text \<open>A caller gets a reply only if its end point was enabled and connected to a server when
  the request arrived, the handler of this server produced it, and the server had not been
  deleted or replaced nor the end point disabled when the reply was sent.\<close>

theorem reply_from_live_server:
  assumes "processReq e coin1 coin2 es rn rn' = Some (Some r, rn2)"
  shows "is_enabled rn e \<and> is_enabled rn' e \<and> Handler_replied r \<in> set es \<and>
    (\<exists>servername server. get_or None (connections rn) e = Some servername \<and>
       get_or None (net_servers rn) servername = Some server \<and>
       get_or None (net_servers rn') servername = Some server)"
  using processReq_delivers [OF assms] begin_request_dispatched
  by (auto simp: isServerDead_def)

definition two_ends :: Network where
  "two_ends = Enable ''a'' True (Connect ''a'' 1 (AddServer 1 5 MakeNetwork))"

theorem reply_from_live_server_witness:
  "processReq ''a'' 0 0 [Poll two_ends, Handler_replied ''x''] two_ends two_ends \<noteq> None \<and> is_enabled two_ends ''a''"
proof -
  have "processReq ''a'' 0 0 [Poll two_ends, Handler_replied ''x''] two_ends two_ends =
    Some (Some ''x'', two_ends\<lparr>rpc_bytes := 1\<rparr>)" by code_simp
  from reply_from_live_server [OF this] this show ?thesis by simp
qed

text \<open>C30: a call on a reliable network is the remote procedure itself. With an encoding that the
  decoders invert (the documented behaviour of gob on a zero reply), an enabled end point
  and a server that stays in place, the request is dispatched to the method of the named
  service, runs it on the receiver's state, and the caller gets the value it computed.\<close>

theorem call_runs_method:
  assumes "begin_request e coin1 rn = Dispatched servername server" "reliable rn"
    and "\<forall>p\<in>set ps. \<not> isServerDead e servername server p" "\<not> isServerDead e servername server rn'"
    and "map_of (services rs) svc = Some service" "map_of (svc_methods service) meth = Some m"
    and "m_func m = handler decode_args encode_reply f" "CHR ''.'' \<notin> set meth"
    and "decode_args (encode_args a) = a" "\<And>r. decode_reply (encode_reply r) zero = Some r"
    and "f a s = Inr (r, s')"
  shows "\<exists>bytes. snd (Server_dispatch (svc @ CHR ''.'' # meth) (encode_args a) rs s) = Inr (bytes, s') \<and>
    map_option fst (processReq e coin1 coin2 (map Poll ps @ [Handler_replied bytes]) rn rn') = Some (Some bytes) \<and>
    Call_return decode_reply (Some bytes) zero = Inr (True, r)"
  using processReq_answers [OF assms(1-4)] Server_dispatch_method [OF assms(8), of svc "encode_args a" rs s] assms(5-11)
  by (simp add: Service_dispatch_def handler_def Call_return_def)

definition echo_method :: "int Method" where
  "echo_method = \<lparr>m_name = ''Echo'', m_exported = True, m_numIn = 3, m_in2_ptr = True, m_numOut = 0,
     m_func = handler id id (\<lambda>a s. Inr (a, s + 1))\<rparr>"

theorem call_runs_method_witness:
  "\<exists>bytes. snd (Server_dispatch ''T.Echo'' ''x'' (AddService (MakeService ''T'' [echo_method]) MakeServer) 0) = Inr (bytes, 1) \<and>
     Call_return (\<lambda>b _. Some b) (Some bytes) [] = Inr (True, ''x'')"
proof -
  have b: "begin_request ''a'' 0 two_ends = Dispatched 1 5" by code_simp
  have d: "\<not> isServerDead ''a'' 1 5 two_ends" by code_simp
  have r: "reliable two_ends" by code_simp
  from call_runs_method [OF b r, of "[]" two_ends "AddService (MakeService ''T'' [echo_method]) MakeServer" "''T''"
      "MakeService ''T'' [echo_method]" "''Echo''" echo_method id id "\<lambda>a s. Inr (a, s + 1)" id "''x''"
      "\<lambda>b _. Some b" "[]" 0 "''x''" 1]
  show ?thesis
    using d by (auto simp: AddService_def MakeServer_def MakeService_def echo_method_def suitable_def)
qed

section \<open>The configuration\<close>

text \<open>C29: \<open>make_config\<close> with fresh end names succeeds with every peer connected, and after any
  sequence of \<open>connect\<close> and \<open>disconnect\<close> calls, none of which panics, the end
  point from one peer to another is enabled exactly if both are connected.\<close>

theorem wiring_matrix:
  assumes "good_names N names"
  shows "\<exists>cfg :: 'c config. make_config N unreliable names srv = Inr cfg \<and> connected cfg = replicate N True \<and>
    (\<forall>es r. runs cfg_step cfg_legal es cfg = Some r \<longrightarrow> (\<exists>cfg'. r = Inr cfg' \<and>
       (\<forall>i < n cfg'. \<forall>j < n cfg'.
          is_enabled (cfg_net cfg') (ename cfg' i j) \<longleftrightarrow> connected cfg' ! i \<and> connected cfg' ! j)))"
proof -
  obtain cfg :: "'c config" where cfg: "make_config N unreliable names srv = Inr cfg" "matrix_ok cfg" "connected cfg = replicate N True"
    using make_config_result [OF assms] by blast
  have "\<exists>cfg'. r = Inr cfg' \<and> matrix_ok cfg'" if "runs cfg_step cfg_legal es cfg = Some r" for es r
    using wiring.runs_safe [OF cfg(2) that] .
  then show ?thesis using cfg(1,3) unfolding matrix_ok_def by blast
qed

definition two_names :: "int \<Rightarrow> string list" where
  "two_names i = (if i = 0 then [''aa'', ''ab''] else [''ba'', ''bb''])"

theorem wiring_matrix_witness:
  "good_names 2 two_names \<and>
   (\<exists>cfg. make_config 2 False two_names nat = Inr (cfg :: nat config) \<and> connected cfg = [True, True])"
proof -
  have g: "good_names 2 two_names"
    by (auto simp: good_names_def two_names_def less_Suc_eq numeral_2_eq_2)
  from wiring_matrix [OF g, where unreliable = False and srv = nat] g show ?thesis
    by (auto simp: numeral_2_eq_2)
qed

text \<open>The reader of a peer's apply channel never reports it as out of order: fed with
  everything the peer delivered in a legal run, from an empty log, it returns, and the only
  error it can have recorded is another value at the same index.\<close>

theorem reader_accepts_peer:
  assumes "runs proc_step legal_event es (spawn k j) = Some (Inr p)" "0 \<le> j" "j < int k"
    and "i < length (logs cfg)" "length (applyErr cfg) = length (logs cfg)" "applyErr cfg ! i = None"
  shows "\<exists>cfg'. read_applies (int i) (applyMsgCh (raft p)) cfg = Inr cfg' \<and>
    (\<forall>x. applyErr cfg' ! i \<noteq> Some (Out_of_order x))"
proof -
  have "raft_ok (raft (spawn k j :: 'a Proc))" using assms(2,3) by (simp add: spawn_def raft_ok_Make)
  then have "raft_ok (raft p)" using peer.runs_inv assms(1) by blast
  then have d: "list_all CommandValid (applyMsgCh (raft p))"
    "map CommandIndex (applyMsgCh (raft p)) = map int [1..<Suc (nat (lastApplied (raft p)))]"
    by (simp_all add: raft_ok_def delivered_in_order_def)
  have l: "length (applyMsgCh (raft p)) = nat (lastApplied (raft p))"
    using arg_cong [OF d(2), of length] by simp
  have "reads_upto i 0 cfg" using assms(4,5) by (auto simp: reads_upto_def)
  from read_applies_in_order [OF this order_refl d(1)] d(2) l
  obtain cfg' where "read_applies (int i) (applyMsgCh (raft p)) cfg = Inr cfg'"
    "applyErr cfg' = applyErr cfg \<or> (\<exists>x. applyErr cfg' = (applyErr cfg)[i := Some (Different_value (int i) x)])"
    by (auto simp del: upt_Suc)
  then show ?thesis using assms(4-6) by auto
qed

definition accept_run :: "nat event list" where
  "accept_run = [E_AppendEntries \<lparr>aeTerm = 1, LeaderId = 1, PrevLogIndex = 0, PrevLogTerm = 0,
     Entries = [\<lparr>entryTerm = 1, Command = Some 7\<rparr>], LeaderCommit = 1\<rparr>]"

theorem reader_accepts_peer_witness:
  "\<exists>p cfg'. runs proc_step legal_event accept_run (spawn 3 0) = Some (Inr p) \<and>
     read_applies 0 (applyMsgCh (raft p)) (empty_config 3) = Inr cfg' \<and> applyErr cfg' ! 0 \<noteq> Some (Out_of_order 0)"
proof -
  have "case runs proc_step legal_event accept_run (spawn 3 0) of Some (Inr p) \<Rightarrow> True | _ \<Rightarrow> False" by code_simp
  then obtain p where p: "runs proc_step legal_event accept_run (spawn 3 0) = Some (Inr p)"
    by (auto split: option.splits sum.splits)
  from reader_accepts_peer [OF p, of 0 "empty_config 3"] p show ?thesis
    by (auto simp: empty_config_def)
qed

section \<open>The leader check on a cluster\<close>

lemma proc_step_term:
  "proc_step e p = Some (Inr (out, p')) \<Longrightarrow> currentTerm (raft p) \<le> currentTerm (raft p')"
proof (cases e)
  case (E_RequestVote args)
  then show "proc_step e p = Some (Inr (out, p')) \<Longrightarrow> currentTerm (raft p) \<le> currentTerm (raft p')"
    by (auto simp: map_res_Inr dest: RequestVote_core(3))
next
  case (E_AppendEntries args)
  then show "proc_step e p = Some (Inr (out, p')) \<Longrightarrow> currentTerm (raft p) \<le> currentTerm (raft p')"
    using step_down_cases [of "raft p" args] by (auto simp: map_res_Inr dest!: AppendEntries_core)
next
  case E_Maintain
  then show "proc_step e p = Some (Inr (out, p')) \<Longrightarrow> currentTerm (raft p) \<le> currentTerm (raft p')"
    by (auto simp: maintain_step_def Let_def map_res_Inr checkElectionTimeout_def TurnCandidate_def
      handleLeader_tick_def split: maintain_pc.splits option.splits if_splits prod.splits)
next
  case (E_HeartBeatReply peer success reply)
  then show "proc_step e p = Some (Inr (out, p')) \<Longrightarrow> currentTerm (raft p) \<le> currentTerm (raft p')"
    by (auto simp: map_res_Inr TurnFollower_def dest!: heartbeat_reply_core)
qed (auto simp: map_res_Inr TurnLeader_unlocked_def Kill_def sendvote_def Let_def TurnFollower_def
    dest!: Start_core TurnLeader_locked_core split: prod.splits if_splits)

definition terms_ok :: "'c Cluster \<Rightarrow> bool" where
  "terms_ok c \<longleftrightarrow> (\<forall>i. 0 \<le> currentTerm (rf_at c i))"

lemma on_proc_terms:
  assumes "on_proc i e k c = Some (Inr (u, c'))" "terms_ok c"
    and "\<And>out d. terms_ok d \<Longrightarrow> terms_ok (k out d)"
  shows "terms_ok c'"
proof -
  from assms(1) obtain out p where p: "proc_step e (procs c i) = Some (Inr (out, p))"
    "c' = k out (c\<lparr>procs := (procs c)(i := p)\<rparr>)"
    by (auto simp: on_proc_def map_res_Inr split: option.splits)
  have "terms_ok (c\<lparr>procs := (procs c)(i := p)\<rparr>)"
    using assms(2) proc_step_term [OF p(1)] by (auto simp: terms_ok_def intro: order_trans)
  then show ?thesis using assms(3) p(2) by simp
qed

lemma terms_ok_procs: "procs c' = procs c \<Longrightarrow> terms_ok c' \<longleftrightarrow> terms_ok c"
  by (simp add: terms_ok_def)

lemma terms_ok_updates [simp]:
  "terms_ok (set_vote k j g c) = terms_ok c" "terms_ok (set_heartbeat k h c) = terms_ok c"
  "terms_ok (spawn_goroutines i out c) = terms_ok c" "terms_ok (vote_reply k j b out c) = terms_ok c"
  "terms_ok (count_vote k j out c) = terms_ok c" "terms_ok (begin_call k out c) = terms_ok c"
  "terms_ok (append_reply k args b out c) = terms_ok c"
  by (cases out; auto simp: terms_ok_def set_vote_def set_election_def set_heartbeat_def vote_reply_def
      count_vote_def begin_call_def append_reply_def Let_def split: option.splits)+

lemma terms_ok_step: "terms_ok c \<Longrightarrow> cluster_step a c = Some (Inr (u, c')) \<Longrightarrow> terms_ok c'"
  by (cases a) (auto simp: Let_def split: if_splits vote_goroutine.splits hb_goroutine.splits
      elim!: on_proc_terms)

interpretation term_floor: invariant_machine cluster_step orderly terms_ok
  by unfold_locales (rule terms_ok_step)

text \<open>What the tester sees of a cluster: who is connected, and \<open>GetState\<close> of every peer.\<close>

definition observe :: "(int \<Rightarrow> bool) \<Rightarrow> 'c Cluster \<Rightarrow> (bool \<times> int \<times> bool) list" where
  "observe conn c = map (\<lambda>i. (conn i, GetState (rf_at c i))) (indices (servers c))"

lemma observe_leader:
  "i \<in> set (leaders_of (observe conn c) t) \<longleftrightarrow>
     i \<in> {0..<int (servers c)} \<and> conn i \<and> state (rf_at c i) = LEADER \<and> currentTerm (rf_at c i) = t"
  by (auto simp: leaders_of_iff observe_def indices_def GetState_def)

lemma distinct_leaders: "distinct (leaders_of ps t)"
proof -
  have "distinct (map fst (zip (indices (length ps)) ps))" by simp
  then show ?thesis unfolding leaders_of_def by (rule distinct_map_filter)
qed

definition leads_at :: "(int \<Rightarrow> bool) \<Rightarrow> 'c Cluster \<Rightarrow> int \<Rightarrow> bool" where
  "leads_at conn c i \<longleftrightarrow> i \<in> {0..<int (servers c)} \<and> conn i \<and> state (rf_at c i) = LEADER"

lemma leader_round:
  assumes "runs cluster_step orderly acts (init_cluster k) = Some (Inr c)"
  shows "\<exists>res. one_leader_round (observe conn c) = Inr res \<and>
    (case res of
       None \<Rightarrow> \<forall>i. \<not> leads_at conn c i
     | Some i \<Rightarrow> leads_at conn c i \<and>
         (\<forall>j. leads_at conn c j \<longrightarrow> currentTerm (rf_at c j) \<le> currentTerm (rf_at c i)))"
proof -
  let ?ps = "observe conn c"
  have inv: "es_inv c" using election_safety.runs_inv [OF es_inv_init assms] .
  have "terms_ok (init_cluster k :: 'a Cluster)" by (simp add: terms_ok_def init_cluster_def spawn_def Make_def)
  then have pos: "terms_ok c" using term_floor.runs_inv assms by blast
  have terms: "t \<in> leader_terms ?ps \<longleftrightarrow> (\<exists>i \<in> {0..<int (servers c)}. conn i \<and> state (rf_at c i) = LEADER \<and>
      currentTerm (rf_at c i) = t)" for t
  proof -
    have "t \<in> leader_terms ?ps \<longleftrightarrow> (\<exists>i. i \<in> set (leaders_of ?ps t))"
      by (auto simp: leader_terms_def intro: list.set_sel(1))
    then show ?thesis unfolding observe_leader by blast
  qed
  have one: "\<not> length (leaders_of ?ps t) > 1" for t
  proof
    assume "length (leaders_of ?ps t) > 1"
    then obtain a b rest where l: "leaders_of ?ps t = a # b # rest"
      by (cases "leaders_of ?ps t" rule: remdups_adj.cases) auto
    then have "a \<in> set (leaders_of ?ps t)" "b \<in> set (leaders_of ?ps t)" "a \<noteq> b"
      using distinct_leaders [of ?ps t] by auto
    then show False using one_leader [OF inv] unfolding observe_leader nodes_def by metis
  qed
  have "\<forall>t \<in> leader_terms ?ps. 0 \<le> t" using pos by (auto simp: terms terms_ok_def)
  note round = one_leader_round_result [OF this]
  show ?thesis
  proof (cases "leader_terms ?ps = {}")
    case True
    then show ?thesis using terms one by (fastforce simp: round leads_at_def)
  next
    case False
    have fin: "finite (leader_terms ?ps)" by (metis leader_table_terms List.finite_set finite_imageI)
    let ?t = "Lattices_Big.Max (leader_terms ?ps)"
    have "?t \<in> leader_terms ?ps" using fin False by simp
    then have "hd (leaders_of ?ps ?t) \<in> set (leaders_of ?ps ?t)" by (simp add: leader_terms_def)
    moreover have "leads_at conn c j \<Longrightarrow> currentTerm (rf_at c j) \<le> ?t" for j
      using terms fin unfolding leads_at_def by (intro Max_ge) blast+
    ultimately show ?thesis
      using one False unfolding observe_leader by (simp add: round) (simp add: leads_at_def)
  qed
qed

text \<open>The ten iterations: the first that sees a leader decides.\<close>

lemma one_leader_rounds_first:
  assumes "\<forall>k < length cs. \<exists>r. one_leader_round (cs ! k) = Inr r"
  shows "(\<exists>k < length cs. \<exists>i. one_leader_rounds cs = Inr i \<and> one_leader_round (cs ! k) = Inr (Some i) \<and>
       (\<forall>m < k. one_leader_round (cs ! m) = Inr None)) \<or>
     one_leader_rounds cs = Inl (Fatal ''expected one leader, got none'') \<and>
       (\<forall>m < length cs. one_leader_round (cs ! m) = Inr None)"
  using assms
proof (induction cs)
  case (Cons ps cs)
  obtain r where r: "one_leader_round ps = Inr r" using Cons.prems by (auto dest: spec [of _ 0])
  show ?case
  proof (cases r)
    case (Some i)
    then show ?thesis using r by (intro disjI1 exI [of _ 0]) simp
  next
    case None
    have "\<forall>k < length cs. \<exists>r. one_leader_round (cs ! k) = Inr r"
      using Cons.prems by (auto dest: spec [of _ "Suc _"])
    from Cons.IH [OF this] show ?thesis
    proof (elim disjE exE conjE)
      fix k i assume "k < length cs" "one_leader_rounds cs = Inr i"
        "one_leader_round (cs ! k) = Inr (Some i)" "\<forall>m < k. one_leader_round (cs ! m) = Inr None"
      then show ?thesis
        using r None by (intro disjI1 exI [of _ "Suc k"]) (auto simp: less_Suc_eq_0_disj)
    qed (use r None in \<open>auto simp: less_Suc_eq_0_disj\<close>)
  qed
qed simp

text \<open>C31: \<open>checkOneLeader\<close> never fails a test over two leaders of a term when each of its ten
  iterations looks at a cluster that ran an orderly schedule, whichever peers are connected. It
  returns a connected leader of the highest term led in the first iteration that sees a
  connected leader, and fails only when none of the ten sees one.\<close>

theorem leader_check_passes:
  assumes "\<forall>k < 10. runs cluster_step orderly (acts k) (init_cluster sz) = Some (Inr (c k))"
  shows "case checkOneLeader (\<lambda>k. observe (conn k) (c k)) of
     Inl err \<Rightarrow> err = Fatal ''expected one leader, got none'' \<and> (\<forall>k < 10. \<forall>i. \<not> leads_at (conn k) (c k) i)
   | Inr i \<Rightarrow> \<exists>k < 10. leads_at (conn k) (c k) i \<and>
       (\<forall>j. leads_at (conn k) (c k) j \<longrightarrow> currentTerm (rf_at (c k) j) \<le> currentTerm (rf_at (c k) i)) \<and>
       (\<forall>m < k. \<forall>j. \<not> leads_at (conn m) (c m) j)"
proof -
  let ?cs = "map (\<lambda>k. observe (conn k) (c k)) [0..<10]"
  have nth: "?cs ! k = observe (conn k) (c k)" if "k < 10" for k using that by simp
  have len: "length ?cs = 10" by simp
  note round = leader_round [OF assms [rule_format]]
  have none: "\<not> leads_at (conn m) (c m) j"
    if "m < 10" "one_leader_round (observe (conn m) (c m)) = Inr None" for m j
    using round [OF that(1), of "conn m"] that(2) by simp
  have "\<forall>k < length ?cs. \<exists>r. one_leader_round (?cs ! k) = Inr r"
    unfolding len using nth round by metis
  from one_leader_rounds_first [OF this] show ?thesis
    unfolding checkOneLeader_def len
  proof (elim disjE exE conjE)
    fix k i assume k: "k < (10 :: nat)" "one_leader_round (?cs ! k) = Inr (Some i)"
      and r: "one_leader_rounds ?cs = Inr i" and m: "\<forall>m < k. one_leader_round (?cs ! m) = Inr None"
    have "one_leader_round (observe (conn m) (c m)) = Inr None" "m < 10" if "m < k" for m
      using m nth [of m] that k(1) by simp_all
    then have "\<forall>m < k. \<forall>j. \<not> leads_at (conn m) (c m) j" using none by blast
    moreover have "one_leader_round (observe (conn k) (c k)) = Inr (Some i)" using k nth by simp
    ultimately show "case one_leader_rounds ?cs of
        Inl err \<Rightarrow> err = Fatal ''expected one leader, got none'' \<and> (\<forall>k < 10. \<forall>i. \<not> leads_at (conn k) (c k) i)
      | Inr i \<Rightarrow> \<exists>k < 10. leads_at (conn k) (c k) i \<and>
          (\<forall>j. leads_at (conn k) (c k) j \<longrightarrow> currentTerm (rf_at (c k) j) \<le> currentTerm (rf_at (c k) i)) \<and>
          (\<forall>m < k. \<forall>j. \<not> leads_at (conn m) (c m) j)"
      unfolding r using round [OF k(1), of "conn k"] k(1) by auto
  next
    assume r: "one_leader_rounds ?cs = Inl (Fatal ''expected one leader, got none'')"
      and "\<forall>m < 10. one_leader_round (?cs ! m) = Inr None"
    then have "one_leader_round (observe (conn m) (c m)) = Inr None" if "m < 10" for m
      using nth [of m] that by simp
    then have "\<forall>k < 10. \<forall>i. \<not> leads_at (conn k) (c k) i" using none by blast
    then show "case one_leader_rounds ?cs of
        Inl err \<Rightarrow> err = Fatal ''expected one leader, got none'' \<and> (\<forall>k < 10. \<forall>i. \<not> leads_at (conn k) (c k) i)
      | Inr i \<Rightarrow> \<exists>k < 10. leads_at (conn k) (c k) i \<and>
          (\<forall>j. leads_at (conn k) (c k) j \<longrightarrow> currentTerm (rf_at (c k) j) \<le> currentTerm (rf_at (c k) i)) \<and>
          (\<forall>m < k. \<forall>j. \<not> leads_at (conn m) (c m) j)"
      unfolding r by simp
  qed
qed

definition led_run :: "nat action list" where
  "led_run = [Local 0 E_FireElection, Local 0 E_Maintain, Local 0 E_Maintain, Local 0 E_Maintain,
     CallVote 0 1 True, VoteReturn 0 1, Local 0 E_Promote]"

theorem leader_check_passes_witness:
  "\<exists>c. runs cluster_step orderly led_run (init_cluster 3) = Some (Inr c) \<and>
     checkOneLeader (\<lambda>k. observe (\<lambda>_. 3 \<le> k) (if k < 3 then init_cluster 3 else c)) = Inr 0"
proof -
  have "case runs cluster_step orderly led_run (init_cluster 3) of Some (Inr c) \<Rightarrow>
      servers c = 3 \<and> state (rf_at c 0) = LEADER \<and> state (rf_at c 1) = FOLLOWER \<and> state (rf_at c 2) = FOLLOWER
    | _ \<Rightarrow> False" by code_simp
  then obtain c where c: "runs cluster_step orderly led_run (init_cluster 3) = Some (Inr c)"
    and s: "servers c = 3" "state (rf_at c 0) = LEADER" "state (rf_at c 1) = FOLLOWER" "state (rf_at c 2) = FOLLOWER"
    by (auto split: option.splits sum.splits)
  let ?c = "\<lambda>k :: nat. if k < 3 then init_cluster 3 else c" let ?conn = "\<lambda>(k :: nat) _ :: int. 3 \<le> k"
  have only: "leads_at (?conn k) (?c k) i \<longleftrightarrow> 3 \<le> k \<and> i = 0" for k i
  proof -
    have "state (rf_at c i) = LEADER \<Longrightarrow> i = 0" if "0 \<le> i" "i < 3"
    proof -
      have "i = 0 \<or> i = 1 \<or> i = 2" using that by presburger
      then show "state (rf_at c i) = LEADER \<Longrightarrow> i = 0" using s by auto
    qed
    then show ?thesis using s by (auto simp: leads_at_def)
  qed
  have "\<forall>k < 10. runs cluster_step orderly (if k < 3 then [] else led_run) (init_cluster 3) = Some (Inr (?c k))"
    using c by simp
  from leader_check_passes [OF this, of ?conn]
  have "checkOneLeader (\<lambda>k. observe (?conn k) (?c k)) = Inr 0"
    unfolding only by (auto split: sum.splits dest: spec [of _ 3])
  then show ?thesis using c by blast
qed

end
