(* ===== verification/RaftTester.thy ===== *)
theory RaftTester
  imports RaftConfig RaftLog
begin

text \<open>
  The rest of \<open>mp2/src/raft/config.go\<close>: how a test submits a command (\<open>one\<close>), waits
  for its commitment (\<open>wait\<close>), keeps its statistics and cleans up. While a test sleeps, the
  peers run: \<open>env t\<close> is the configuration as the loop sees it the \<open>t\<close>th time.
\<close>

section \<open>Statistics and clean-up\<close>

definition rpcCount :: "(nat \<Rightarrow> int) \<Rightarrow> int \<Rightarrow> 'c config \<Rightarrow> int res" where
  "rpcCount counts server cfg = GetCount counts server (cfg_net cfg)"

definition rpcTotal :: "'c config \<Rightarrow> int" where
  "rpcTotal cfg = GetTotalCount (cfg_net cfg)"

definition bytesTotal :: "'c config \<Rightarrow> int" where
  "bytesTotal cfg = GetTotalBytes (cfg_net cfg)"

record test_stats =
  rpcs0 :: int
  cmds0 :: int
  bytes0 :: int
  maxIndex0 :: int

definition begin_test :: "'c config \<Rightarrow> test_stats" where
  "begin_test cfg = \<lparr>rpcs0 = rpcTotal cfg, cmds0 = 0, bytes0 = bytesTotal cfg, maxIndex0 = maxIndex cfg\<rparr>"

text \<open>\<open>elapsed\<close> is the time since \<open>make_config\<close>, in nanoseconds.\<close>

definition checkTimeout :: "bool \<Rightarrow> int \<Rightarrow> unit res" where
  "checkTimeout failed elapsed =
     (if \<not> failed \<and> elapsed > 120 * (1000 * Millisecond) then Inl (Fatal ''test took longer than 120 seconds'')
      else Inr ())"

text \<open>The numbers that \<open>end\<close> prints of a test that has not failed: peers, RPCs, bytes, commands.\<close>

definition end_test :: "bool \<Rightarrow> int \<Rightarrow> test_stats \<Rightarrow> 'c config \<Rightarrow> (int \<times> int \<times> int \<times> int) option res" where
  "end_test failed elapsed stats cfg =
     bind_res (checkTimeout failed elapsed) (\<lambda>_.
       Inr (if \<not> failed
            then Some (int (n cfg), rpcTotal cfg - rpcs0 stats, bytesTotal cfg - bytes0 stats, maxIndex cfg - maxIndex0 stats)
            else None))"

definition cleanup :: "bool \<Rightarrow> int \<Rightarrow> 'c config \<Rightarrow> 'c config res" where
  "cleanup failed elapsed cfg =
     (let cfg = cfg\<lparr>rafts := map (map_option Kill) (rafts cfg)\<rparr>
      in bind_res (Cleanup (cfg_net cfg)) (\<lambda>rn. map_res (\<lambda>_. cfg\<lparr>cfg_net := rn\<rparr>) (checkTimeout failed elapsed)))"

section \<open>Waiting for a commitment\<close>

text \<open>Has some peer a later term? The loop stops at the first one.\<close>

fun moved_on :: "int \<Rightarrow> 'c Raft option list \<Rightarrow> bool res" where
  "moved_on startTerm [] = Inr False"
| "moved_on startTerm (None # rs) = Inl Nil_dereference"
| "moved_on startTerm (Some rf # rs) = (if fst (GetState rf) > startTerm then Inr True else moved_on startTerm rs)"

datatype 'c wait_result = Moved_on | Decided "'c option"

text \<open>The polling loop, with the iterations left; it tells whether to return -1, and the time.\<close>

fun wait_poll :: "(nat \<Rightarrow> 'c config) \<Rightarrow> int \<Rightarrow> int \<Rightarrow> int \<Rightarrow> nat \<Rightarrow> nat \<Rightarrow> (bool \<times> nat) res" where
  "wait_poll env index need startTerm 0 t = Inr (False, t)"
| "wait_poll env index need startTerm (Suc iters) t =
     bind_res (nCommitted index (env t)) (\<lambda>(nd, _).
       if nd \<ge> need then Inr (False, Suc t)
       else if startTerm > -1 then
         bind_res (moved_on startTerm (rafts (env (Suc t)))) (\<lambda>moved.
           if moved then Inr (True, Suc t) else wait_poll env index need startTerm iters (Suc (Suc t)))
       else wait_poll env index need startTerm iters (Suc (Suc t)))"

definition wait_committed :: "(nat \<Rightarrow> 'c config) \<Rightarrow> int \<Rightarrow> int \<Rightarrow> int \<Rightarrow> 'c wait_result res" where
  "wait_committed env index need startTerm =
     bind_res (wait_poll env index need startTerm 30 0) (\<lambda>(moved, t).
       if moved then Inr Moved_on
       else bind_res (nCommitted index (env t)) (\<lambda>(nd, cmd).
         if nd < need then Inl (Fatal ''only some decided'') else Inr (Decided cmd)))"

section \<open>Submitting a command\<close>

text \<open>
  One pass over the servers, from the one after \<open>starts\<close>: the index at which a leader
  accepted the command, or -1.
\<close>

fun try_servers :: "'c option \<Rightarrow> nat \<Rightarrow> int \<Rightarrow> 'c config \<Rightarrow> (int \<times> int \<times> 'c config) res" where
  "try_servers cmd 0 starts cfg = Inr (-1, starts, cfg)"
| "try_servers cmd (Suc k) starts cfg =
     (let starts = (starts + 1) mod int (n cfg)
      in bind_res (idx (connected cfg) starts) (\<lambda>c.
         bind_res (if c then idx (rafts cfg) starts else Inr None) (\<lambda>rf.
         case rf of
           None \<Rightarrow> try_servers cmd k starts cfg
         | Some rf \<Rightarrow>
             bind_res (Start cmd rf) (\<lambda>((index1, _, ok), rf).
             bind_res (upd (rafts cfg) starts (Some rf)) (\<lambda>rs.
               let cfg = cfg\<lparr>rafts := rs\<rparr>
               in if ok then Inr (index1, starts, cfg) else try_servers cmd k starts cfg)))))"

text \<open>The looks at the committed values during two seconds.\<close>

fun agree_poll :: "'c option \<Rightarrow> int \<Rightarrow> int \<Rightarrow> 'c config list \<Rightarrow> bool res" where
  "agree_poll cmd expected index [] = Inr False"
| "agree_poll cmd expected index (cfg # cfgs) =
     bind_res (nCommitted index cfg) (\<lambda>(nd, cmd1).
       if nd > 0 \<and> nd \<ge> expected \<and> cmd1 = cmd then Inr True else agree_poll cmd expected index cfgs)"

text \<open>
  \<open>one\<close>, on what it finds in each round of its ten seconds: the configuration when it
  tries the servers, and those it polls.
\<close>

fun one_rounds :: "'c option \<Rightarrow> int \<Rightarrow> bool \<Rightarrow> ('c config \<times> 'c config list) list \<Rightarrow> int \<Rightarrow> int res" where
  "one_rounds cmd expected retry [] starts = Inl (Fatal ''failed to reach agreement'')"
| "one_rounds cmd expected retry ((cfg, polls) # rounds) starts =
     bind_res (try_servers cmd (n cfg) starts cfg) (\<lambda>(index, starts, _).
       if index \<noteq> -1 then
         bind_res (agree_poll cmd expected index polls) (\<lambda>agreed.
           if agreed then Inr index
           else if \<not> retry then Inl (Fatal ''failed to reach agreement'')
           else one_rounds cmd expected retry rounds starts)
       else one_rounds cmd expected retry rounds starts)"

definition one_agreement :: "'c option \<Rightarrow> int \<Rightarrow> bool \<Rightarrow> ('c config \<times> 'c config list) list \<Rightarrow> int res" where
  "one_agreement cmd expected retry rounds = one_rounds cmd expected retry rounds 0"

section \<open>What the counts mean\<close>

text \<open>The peers whose recorded log has the index.\<close>

definition committers :: "int \<Rightarrow> 'c config \<Rightarrow> int list" where
  "committers index cfg =
     filter (\<lambda>i. map_of (logs cfg ! nat i) index \<noteq> None) (indices (length (rafts cfg)))"

lemma nCommitted_loop:
  assumes "for_res xs (\<lambda>i (count, cmd).
     bind_res (idx (applyErr cfg) i) (\<lambda>err.
     case err of
       Some _ \<Rightarrow> Inl (Fatal ''apply error'')
     | None \<Rightarrow> bind_res (idx (logs cfg) i) (\<lambda>lg.
         case map_of lg index of
           None \<Rightarrow> Inr (count, cmd)
         | Some cmd1 \<Rightarrow>
             if count > 0 \<and> cmd \<noteq> cmd1 then Inl (Fatal ''committed values do not match'')
             else Inr (count + 1, cmd1)))) (c, v) = Inr (c', v')" and "0 \<le> (c :: int)"
  shows "c' = c + len (filter (\<lambda>i. map_of (logs cfg ! nat i) index \<noteq> None) xs) \<and> (0 < c \<longrightarrow> v' = v) \<and>
    (\<forall>i\<in>set xs. applyErr cfg ! nat i = None \<and> (\<forall>w. map_of (logs cfg ! nat i) index = Some w \<longrightarrow> w = v'))"
  using assms
proof (induction xs arbitrary: c v)
  case (Cons i xs)
  let ?rest = "\<lambda>c v. for_res xs (\<lambda>i (count, cmd).
     bind_res (idx (applyErr cfg) i) (\<lambda>err.
     case err of
       Some _ \<Rightarrow> Inl (Fatal ''apply error'')
     | None \<Rightarrow> bind_res (idx (logs cfg) i) (\<lambda>lg.
         case map_of lg index of
           None \<Rightarrow> Inr (count, cmd)
         | Some cmd1 \<Rightarrow>
             if count > 0 \<and> cmd \<noteq> cmd1 then Inl (Fatal ''committed values do not match'')
             else Inr (count + 1, cmd1)))) (c, v)"
  from Cons.prems(1) have i: "applyErr cfg ! nat i = None"
    and step: "case map_of (logs cfg ! nat i) index of
        None \<Rightarrow> ?rest c v = Inr (c', v')
      | Some w \<Rightarrow> \<not> (c > 0 \<and> v \<noteq> w) \<and> ?rest (c + 1) w = Inr (c', v')"
    by (auto simp: bind_res_Inr idx_Inr split: option.splits if_splits)
  show ?case
  proof (cases "map_of (logs cfg ! nat i) index")
    case None
    with step Cons.IH [of c v] Cons.prems(2) i show ?thesis by simp
  next
    case (Some w)
    with step have "\<not> (c > 0 \<and> v \<noteq> w)" "?rest (c + 1) w = Inr (c', v')" by simp_all
    with Cons.IH [of "c + 1" w] Cons.prems(2) i Some show ?thesis by auto
  qed
qed auto

lemma nCommitted_result:
  assumes "nCommitted index cfg = Inr (nd, cmd)"
  shows "nd = len (committers index cfg)"
    "\<And>i. i < length (rafts cfg) \<Longrightarrow> applyErr cfg ! i = None"
    "\<And>i w. i < length (rafts cfg) \<Longrightarrow> map_of (logs cfg ! i) index = Some w \<Longrightarrow> w = cmd"
proof -
  note r = nCommitted_loop [OF assms [unfolded nCommitted_def] order_refl]
  then have all: "applyErr cfg ! nat i = None \<and> (\<forall>w. map_of (logs cfg ! nat i) index = Some w \<longrightarrow> w = cmd)"
    if "i \<in> set (indices (length (rafts cfg)))" for i
    using that by blast
  show "nd = len (committers index cfg)" using r by (simp add: committers_def)
  have mem: "int i \<in> set (indices (length (rafts cfg)))" if "i < length (rafts cfg)" for i
    using that by (simp add: indices_def)
  show "applyErr cfg ! i = None" if "i < length (rafts cfg)" for i
    using all [OF mem [OF that]] by simp
  show "w = cmd" if "i < length (rafts cfg)" "map_of (logs cfg ! i) index = Some w" for i w
    using all [OF mem [OF that(1)]] that(2) by simp
qed

lemma try_servers_leader:
  assumes "try_servers cmd k starts cfg = Inr (index, starts', cfg')" "index \<noteq> -1"
  shows "\<exists>i rf. connected cfg ! i \<and> i < length (rafts cfg) \<and> rafts cfg ! i = Some rf \<and> state rf = LEADER \<and>
    index = len (log rf) \<and> starts' = int i"
  using assms
proof (induction k arbitrary: starts cfg)
  case (Suc k)
  let ?s = "(starts + 1) mod int (n cfg)"
  show ?case
  proof (cases "connected cfg ! nat ?s \<and> rafts cfg ! nat ?s \<noteq> None")
    case False
    then have "try_servers cmd k ?s cfg = Inr (index, starts', cfg')"
      using Suc.prems(1) by (auto simp: Let_def bind_res_Inr idx_Inr split: if_splits)
    from Suc.IH [OF this Suc.prems(2)] show ?thesis .
  next
    case True
    then obtain rf where rf: "connected cfg ! nat ?s" "rafts cfg ! nat ?s = Some rf" by blast
    from Suc.prems(1) rf have s: "0 \<le> ?s" "?s < len (rafts cfg)"
      and body: "bind_res (Start cmd rf) (\<lambda>((index1, _, ok), rf).
             bind_res (upd (rafts cfg) ?s (Some rf)) (\<lambda>rs.
               let cfg = cfg\<lparr>rafts := rs\<rparr>
               in if ok then Inr (index1, ?s, cfg) else try_servers cmd k ?s cfg)) = Inr (index, starts', cfg')"
      by (auto simp: Let_def bind_res_Inr [of "idx _ _"] idx_Inr simp del: try_servers.simps(1) split: if_splits)
    show ?thesis
    proof (cases "state rf = LEADER")
      case True
      then have "index = len (log rf)" "starts' = ?s"
        using body by (auto simp: Start_def Let_def bind_res_Inr split: prod.splits)
      with True rf s show ?thesis by (intro exI [of _ "nat ?s"] exI [of _ rf]) (auto simp: len_def)
    next
      case False
      then have "try_servers cmd k ?s (cfg\<lparr>rafts := (rafts cfg)[nat ?s := Some rf]\<rparr>) = Inr (index, starts', cfg')"
        using body s by (auto simp: Start_def Let_def upd_def)
      moreover have "(rafts cfg)[nat ?s := Some rf] = rafts cfg" using rf(2) by (metis list_update_id)
      ultimately show ?thesis using Suc.IH [of ?s cfg] Suc.prems(2) by simp
    qed
  qed
qed simp

end
