(* ===== verification/TesterProperties.thy ===== *)
theory TesterProperties
  imports RaftTester
begin

text \<open>What a test may conclude when \<open>wait\<close> or \<open>one\<close> returns.\<close>

definition agreed :: "int \<Rightarrow> int \<Rightarrow> 'c option \<Rightarrow> 'c config \<Rightarrow> bool" where
  "agreed index need cmd cfg \<longleftrightarrow> need \<le> len (committers index cfg) \<and>
     (\<forall>i < length (rafts cfg). applyErr cfg ! i = None \<and>
        (\<forall>w. map_of (logs cfg ! i) index = Some w \<longrightarrow> w = cmd))"

lemma nCommitted_agreed: "nCommitted index cfg = Inr (nd, cmd) \<Longrightarrow> need \<le> nd \<Longrightarrow> agreed index need cmd cfg"
  using nCommitted_result [of index cfg nd cmd] by (auto simp: agreed_def)

lemma agree_poll_agreed:
  "agree_poll cmd expected index cfgs = Inr True \<Longrightarrow>
   \<exists>cfg\<in>set cfgs. agreed index expected cmd cfg \<and> agreed index 1 cmd cfg"
proof (induction cfgs)
  case (Cons cfg cfgs)
  then obtain nd cmd1 where nd: "nCommitted index cfg = Inr (nd, cmd1)"
    "nd > 0 \<and> nd \<ge> expected \<and> cmd1 = cmd \<or> agree_poll cmd expected index cfgs = Inr True"
    by (auto simp: bind_res_Inr split: if_splits)
  show ?case
  proof (cases "nd > 0 \<and> nd \<ge> expected \<and> cmd1 = cmd")
    case True
    with nCommitted_agreed [OF nd(1)] show ?thesis by auto
  qed (use nd Cons.IH in auto)
qed simp

lemma wait_poll_time:
  "wait_poll env index need startTerm iters t = Inr (moved, t') \<Longrightarrow> t' \<le> t + 2 * iters"
proof (induction iters arbitrary: t)
  case (Suc iters)
  then consider "t' = Suc t" | "wait_poll env index need startTerm iters (Suc (Suc t)) = Inr (moved, t')"
    by (auto simp: bind_res_Inr split: if_splits)
  then show ?case by cases (use Suc.IH in force)+
qed simp

text \<open>\<open>wait\<close> returns a command only when enough peers have committed it.\<close>

lemma wait_decided:
  "wait_committed env index need startTerm = Inr (Decided cmd) \<Longrightarrow> \<exists>t \<le> 60. agreed index need cmd (env t)"
  unfolding wait_committed_def
  by (auto simp: bind_res_Inr not_less split: if_splits dest!: wait_poll_time intro: nCommitted_agreed)

text \<open>C32: \<open>one\<close> returns an index only after agreement. In some round a connected leader took
  the command at exactly this index of its log, and at one of the looks of this round at
  least the expected number of peers, and at least one, had committed the index, every peer
  that had committed it with this command, and no reader had reported an error.\<close>

theorem one_agrees:
  assumes "one_agreement cmd expected retry rounds = Inr index"
  shows "\<exists>cfg polls. (cfg, polls) \<in> set rounds \<and>
    (\<exists>i rf. connected cfg ! i \<and> i < length (rafts cfg) \<and> rafts cfg ! i = Some rf \<and> state rf = LEADER \<and> index = len (log rf)) \<and>
    (\<exists>c\<in>set polls. expected \<le> len (committers index c) \<and> 0 < len (committers index c) \<and>
       (\<forall>i < length (rafts c). applyErr c ! i = None \<and> (\<forall>w. map_of (logs c ! i) index = Some w \<longrightarrow> w = cmd)))"
proof -
  let ?led = "\<lambda>cfg. \<exists>i rf. connected cfg ! i \<and> i < length (rafts cfg) \<and> rafts cfg ! i = Some rf \<and> state rf = LEADER \<and>
    index = len (log rf)"
  let ?P = "\<lambda>(cfg, polls). ?led cfg \<and> (\<exists>c\<in>set polls. agreed index expected cmd c \<and> agreed index 1 cmd c)"
  have "\<exists>r\<in>set rounds. ?P r" if "one_rounds cmd expected retry rounds starts = Inr index" for starts
    using that
  proof (induction rounds arbitrary: starts)
    case (Cons r rounds)
    obtain cfg polls where r: "r = (cfg, polls)" by force
    from Cons.prems obtain idx1 starts1 cfg1 where t: "try_servers cmd (n cfg) starts cfg = Inr (idx1, starts1, cfg1)"
      "idx1 \<noteq> -1 \<and> idx1 = index \<and> agree_poll cmd expected idx1 polls = Inr True \<or>
       one_rounds cmd expected retry rounds starts1 = Inr index"
      by (auto simp: r bind_res_Inr split: if_splits)
    from t(2) show ?case
    proof
      assume now: "idx1 \<noteq> -1 \<and> idx1 = index \<and> agree_poll cmd expected idx1 polls = Inr True"
      then have "?led cfg" using try_servers_leader [OF t(1)] by blast
      moreover have "\<exists>c\<in>set polls. agreed index expected cmd c \<and> agreed index 1 cmd c"
        using now agree_poll_agreed by blast
      ultimately have "?P r" by (simp add: r)
      then show ?thesis by simp
    next
      assume "one_rounds cmd expected retry rounds starts1 = Inr index"
      from Cons.IH [OF this] show ?thesis by (simp only: list.set bex_simps) blast
    qed
  qed simp
  from this [OF assms [unfolded one_agreement_def]] obtain cfg polls c where
    "(cfg, polls) \<in> set rounds" "?led cfg" "c \<in> set polls" "agreed index expected cmd c" "agreed index 1 cmd c"
    by blast
  then show ?thesis unfolding agreed_def by (intro exI [of _ cfg] exI [of _ polls]) (simp add: Suc_le_eq, force)
qed

text \<open>A single peer that leads, and the same peer after it committed the command 7.\<close>

definition single :: "nat config" where
  "single = (empty_config 1)\<lparr>connected := [True], rafts := [Some ((Make 1 0)\<lparr>state := LEADER\<rparr>)]\<rparr>"

definition single_done :: "nat config" where
  "single_done = single\<lparr>logs := [[(1, Some 7)]]\<rparr>"

theorem one_agrees_witness:
  "\<exists>c\<in>set [single, single_done]. 1 \<le> len (committers 1 c)"
proof -
  have "one_agreement (Some 7) 1 False [(single, [single, single_done])] = Inr 1"
    by code_simp
  from one_agrees [OF this] show ?thesis by auto
qed

end
