(* ===== verification/LabGob.thy ===== *)
theory LabGob
  imports Prelude
begin

text \<open>
  \<open>mp2/src/labgob/labgob.go\<close>: the wrapper of Go's gob encoding that warns about
  lower-case fields of the types sent over RPC and about decoding into values that are not
  zero. The types of a program are a table; a \<open>reflect.Type\<close> is an index into it, so
  recursive types are possible, and nil is \<open>None\<close>. Field names are ASCII. gob itself is
  not part of the repository: it is a parameter of \<open>Encode\<close> and \<open>Decode\<close>.
\<close>

section \<open>Types\<close>

datatype go_type =
    Struct_type string "(string \<times> nat) list"
  | Slice_type nat
  | Array_type nat
  | Ptr_type nat
  | Map_type nat nat \<comment> \<open>key, element\<close>
  | Other_type string

datatype lab_warning = Lower_case_field string string | Non_default string

record labgob =
  seen_types :: "nat list" \<comment> \<open>the keys of \<open>checked\<close>\<close>
  errorCount :: int
  warnings :: "lab_warning list"

definition IsUpper :: "string \<Rightarrow> bool" where
  "IsUpper s = (case s of [] \<Rightarrow> False | c # _ \<Rightarrow> (of_char c :: nat) \<in> {65..90})"

definition check_field :: "string \<Rightarrow> string \<Rightarrow> labgob \<Rightarrow> labgob" where
  "check_field tn f st =
     (if IsUpper f then st
      else st\<lparr>warnings := warnings st @ [Lower_case_field f tn], errorCount := errorCount st + 1\<rparr>)"

text \<open>
  The recursion of \<open>checkType\<close> runs on fuel; \<open>checkType_reaches\<close> shows that one more
  than the number of types is always enough.
\<close>

primrec checkType :: "nat \<Rightarrow> go_type list \<Rightarrow> nat \<Rightarrow> labgob \<Rightarrow> labgob go" where
  "checkType 0 T t st = None"
| "checkType (Suc k) T t st =
     (if t \<in> set (seen_types st) then return_go st
      else let st = st\<lparr>seen_types := t # seen_types st\<rparr>
      in case T ! t of
           Struct_type tn fs \<Rightarrow> for_go fs (\<lambda>(f, u) st. checkType k T u (check_field tn f st)) st
         | Slice_type u \<Rightarrow> checkType k T u st
         | Array_type u \<Rightarrow> checkType k T u st
         | Ptr_type u \<Rightarrow> checkType k T u st
         | Map_type key el \<Rightarrow> bind_go (checkType k T el st) (checkType k T key)
         | Other_type _ \<Rightarrow> return_go st)"

text \<open>\<open>reflect.TypeOf(nil)\<close> is nil, whose \<open>Kind\<close> panics.\<close>

definition checkValue :: "nat \<Rightarrow> go_type list \<Rightarrow> nat option \<Rightarrow> labgob \<Rightarrow> labgob go" where
  "checkValue k T ty st = (case ty of None \<Rightarrow> Some (Inl Nil_dereference) | Some t \<Rightarrow> checkType k T t st)"

section \<open>Every reachable type is checked once\<close>

fun children :: "go_type \<Rightarrow> nat list" where
  "children (Struct_type tn fs) = map snd fs"
| "children (Slice_type u) = [u]"
| "children (Array_type u) = [u]"
| "children (Ptr_type u) = [u]"
| "children (Map_type key el) = [el, key]"
| "children (Other_type _) = []"

fun lower_fields :: "go_type \<Rightarrow> int" where
  "lower_fields (Struct_type tn fs) = int (length (filter (\<lambda>(f, u). \<not> IsUpper f) fs))"
| "lower_fields _ = 0"

definition refers :: "go_type list \<Rightarrow> (nat \<times> nat) set" where
  "refers T = {(t, u). t < length T \<and> u \<in> set (children (T ! t))}"

definition wf_types :: "go_type list \<Rightarrow> bool" where
  "wf_types T \<longleftrightarrow> (\<forall>t < length T. \<forall>u \<in> set (children (T ! t)). u < length T)"

definition lower_total :: "go_type list \<Rightarrow> nat set \<Rightarrow> int" where
  "lower_total T S = (\<Sum>u\<in>S. lower_fields (T ! u))"

text \<open>
  What a visit of the types \<open>us\<close> does: they are seen afterwards, what is newly seen can be
  reached from them, and every type a newly seen one refers to is seen as well.
\<close>

definition explores :: "go_type list \<Rightarrow> nat list \<Rightarrow> labgob \<Rightarrow> labgob \<Rightarrow> bool" where
  "explores T us st st' \<longleftrightarrow>
     set (seen_types st) \<subseteq> set (seen_types st') \<and> set us \<subseteq> set (seen_types st') \<and>
     set (seen_types st') \<subseteq> {..<length T} \<and>
     (\<forall>u \<in> set (seen_types st') - set (seen_types st).
        set (children (T ! u)) \<subseteq> set (seen_types st') \<and> (\<exists>v \<in> set us. (v, u) \<in> (refers T)\<^sup>*))"

definition counts :: "go_type list \<Rightarrow> int \<Rightarrow> labgob \<Rightarrow> labgob \<Rightarrow> bool" where
  "counts T own st st' \<longleftrightarrow> errorCount st' = errorCount st + own +
     lower_total T (set (seen_types st') - set (seen_types st))"

lemma explores_refl: "set (seen_types st) \<subseteq> {..<length T} \<Longrightarrow> set us \<subseteq> set (seen_types st) \<Longrightarrow> explores T us st st"
  by (auto simp: explores_def)

lemma explores_trans:
  assumes "explores T us st s1" "explores T vs s1 st'"
  shows "explores T (us @ vs) st st'"
  unfolding explores_def
proof (intro conjI ballI)
  fix u assume u: "u \<in> set (seen_types st') - set (seen_types st)"
  have "set (children (T ! u)) \<subseteq> set (seen_types st') \<and> (\<exists>v\<in>set us \<union> set vs. (v, u) \<in> (refers T)\<^sup>*)"
  proof (cases "u \<in> set (seen_types s1)")
    case True
    with u have "u \<in> set (seen_types s1) - set (seen_types st)" by simp
    then have "set (children (T ! u)) \<subseteq> set (seen_types s1) \<and> (\<exists>v\<in>set us. (v, u) \<in> (refers T)\<^sup>*)"
      using assms(1) unfolding explores_def by blast
    moreover have "set (seen_types s1) \<subseteq> set (seen_types st')" using assms(2) by (simp add: explores_def)
    ultimately show ?thesis by blast
  next
    case False
    with u have "u \<in> set (seen_types st') - set (seen_types s1)" by simp
    then show ?thesis using assms(2) unfolding explores_def by blast
  qed
  then show "set (children (T ! u)) \<subseteq> set (seen_types st')" "\<exists>v\<in>set (us @ vs). (v, u) \<in> (refers T)\<^sup>*"
    by auto
qed (use assms in \<open>auto simp: explores_def\<close>)

lemma counts_trans:
  assumes "explores T us st s1" "explores T vs s1 st'" "counts T a st s1" "counts T b s1 st'"
  shows "counts T (a + b) st st'"
proof -
  have "set (seen_types st') - set (seen_types st) =
      (set (seen_types s1) - set (seen_types st)) \<union> (set (seen_types st') - set (seen_types s1))"
    using assms(1,2) by (auto simp: explores_def)
  then have "lower_total T (set (seen_types st') - set (seen_types st)) =
      lower_total T (set (seen_types s1) - set (seen_types st)) + lower_total T (set (seen_types st') - set (seen_types s1))"
    unfolding lower_total_def by (simp add: sum.union_disjoint Int_commute disjoint_iff)
  with assms(3,4) show ?thesis by (simp add: counts_def)
qed

lemma counts_same: "set (seen_types st') = set (seen_types st) \<Longrightarrow> errorCount st' = errorCount st + a \<Longrightarrow> counts T a st st'"
  by (simp add: counts_def lower_total_def)

text \<open>Marking a type before its children, as the code does.\<close>

lemma explores_mark:
  assumes "t < length T" "t \<notin> set (seen_types st)"
    and "explores T (children (T ! t)) (st\<lparr>seen_types := t # seen_types st\<rparr>) st'"
    and "counts T (lower_fields (T ! t)) (st\<lparr>seen_types := t # seen_types st\<rparr>) st'"
  shows "explores T [t] st st' \<and> counts T 0 st st'"
proof
  have step: "(t, u) \<in> (refers T)\<^sup>*" if "v \<in> set (children (T ! t))" "(v, u) \<in> (refers T)\<^sup>*" for u v
    using that assms(1) by (auto simp: refers_def intro: converse_rtrancl_into_rtrancl)
  show "explores T [t] st st'"
    unfolding explores_def
  proof (intro conjI ballI)
    fix u assume u: "u \<in> set (seen_types st') - set (seen_types st)"
    show "set (children (T ! u)) \<subseteq> set (seen_types st')"
      using u assms(3) by (cases "u = t") (auto simp: explores_def)
    show "\<exists>v\<in>set [t]. (v, u) \<in> (refers T)\<^sup>*"
    proof (cases "u = t")
      case False
      with u have "u \<in> set (seen_types st') - set (seen_types (st\<lparr>seen_types := t # seen_types st\<rparr>))" by simp
      then obtain v where "v \<in> set (children (T ! t))" "(v, u) \<in> (refers T)\<^sup>*"
        using assms(3) unfolding explores_def by blast
      with step show ?thesis by simp
    qed simp
  qed (use assms(3) in \<open>auto simp: explores_def\<close>)
  have new: "set (seen_types st') - set (seen_types st) = insert t (set (seen_types st') - insert t (set (seen_types st)))"
    using assms(2,3) by (auto simp: explores_def)
  show "counts T 0 st st'"
    using assms(4) unfolding counts_def new lower_total_def by simp
qed

definition visits :: "go_type list \<Rightarrow> nat \<Rightarrow> bool" where
  "visits T k \<longleftrightarrow> (\<forall>t st. t < length T \<longrightarrow> set (seen_types st) \<subseteq> {..<length T} \<longrightarrow>
     length T < k + card (set (seen_types st)) \<longrightarrow>
     (\<exists>st'. checkType k T t st = Some (Inr st') \<and> explores T [t] st st' \<and> counts T 0 st st'))"

lemma visitsE:
  assumes "visits T k" "t < length T" "set (seen_types st) \<subseteq> {..<length T}" "length T < k + card (set (seen_types st))"
  obtains st' where "checkType k T t st = Some (Inr st')" "explores T [t] st st'" "counts T 0 st st'"
    "length T < k + card (set (seen_types st'))"
proof -
  obtain st' where st': "checkType k T t st = Some (Inr st')" "explores T [t] st st'" "counts T 0 st st'"
    using assms unfolding visits_def by blast
  then have "card (set (seen_types st)) \<le> card (set (seen_types st'))"
    by (intro card_mono) (auto simp: explores_def)
  with st' assms(4) that show thesis by force
qed

lemma visits_fields:
  assumes "visits T k" "\<forall>(f, u)\<in>set fs. u < length T" "set (seen_types st) \<subseteq> {..<length T}"
    "length T < k + card (set (seen_types st))"
  shows "\<exists>st'. for_go fs (\<lambda>(f, u) st. checkType k T u (check_field tn f st)) st = Some (Inr st') \<and>
    explores T (map snd fs) st st' \<and> counts T (int (length (filter (\<lambda>(f, u). \<not> IsUpper f) fs))) st st'"
  using assms(2-4)
proof (induction fs arbitrary: st)
  case Nil
  then show ?case by (auto simp: return_go_def explores_refl counts_same)
next
  case (Cons x fs)
  obtain f u where x: "x = (f, u)" by force
  let ?c = "check_field tn f st" and ?own = "if IsUpper f then 0 else 1 :: int"
  have c: "seen_types ?c = seen_types st" "errorCount ?c = errorCount st + ?own"
    by (simp_all add: check_field_def)
  obtain s1 where s1: "checkType k T u ?c = Some (Inr s1)" "explores T [u] ?c s1" "counts T 0 ?c s1"
    "length T < k + card (set (seen_types s1))"
    by (rule visitsE [OF assms(1), of u ?c]) (use Cons.prems x c in auto)
  then have e1: "explores T [u] st s1" and c1: "counts T ?own st s1"
    by (simp_all add: explores_def counts_def c)
  have "set (seen_types s1) \<subseteq> {..<length T}" using e1 by (simp add: explores_def)
  with Cons.IH [of s1] Cons.prems s1(4) obtain st' where st':
    "for_go fs (\<lambda>(f, u) st. checkType k T u (check_field tn f st)) s1 = Some (Inr st')"
    "explores T (map snd fs) s1 st'" "counts T (int (length (filter (\<lambda>(f, u). \<not> IsUpper f) fs))) s1 st'"
    by auto
  from explores_trans [OF e1 st'(2)] counts_trans [OF e1 st'(2) c1 st'(3)] s1(1) st'(1) show ?case
    by (auto simp: x add.commute split: if_splits)
qed

lemma visits_Suc:
  assumes "wf_types T" "visits T k"
  shows "visits T (Suc k)"
  unfolding visits_def
proof (intro allI impI)
  fix t and st :: labgob
  assume t: "t < length T" and seen: "set (seen_types st) \<subseteq> {..<length T}"
    and fuel: "length T < Suc k + card (set (seen_types st))"
  show "\<exists>st'. checkType (Suc k) T t st = Some (Inr st') \<and> explores T [t] st st' \<and> counts T 0 st st'"
  proof (cases "t \<in> set (seen_types st)")
    case True
    with seen show ?thesis by (auto simp: return_go_def explores_refl counts_same)
  next
    case False
    let ?s = "st\<lparr>seen_types := t # seen_types st\<rparr>"
    have s: "set (seen_types ?s) \<subseteq> {..<length T}" "length T < k + card (set (seen_types ?s))"
      using t seen fuel False by simp_all
    have kids: "\<forall>u\<in>set (children (T ! t)). u < length T" using assms(1) t by (simp add: wf_types_def)
    have one: "\<exists>st'. checkType k T u ?s = Some (Inr st') \<and> explores T [u] ?s st' \<and> counts T 0 ?s st'" if "u < length T" for u
      using visitsE [OF assms(2) that s] by metis
    have "\<exists>st'. checkType (Suc k) T t st = Some (Inr st') \<and> explores T (children (T ! t)) ?s st' \<and>
      counts T (lower_fields (T ! t)) ?s st'"
    proof (cases "T ! t")
      case (Struct_type tn fs)
      then show ?thesis using visits_fields [OF assms(2) _ s, of fs tn] kids False by (auto simp: case_prod_beta)
    next
      case (Map_type key el)
      with kids have ke: "el < length T" "key < length T" by simp_all
      obtain s1 where s1: "checkType k T el ?s = Some (Inr s1)" "explores T [el] ?s s1" "counts T 0 ?s s1"
        "length T < k + card (set (seen_types s1))"
        by (rule visitsE [OF assms(2) ke(1) s])
      have "set (seen_types s1) \<subseteq> {..<length T}" using s1(2) by (simp add: explores_def)
      then obtain st' where st': "checkType k T key s1 = Some (Inr st')" "explores T [key] s1 st'" "counts T 0 s1 st'"
        using visitsE [OF assms(2) ke(2) _ s1(4)] by metis
      show ?thesis
        using explores_trans [OF s1(2) st'(2)] counts_trans [OF s1(2) st'(2) s1(3) st'(3)] s1(1) st'(1) False Map_type
        by (auto intro!: exI [of _ st'])
    next
      case (Other_type n)
      with s False show ?thesis by (auto simp: return_go_def explores_refl counts_same)
    qed (use one kids False in auto)
    with explores_mark [OF t False] show ?thesis by blast
  qed
qed

lemma visits_all: "wf_types T \<Longrightarrow> visits T k"
proof (induction k)
  case 0
  have "card (set (seen_types st)) \<le> length T" if "set (seen_types st) \<subseteq> {..<length T}" for st
    using card_mono [OF _ that] by simp
  then show ?case by (fastforce simp: visits_def)
qed (rule visits_Suc)

text \<open>From a state in which the seen types are closed, the recursion adds what is reachable.\<close>

definition closed_types :: "go_type list \<Rightarrow> nat set \<Rightarrow> bool" where
  "closed_types T S \<longleftrightarrow> S \<subseteq> {..<length T} \<and> (refers T) `` S \<subseteq> S"

lemma checkType_reaches:
  assumes "wf_types T" "t < length T" "closed_types T (set (seen_types st))" "length T < k"
  shows "\<exists>st'. checkType k T t st = Some (Inr st') \<and>
    set (seen_types st') = set (seen_types st) \<union> (refers T)\<^sup>* `` {t} \<and>
    closed_types T (set (seen_types st')) \<and>
    errorCount st' = errorCount st + lower_total T ((refers T)\<^sup>* `` {t} - set (seen_types st))"
proof -
  have "set (seen_types st) \<subseteq> {..<length T}" "length T < k + card (set (seen_types st))"
    using assms(3,4) by (simp_all add: closed_types_def)
  then obtain st' where st': "checkType k T t st = Some (Inr st')" "explores T [t] st st'" "counts T 0 st st'"
    using visits_all [OF assms(1), of k] assms(2) unfolding visits_def by blast
  have closed: "(refers T) `` set (seen_types st') \<subseteq> set (seen_types st')"
  proof
    fix u assume "u \<in> (refers T) `` set (seen_types st')"
    then obtain v where v: "v \<in> set (seen_types st')" "(v, u) \<in> refers T" by blast
    show "u \<in> set (seen_types st')"
    proof (cases "v \<in> set (seen_types st)")
      case True
      with v assms(3) have "u \<in> set (seen_types st)" by (auto simp: closed_types_def)
      then show ?thesis using st'(2) by (auto simp: explores_def)
    next
      case False
      with v st'(2) show ?thesis by (force simp: explores_def refers_def)
    qed
  qed
  have "(refers T)\<^sup>* `` {t} \<subseteq> set (seen_types st')"
  proof
    fix u assume "u \<in> (refers T)\<^sup>* `` {t}"
    then have "(t, u) \<in> (refers T)\<^sup>*" by simp
    then show "u \<in> set (seen_types st')"
      using st'(2) closed by induction (auto simp: explores_def)
  qed
  with st'(2) have eq: "set (seen_types st') = set (seen_types st) \<union> (refers T)\<^sup>* `` {t}"
    by (auto simp: explores_def)
  then have "set (seen_types st') - set (seen_types st) = (refers T)\<^sup>* `` {t} - set (seen_types st)" by blast
  with st' eq closed show ?thesis by (auto simp: counts_def closed_types_def explores_def)
qed

section \<open>Values that are not zero\<close>

text \<open>
  A value as \<open>checkDefault1\<close> looks at it; \<open>Other_value\<close> is one of a kind it ignores
  (slices, maps, interfaces). A float is \<open>None\<close> if it is no finite number.
\<close>

datatype basic_value =
    Bool_value bool
  | Int_value int
  | Uint_value nat
  | Float_value "int option"
  | String_value string

datatype go_value =
    Struct_value "(string \<times> go_value) list"
  | Ptr_value "go_value option"
  | Basic_value string basic_value \<comment> \<open>with the name of its type\<close>
  | Other_value

fun is_zero :: "basic_value \<Rightarrow> bool" where
  "is_zero (Bool_value b) \<longleftrightarrow> \<not> b"
| "is_zero (Int_value i) \<longleftrightarrow> i = 0"
| "is_zero (Uint_value u) \<longleftrightarrow> u = 0"
| "is_zero (Float_value x) \<longleftrightarrow> x = Some 0"
| "is_zero (String_value s) \<longleftrightarrow> s = []"

definition warn_default :: "string \<Rightarrow> labgob \<Rightarrow> labgob" where
  "warn_default what st =
     st\<lparr>warnings := (if errorCount st < 1 then warnings st @ [Non_default what] else warnings st),
        errorCount := errorCount st + 1\<rparr>"

definition field_path :: "string \<Rightarrow> string \<Rightarrow> string" where
  "field_path name f = (if name \<noteq> [] then name @ ''.'' @ f else f)"

function checkDefault1 :: "go_value \<Rightarrow> nat \<Rightarrow> string \<Rightarrow> labgob \<Rightarrow> labgob" where
  "checkDefault1 v depth name st =
     (if depth > 3 then st
      else case v of
        Struct_value fs \<Rightarrow> fold (\<lambda>(f, vv). checkDefault1 vv (depth + 1) (field_path name f)) fs st
      | Ptr_value None \<Rightarrow> st
      | Ptr_value (Some w) \<Rightarrow> checkDefault1 w (depth + 1) name st
      | Basic_value tn b \<Rightarrow> if is_zero b then st else warn_default (if name = [] then tn else name) st
      | Other_value \<Rightarrow> st)"
  by pat_completeness auto

termination
  by (relation "measure (\<lambda>(v, depth, name, st). 4 - depth)") auto

declare checkDefault1.simps [simp del]

definition checkDefault :: "go_value option \<Rightarrow> labgob \<Rightarrow> labgob" where
  "checkDefault value st = (case value of None \<Rightarrow> st | Some v \<Rightarrow> checkDefault1 v 1 [] st)"

text \<open>The paths, down to three levels, of the values that are not zero.\<close>

function non_zero :: "go_value \<Rightarrow> nat \<Rightarrow> string \<Rightarrow> string list" where
  "non_zero v depth name =
     (if depth > 3 then []
      else case v of
        Struct_value fs \<Rightarrow> concat (map (\<lambda>(f, vv). non_zero vv (depth + 1) (field_path name f)) fs)
      | Ptr_value None \<Rightarrow> []
      | Ptr_value (Some w) \<Rightarrow> non_zero w (depth + 1) name
      | Basic_value tn b \<Rightarrow> if is_zero b then [] else [if name = [] then tn else name]
      | Other_value \<Rightarrow> [])"
  by pat_completeness auto

termination
  by (relation "measure (\<lambda>(v, depth, name). 4 - depth)") auto

declare non_zero.simps [simp del]

lemma checkDefault1_eq: "checkDefault1 v depth name st = fold warn_default (non_zero v depth name) st"
proof (induction v depth name st rule: checkDefault1.induct)
  case (1 v depth name st)
  show ?case
  proof (cases "depth > 3")
    case True
    then show ?thesis by (simp add: checkDefault1.simps [of v] non_zero.simps [of v])
  next
    case False
    show ?thesis
    proof (cases v)
      case (Struct_value fs)
      have "fold (\<lambda>(f, vv). checkDefault1 vv (depth + 1) (field_path name f)) gs s =
          fold warn_default (concat (map (\<lambda>(f, vv). non_zero vv (depth + 1) (field_path name f)) gs)) s"
        if "set gs \<subseteq> set fs" for gs s
        using that
      proof (induction gs arbitrary: s)
        case (Cons g gs)
        obtain f vv where g: "g = (f, vv)" by force
        have "checkDefault1 vv (depth + 1) (field_path name f) s = fold warn_default (non_zero vv (depth + 1) (field_path name f)) s"
          using 1(1) [OF False Struct_value, of g] g Cons.prems by auto
        with Cons g show ?case by simp
      qed simp
      then show ?thesis
        using False Struct_value by (subst checkDefault1.simps, subst non_zero.simps) simp
    next
      case (Ptr_value w)
      show ?thesis
      proof (cases w)
        case (Some x)
        then show ?thesis
          using 1(2) [OF False Ptr_value Some] False Ptr_value
          by (subst checkDefault1.simps, subst non_zero.simps) simp
      qed (use False Ptr_value in \<open>subst checkDefault1.simps, subst non_zero.simps, simp\<close>)
    qed (use False in \<open>(subst checkDefault1.simps, subst non_zero.simps, simp)+\<close>)
  qed
qed

lemma warn_defaults:
  assumes "0 \<le> errorCount st"
  shows "fold warn_default ws st =
    st\<lparr>warnings := warnings st @ (if errorCount st = 0 \<and> ws \<noteq> [] then [Non_default (hd ws)] else []),
       errorCount := errorCount st + int (length ws)\<rparr>"
  using assms
proof (induction ws arbitrary: st)
  case (Cons w ws)
  then show ?case by (auto simp: warn_default_def)
qed simp

section \<open>Encoding and decoding\<close>

text \<open>The argument is given with its type; gob's own encoder and decoder are parameters.\<close>

definition Encode :: "('v \<Rightarrow> 'b) \<Rightarrow> nat \<Rightarrow> go_type list \<Rightarrow> nat option \<Rightarrow> 'v \<Rightarrow> labgob \<Rightarrow> ('b \<times> labgob) go" where
  "Encode gob k T ty e st = bind_go (checkValue k T ty st) (\<lambda>st. return_go (gob e, st))"

definition Decode ::
    "('b \<Rightarrow> go_value option \<Rightarrow> 'r) \<Rightarrow> nat \<Rightarrow> go_type list \<Rightarrow> nat option \<Rightarrow> go_value option \<Rightarrow> 'b \<Rightarrow> labgob \<Rightarrow> ('r \<times> labgob) go"
  where
  "Decode gob k T ty e bytes st =
     bind_go (checkValue k T ty st) (\<lambda>st. return_go (gob bytes e, checkDefault e st))"

definition Register :: "nat \<Rightarrow> go_type list \<Rightarrow> nat option \<Rightarrow> labgob \<Rightarrow> labgob go" where
  "Register k T ty st = checkValue k T ty st"

end
