(* ===== verification/LabProperties.thy ===== *)
theory LabProperties
  imports LabGob
begin

text \<open>
  The properties of \<open>labgob\<close>, applied to the types of the messages that Raft's peers
  exchange.
\<close>

text \<open>No type was checked yet.\<close>

definition fresh_labgob :: labgob where
  "fresh_labgob = \<lparr>seen_types = [], errorCount = 0, warnings = []\<rparr>"

text \<open>
  The types of \<open>raft.go\<close> that go over the network: 0 to 3 are the arguments and replies
  of \<open>RequestVote\<close> and \<open>AppendEntries\<close>, 9 to 12 the pointers to them.
\<close>

definition raft_rpc_types :: "go_type list" where
  "raft_rpc_types =
    [Struct_type ''RequestVoteArgs'' [(''Term'', 6), (''CandidateId'', 6), (''LastLogIndex'', 6), (''LastLogTerm'', 6)],
     Struct_type ''RequestVoteReply'' [(''Term'', 6), (''VoteGranted'', 7)],
     Struct_type ''AppendEntriesArgs'' [(''Term'', 6), (''LeaderId'', 6), (''PrevLogIndex'', 6), (''PrevLogTerm'', 6),
       (''Entries'', 5), (''LeaderCommit'', 6)],
     Struct_type ''AppendEntriesReply'' [(''Term'', 6), (''Success'', 7)],
     Struct_type ''LogEntry'' [(''Term'', 6), (''Command'', 8)],
     Slice_type 4, Other_type ''int'', Other_type ''bool'', Other_type ''interface'',
     Ptr_type 0, Ptr_type 1, Ptr_type 2, Ptr_type 3]"

lemma raft_rpc_types_wf: "wf_types raft_rpc_types" "length raft_rpc_types = 13"
  by (simp_all add: wf_types_def raft_rpc_types_def less_Suc_eq numeral_eq_Suc All_less_Suc)

lemma raft_rpc_types_upper: "lower_total raft_rpc_types S = 0" if "S \<subseteq> {..<13}"
proof -
  have "lower_fields (raft_rpc_types ! u) = 0" if "u < 13" for u
    using that by (auto simp: raft_rpc_types_def less_Suc_eq numeral_eq_Suc IsUpper_def)
  with that show ?thesis unfolding lower_total_def by (intro sum.neutral) auto
qed

text \<open>C33: the check of a type always ends, also on recursive types, and is complete: it visits
  exactly the types that the given one refers to, directly or through others, counts every
  lower-case field of every struct among them, each once, and checking any of them again
  changes nothing.\<close>

theorem type_check_complete:
  assumes "wf_types T" "t < length T" "length T < k"
  shows "\<exists>st. checkType k T t fresh_labgob = Some (Inr st) \<and> set (seen_types st) = (refers T)\<^sup>* `` {t} \<and>
    errorCount st = (\<Sum>u \<in> (refers T)\<^sup>* `` {t}. lower_fields (T ! u)) \<and>
    (\<forall>u \<in> (refers T)\<^sup>* `` {t}. checkType k T u st = Some (Inr st))"
proof -
  have "closed_types T (set (seen_types fresh_labgob))" by (simp add: closed_types_def fresh_labgob_def)
  from checkType_reaches [OF assms(1,2) this assms(3)] obtain st where
    st: "checkType k T t fresh_labgob = Some (Inr st)" "set (seen_types st) = (refers T)\<^sup>* `` {t}"
    "errorCount st = lower_total T ((refers T)\<^sup>* `` {t})"
    by (auto simp: fresh_labgob_def)
  moreover obtain k' where "k = Suc k'" using assms(3) by (cases k) auto
  then have "checkType k T u st = Some (Inr st)" if "u \<in> set (seen_types st)" for u
    using that by (simp add: return_go_def)
  ultimately show ?thesis by (auto simp: lower_total_def)
qed

theorem type_check_complete_witness:
  "\<exists>st. checkType 14 raft_rpc_types 11 fresh_labgob = Some (Inr st) \<and>
    checkType 14 raft_rpc_types 11 st = Some (Inr st)"
  using type_check_complete [OF raft_rpc_types_wf(1), of 11 14] by (auto simp: raft_rpc_types_wf(2))

text \<open>Decoding always returns what gob decodes, and the number of errors grows by the
  lower-case fields of the types not checked before and by the values down to the third level
  of the target that are not zero. Only the first error of the program makes
  \<open>checkDefault\<close> print.\<close>

theorem decode_checks:
  assumes "wf_types T" "t < length T" "closed_types T (set (seen_types st))" "length T < k" "0 \<le> errorCount st"
  shows "\<exists>st1 st'. checkValue k T (Some t) st = Some (Inr st1) \<and>
    Decode gob k T (Some t) (Some v) bytes st = Some (Inr (gob bytes (Some v), st')) \<and>
    errorCount st1 = errorCount st + lower_total T ((refers T)\<^sup>* `` {t} - set (seen_types st)) \<and>
    errorCount st' = errorCount st1 + int (length (non_zero v 1 [])) \<and>
    warnings st' = warnings st1 @
      (if errorCount st1 = 0 \<and> non_zero v 1 [] \<noteq> [] then [Non_default (hd (non_zero v 1 []))] else [])"
proof -
  obtain st1 where st1: "checkType k T t st = Some (Inr st1)"
    "errorCount st1 = errorCount st + lower_total T ((refers T)\<^sup>* `` {t} - set (seen_types st))"
    using checkType_reaches [OF assms(1-4)] by blast
  have "0 \<le> lower_total T S" for S
  proof -
    have "0 \<le> lower_fields x" for x by (cases x) auto
    then show ?thesis unfolding lower_total_def by (intro sum_nonneg) auto
  qed
  with st1 assms(5) have "0 \<le> errorCount st1" by simp
  with st1 show ?thesis
    by (simp add: checkValue_def Decode_def checkDefault_def checkDefault1_eq warn_defaults return_go_def)
qed

theorem decode_checks_witness:
  "\<exists>st'. Decode (\<lambda>b _. b) 14 raft_rpc_types (Some 10)
      (Some (Ptr_value (Some (Struct_value [(''Term'', Basic_value ''int'' (Int_value 3)),
         (''VoteGranted'', Basic_value ''bool'' (Bool_value False))])))) ''bytes'' fresh_labgob = Some (Inr (''bytes'', st')) \<and>
    errorCount st' = 1"
proof -
  let ?v = "Ptr_value (Some (Struct_value [(''Term'', Basic_value ''int'' (Int_value 3)),
         (''VoteGranted'', Basic_value ''bool'' (Bool_value False))]))"
  have nz: "non_zero ?v (Suc 0) [] = [''Term'']" by (simp add: non_zero.simps field_path_def)
  have closed: "closed_types raft_rpc_types (set (seen_types fresh_labgob))"
    by (simp add: closed_types_def fresh_labgob_def)
  have "(10, u) \<in> (refers raft_rpc_types)\<^sup>* \<Longrightarrow> u < 13" for u
    by (induction rule: rtrancl_induct) (use raft_rpc_types_wf in \<open>auto simp: refers_def wf_types_def\<close>)
  then have "lower_total raft_rpc_types ((refers raft_rpc_types)\<^sup>* `` {10}) = 0"
    by (intro raft_rpc_types_upper) auto
  then show ?thesis
    using decode_checks [OF raft_rpc_types_wf(1) _ closed, of 10 14 "\<lambda>b _. b" ?v "''bytes''"]
    by (auto simp: raft_rpc_types_wf(2) nz fresh_labgob_def)
qed

end
