(* ===== verification/GoStrings.thy ===== *)
theory GoStrings
  imports Prelude
begin

text \<open>
  The string functions of Go's library that \<open>mp3/server/server.go\<close> and
  \<open>mp3/client/client.go\<close> use, on ASCII strings: \<open>strings.Fields\<close>,
  \<open>strings.Split\<close> with a one-character separator, \<open>strings.Join\<close>,
  \<open>strings.TrimSpace\<close>, \<open>strconv.ParseInt(s, 10, 64)\<close> (which \<open>Atoi\<close>
  agrees with on a 64-bit machine) and \<open>strconv.FormatInt\<close>.
\<close>

section \<open>Splitting and joining\<close>

definition is_space :: "char \<Rightarrow> bool" where
  "is_space c \<longleftrightarrow> (of_char c :: nat) \<in> {9, 10, 11, 12, 13, 32}"

fun split_by :: "(char \<Rightarrow> bool) \<Rightarrow> string \<Rightarrow> string list" where
  "split_by p [] = [[]]"
| "split_by p (c # cs) =
     (if p c then [] # split_by p cs
      else (case split_by p cs of [] \<Rightarrow> [[c]] | w # ws \<Rightarrow> (c # w) # ws))"

definition Fields :: "string \<Rightarrow> string list" where
  "Fields s = filter (\<lambda>w. w \<noteq> []) (split_by is_space s)"

definition Split :: "string \<Rightarrow> char \<Rightarrow> string list" where
  "Split s sep = split_by (\<lambda>c. c = sep) s"

fun Join :: "string list \<Rightarrow> string \<Rightarrow> string" where
  "Join [] sep = []"
| "Join [w] sep = w"
| "Join (w # ws) sep = w @ sep @ Join ws sep"

definition TrimSpace :: "string \<Rightarrow> string" where
  "TrimSpace s = rev (dropWhile is_space (rev (dropWhile is_space s)))"

definition no_space :: "string \<Rightarrow> bool" where
  "no_space w \<longleftrightarrow> list_all (\<lambda>c. \<not> is_space c) w"

text \<open>A field: what \<open>Fields\<close> returns, a nonempty string without white space.\<close>

definition is_word :: "string \<Rightarrow> bool" where
  "is_word w \<longleftrightarrow> w \<noteq> [] \<and> no_space w"

lemma split_by_nonempty [simp]: "split_by p s \<noteq> []"
  by (cases s) (auto split: list.splits)

lemma split_by_none: "list_all (\<lambda>c. \<not> p c) w \<Longrightarrow> split_by p w = [w]"
  by (induction w) auto

lemma split_by_sep: "list_all (\<lambda>c. \<not> p c) w \<Longrightarrow> p c \<Longrightarrow> split_by p (w @ c # s) = w # split_by p s"
  by (induction w) auto

lemma Split_pair: "sep \<notin> set a \<Longrightarrow> sep \<notin> set b \<Longrightarrow> Split (a @ sep # b) sep = [a, b]"
  unfolding Split_def
  by (subst split_by_sep, force simp: list_all_iff, simp, subst split_by_none, force simp: list_all_iff, simp)

lemma Split_none: "sep \<notin> set a \<Longrightarrow> Split a sep = [a]"
  unfolding Split_def by (subst split_by_none) (auto simp: list_all_iff)

lemma is_space_space [simp]: "is_space CHR '' ''"
  by (simp add: is_space_def)

lemma Fields_Nil [simp]: "Fields [] = []"
  by (simp add: Fields_def)

lemma Fields_word: "is_word w \<Longrightarrow> Fields w = [w]"
  by (simp add: Fields_def is_word_def no_space_def split_by_none)

lemma Fields_cons: "is_word w \<Longrightarrow> Fields (w @ '' '' @ s) = w # Fields s"
  by (simp add: Fields_def is_word_def no_space_def split_by_sep)

lemma Fields_Join: "list_all is_word ws \<Longrightarrow> Fields (Join ws '' '') = ws"
  by (induction ws "'' ''" rule: Join.induct) (simp_all add: Fields_word Fields_cons [simplified])

lemma Join_append: "ws \<noteq> [] \<Longrightarrow> Join (ws @ [w]) sep = Join ws sep @ sep @ w"
proof (induction ws)
  case (Cons x xs)
  then show ?case by (cases xs) auto
qed simp

text \<open>The words a split yields, and that joining undoes a split into nonempty fields.\<close>

lemma Fields_words: "list_all is_word (Fields s)"
proof -
  have "list_all no_space (split_by is_space s)"
    by (induction s) (auto simp: no_space_def split: list.splits)
  then show ?thesis by (auto simp: Fields_def list_all_iff is_word_def)
qed

lemma TrimSpace_word_ends:
  assumes "s \<noteq> []" "\<not> is_space (hd s)" "\<not> is_space (last s)"
  shows "TrimSpace s = s"
proof -
  have "dropWhile is_space s = s" using assms by (cases s) auto
  moreover have "dropWhile is_space (rev s) = rev s"
    using assms by (cases s rule: rev_cases) auto
  ultimately show ?thesis by (simp add: TrimSpace_def)
qed

lemma TrimSpace_newline:
  assumes "s \<noteq> []" "\<not> is_space (hd s)" "\<not> is_space (last s)"
  shows "TrimSpace (s @ [CHR 0x0A]) = s"
proof -
  have "dropWhile is_space (s @ [CHR 0x0A]) = s @ [CHR 0x0A]" using assms by (cases s) auto
  moreover have "is_space CHR 0x0A" by (simp add: is_space_def)
  moreover have "dropWhile is_space (rev s) = rev s"
    using assms by (cases s rule: rev_cases) auto
  ultimately show ?thesis by (simp add: TrimSpace_def)
qed

lemma Join_ends:
  assumes "list_all is_word ws" "ws \<noteq> []"
  shows "Join ws '' '' \<noteq> []" "\<not> is_space (hd (Join ws '' ''))" "\<not> is_space (last (Join ws '' ''))"
proof -
  have h: "is_word w \<Longrightarrow> w \<noteq> [] \<and> \<not> is_space (hd w) \<and> \<not> is_space (last w)" for w
    by (auto simp: is_word_def no_space_def list_all_iff)
  have *: "Join ws '' '' \<noteq> [] \<and> \<not> is_space (hd (Join ws '' '')) \<and> \<not> is_space (last (Join ws '' ''))"
    using assms by (induction ws "'' ''" rule: Join.induct) (auto dest: h)
  then show "Join ws '' '' \<noteq> []" "\<not> is_space (hd (Join ws '' ''))" "\<not> is_space (last (Join ws '' ''))"
    by simp_all
qed

lemma TrimSpace_line:
  "list_all is_word ws \<Longrightarrow> ws \<noteq> [] \<Longrightarrow> TrimSpace (Join ws '' '' @ [CHR 0x0A]) = Join ws '' ''"
  by (intro TrimSpace_newline Join_ends)

lemma split_by_append: "p c \<Longrightarrow> split_by p (a @ c # b) = split_by p a @ split_by p b"
  by (induction a) (auto simp: Cons_eq_append_conv split: list.splits)

lemma Fields_sep: "is_space c \<Longrightarrow> Fields (a @ c # b) = Fields a @ Fields b"
  by (simp add: Fields_def split_by_append)

lemma Fields_TrimSpace: "Fields (TrimSpace s) = Fields s"
proof -
  have front: "Fields (dropWhile is_space s) = Fields s" for s
    using Fields_sep [of _ "[]"] by (induction s) auto
  have trailing: "Fields (s @ t) = Fields s" if "list_all is_space t" for s t
    using that by (induction t arbitrary: s rule: rev_induct) (auto simp: Fields_sep [of _ _ "[]", simplified] append_assoc [symmetric] simp del: append_assoc)
  let ?u = "dropWhile is_space s"
  have "Fields ?u = Fields (rev (dropWhile is_space (rev ?u)) @ rev (takeWhile is_space (rev ?u)))"
    by (metis rev_append rev_rev_ident takeWhile_dropWhile_id)
  also have "\<dots> = Fields (TrimSpace s)"
    unfolding TrimSpace_def by (rule trailing) (auto simp: list_all_iff dest: set_takeWhileD)
  finally show ?thesis using front by simp
qed

section \<open>Decimal numbers\<close>

datatype num_error = ErrSyntax | ErrRange

definition digit_char :: "nat \<Rightarrow> char" where
  "digit_char d = char_of (48 + d)"

definition digit_val :: "char \<Rightarrow> nat option" where
  "digit_val c = (let n = of_char c in if 48 \<le> n \<and> n \<le> 57 then Some (n - 48) else None)"

fun parse_digits :: "nat \<Rightarrow> string \<Rightarrow> nat option" where
  "parse_digits acc [] = Some acc"
| "parse_digits acc (c # cs) =
     (case digit_val c of None \<Rightarrow> None | Some d \<Rightarrow> parse_digits (10 * acc + d) cs)"

definition parse_uint :: "string \<Rightarrow> nat option" where
  "parse_uint s = (if s = [] then None else parse_digits 0 s)"

text \<open>
  The value and the error; like Go's, the value of a range error is the nearest bound and
  that of a syntax error is 0.
\<close>

definition ParseInt :: "string \<Rightarrow> int \<times> num_error option" where
  "ParseInt s =
     (let neg = (case s of c # _ \<Rightarrow> c = CHR ''-'' | [] \<Rightarrow> False);
          body = (case s of c # cs \<Rightarrow> if c = CHR ''-'' \<or> c = CHR ''+'' then cs else s | [] \<Rightarrow> [])
      in case parse_uint body of
           None \<Rightarrow> (0, Some ErrSyntax)
         | Some un \<Rightarrow>
             if \<not> neg \<and> un \<ge> 2 ^ 63 then (2 ^ 63 - 1, Some ErrRange)
             else if neg \<and> un > 2 ^ 63 then (- (2 ^ 63), Some ErrRange)
             else (if neg then - int un else int un, None))"

fun format_uint :: "nat \<Rightarrow> string" where
  "format_uint n = (if n < 10 then [digit_char n] else format_uint (n div 10) @ [digit_char (n mod 10)])"

declare format_uint.simps [simp del]

definition FormatInt :: "int \<Rightarrow> string" where
  "FormatInt x = (if x < 0 then CHR ''-'' # format_uint (nat (- x)) else format_uint (nat x))"

definition int64_range :: "int \<Rightarrow> bool" where
  "int64_range x \<longleftrightarrow> - (2 ^ 63) \<le> x \<and> x < 2 ^ 63"

lemma digit_val_char: "d < 10 \<Longrightarrow> digit_val (digit_char d) = Some d"
  by (simp add: digit_val_def digit_char_def Let_def)

lemma parse_digits_append:
  "parse_digits acc (xs @ ys) =
     (case parse_digits acc xs of None \<Rightarrow> None | Some a \<Rightarrow> parse_digits a ys)"
  by (induction xs arbitrary: acc) (auto split: option.splits)

lemma parse_format_uint: "parse_digits 0 (format_uint n) = Some n"
proof (induction n rule: format_uint.induct)
  case (1 n)
  then show ?case
    by (subst format_uint.simps) (auto simp: digit_val_char parse_digits_append)
qed

lemma format_uint_nonempty [simp]: "format_uint n \<noteq> []"
  by (subst format_uint.simps) simp

definition is_digit :: "char \<Rightarrow> bool" where
  "is_digit c \<longleftrightarrow> digit_val c \<noteq> None"

lemma is_digit_char: "d < 10 \<Longrightarrow> is_digit (digit_char d)"
  by (simp add: is_digit_def digit_val_char)

lemma format_uint_digits: "list_all is_digit (format_uint n)"
proof (induction n rule: format_uint.induct)
  case (1 n)
  then show ?case
    by (subst format_uint.simps) (auto simp: is_digit_char)
qed

lemma is_digit_not: "is_digit c \<Longrightarrow> \<not> is_space c \<and> c \<noteq> CHR ''-'' \<and> c \<noteq> CHR ''+'' \<and> c \<noteq> CHR ''.'' \<and> c \<noteq> CHR '':''"
  by (auto simp: is_digit_def digit_val_def is_space_def Let_def split: if_splits)

lemma format_uint_hd: "is_digit (hd (format_uint n))"
  using format_uint_digits [of n] by (cases "format_uint n") auto

lemma ParseInt_FormatInt: "int64_range x \<Longrightarrow> ParseInt (FormatInt x) = (x, None)"
proof (cases "x < 0")
  case True
  assume "int64_range x"
  with True show ?thesis
    by (simp add: ParseInt_def FormatInt_def parse_uint_def parse_format_uint int64_range_def Let_def)
next
  case False
  assume r: "int64_range x"
  obtain c cs where f: "format_uint (nat x) = c # cs" by (cases "format_uint (nat x)") auto
  then have "c \<noteq> CHR ''-''" "c \<noteq> CHR ''+''"
    using is_digit_not format_uint_hd [of "nat x"] by auto
  with False r f show ?thesis
    using parse_format_uint [of "nat x"]
    by (simp add: ParseInt_def FormatInt_def parse_uint_def int64_range_def Let_def nat_less_iff)
qed

lemma FormatInt_word: "is_word (FormatInt x)"
proof -
  have "no_space (format_uint n)" for n
    using format_uint_digits [of n] by (auto simp: no_space_def list_all_iff dest: is_digit_not)
  then show ?thesis by (auto simp: FormatInt_def is_word_def no_space_def is_space_def)
qed

lemma ParseInt_range: "snd (ParseInt s) = None \<Longrightarrow> int64_range (fst (ParseInt s))"
  by (auto simp: ParseInt_def Let_def int64_range_def split: option.splits if_splits)

lemma FormatInt_inj: "int64_range x \<Longrightarrow> int64_range y \<Longrightarrow> FormatInt x = FormatInt y \<longleftrightarrow> x = y"
  by (metis ParseInt_FormatInt fst_conv)

section \<open>Signed 64-bit amounts\<close>

text \<open>Go's \<open>int\<close> on the target machine: addition and negation wrap around.\<close>

type_synonym int64 = "64 word"

definition Itoa :: "int64 \<Rightarrow> string" where
  "Itoa x = FormatInt (sint x)"

definition Atoi :: "string \<Rightarrow> int64 \<times> num_error option" where
  "Atoi s = (case ParseInt s of (x, err) \<Rightarrow> (word_of_int x, err))"

definition negative :: "int64 \<Rightarrow> bool" where
  "negative x \<longleftrightarrow> sint x < 0"

lemma sint_range: "int64_range (sint (x :: int64))"
  using sint_ge [of x] sint_lt [of x] by (simp add: int64_range_def)

lemma Atoi_Itoa: "Atoi (Itoa x) = (x, None)"
  by (simp add: Atoi_def Itoa_def ParseInt_FormatInt sint_range)

lemma Itoa_word: "is_word (Itoa x)"
  by (simp add: Itoa_def FormatInt_word)

end
