(* ===== verification/BankState.thy ===== *)
theory BankState
  imports GoStrings GoMaps
begin

text \<open>
  \<open>mp3/server/server.go\<close>, the data: the record \<open>Server\<close> of one branch of the bank,
  \<open>Account\<close>, \<open>write_vale\<close>, \<open>Operation\<close> with its parser \<open>Init\<close>, and the
  helpers \<open>FindMax\<close> and \<open>check_inList\<close>. Amounts are Go's 64-bit \<open>int\<close> and wrap around.
\<close>

section \<open>The data of a branch\<close>

record write_vale =
  wv_timestamp :: int
  wv_value :: int64

record Account =
  acc_name :: string
  committedValue :: int64
  committedTimestamp :: int
  amount :: int64
  createdTimestamp :: int

record Operation =
  op_method :: string
  op_branch :: string
  op_account :: string
  op_amount :: int64
  op_timestamp :: int

record IP =
  ip_X :: string
  ip_Y :: string

text \<open>
  A connection is a number; the nil \<open>net.Conn\<close> is \<open>None\<close>. What the branch
  does to the outside is recorded in order: text sent on a connection, a
  connection closed, a line printed.
\<close>

type_synonym Conn = "nat option"

datatype net_event = Sent nat string | Closed nat | Printed string

record Server =
  me :: string
  address :: "(string \<times> string) list"
  port :: "(string \<times> string) list"
  accounts :: "(string \<times> Account) list"
  send_conn :: "(string \<times> nat) list"
  read_conn :: "(string \<times> nat) list"
  TW :: "(string \<times> write_vale list) list"
  RTS :: "(string \<times> int list) list"
  name :: "(IP \<times> string) list"
  commitCount :: "(string \<times> int) list"
  net :: "net_event list"

text \<open>The literal of \<open>main\<close>: every map empty.\<close>

definition new_Server :: "string \<Rightarrow> Server" where
  "new_Server self = \<lparr>me = self, address = [], port = [], accounts = [], send_conn = [],
     read_conn = [], TW = [], RTS = [], name = [], commitCount = [], net = []\<rparr>"

text \<open>The zero \<open>Account\<close> that reading a missing account yields; its mutex is nil.\<close>

definition zero_Account :: Account where
  "zero_Account = \<lparr>acc_name = [], committedValue = 0, committedTimestamp = 0, amount = 0,
     createdTimestamp = 0\<rparr>"

abbreviation account_of :: "Server \<Rightarrow> string \<Rightarrow> Account" where
  "account_of sv \<equiv> get_or zero_Account (accounts sv)"

text \<open>Locking the mutex of an account that is not in the map dereferences nil.\<close>

definition account_mu :: "Server \<Rightarrow> string \<Rightarrow> Account res" where
  "account_mu sv acc = (case map_of (accounts sv) acc of None \<Rightarrow> Inl Nil_dereference | Some a \<Rightarrow> Inr a)"

section \<open>Parsing an operation\<close>

definition zero_Operation :: Operation where
  "zero_Operation = \<lparr>op_method = [], op_branch = [], op_account = [], op_amount = 0, op_timestamp = 0\<rparr>"

definition num_panic :: "num_error \<Rightarrow> go_error" where
  "num_panic err = Panicked (case err of ErrSyntax \<Rightarrow> ''invalid syntax'' | ErrRange \<Rightarrow> ''value out of range'')"

definition checked :: "'a \<times> num_error option \<Rightarrow> 'a res" where
  "checked r = (case r of (x, None) \<Rightarrow> Inr x | (x, Some err) \<Rightarrow> Inl (num_panic err))"

text \<open>\<open>branch.account\<close>, as both switch arms of \<open>Init\<close> take it apart.\<close>

definition Init_target :: "string \<Rightarrow> Operation \<Rightarrow> Operation res" where
  "Init_target w op =
     bind_res (idx (Split w (CHR ''.'')) 0) (\<lambda>b.
     bind_res (idx (Split w (CHR ''.'')) 1) (\<lambda>a.
     Inr (op\<lparr>op_branch := b, op_account := a\<rparr>)))"

definition Init_timestamp :: "string list \<Rightarrow> int \<Rightarrow> Operation \<Rightarrow> Operation res" where
  "Init_timestamp words i op =
     bind_res (idx words i) (\<lambda>w. bind_res (checked (ParseInt w)) (\<lambda>ts. Inr (op\<lparr>op_timestamp := ts\<rparr>)))"

definition Init_amount :: "string list \<Rightarrow> bool \<Rightarrow> Operation \<Rightarrow> Operation res" where
  "Init_amount words neg op =
     bind_res (idx words 2) (\<lambda>w. bind_res (checked (Atoi w)) (\<lambda>am.
       Inr (op\<lparr>op_amount := (if neg then - am else am)\<rparr>)))"

definition Init :: "string \<Rightarrow> Operation \<Rightarrow> Operation res" where
  "Init operation op =
     (let words = Fields operation
      in bind_res (idx words 0) (\<lambda>method.
         let op = op\<lparr>op_method := method\<rparr>
         in if method = ''DEPOSIT'' then
              (if len words \<noteq> 4 then Inl (Panicked ''DEPOSITE missing info'')
               else bind_res (idx words 1) (\<lambda>w. bind_res (Init_target w op) (\<lambda>op.
                    bind_res (Init_amount words False op) (Init_timestamp words 3))))
            else if method = ''WITHDRAW'' then
              (if len words \<noteq> 4 then Inl (Panicked ''WIDTHDRAW missing info'')
               else bind_res (idx words 1) (\<lambda>w. bind_res (Init_target w op) (\<lambda>op.
                    bind_res (Init_amount words True op) (Init_timestamp words 3))))
            else if method = ''BALANCE'' then
              (if len words \<noteq> 3 then Inl (Panicked ''BALANCE missing info'')
               else bind_res (idx words 1) (\<lambda>w. bind_res (Init_target w op) (\<lambda>op.
                    Init_timestamp words 2 op)))
            else if method = ''COMMIT'' then Init_timestamp words 1 op
            else if method = ''ABORT'' then Init_timestamp words 1 op
            else Inl (Panicked ''The operation is not found.'')))"

section \<open>Helpers\<close>

definition FindMax :: "int list \<Rightarrow> int res" where
  "FindMax arr = bind_res (idx arr 0) (\<lambda>max0.
     Inr (foldl (\<lambda>max value. if max < value then value else max) max0 arr))"

fun check_inList :: "string \<Rightarrow> (string \<times> Account) list \<Rightarrow> bool" where
  "check_inList ac [] = False"
| "check_inList ac ((a, _) # m) = (if ac = a then True else check_inList ac m)"

lemma check_inList_iff [simp]: "check_inList ac m \<longleftrightarrow> map_of m ac \<noteq> None"
  by (induction m) auto

lemma FindMax_Max: "arr \<noteq> [] \<Longrightarrow> FindMax arr = Inr (Max (set arr))"
proof -
  have "(\<lambda>value max. if max < value then value else max) = (max :: int \<Rightarrow> int \<Rightarrow> int)"
    by (auto simp: fun_eq_iff max_def)
  then have "foldl (\<lambda>max value. if max < value then value else max) a xs = Max (set (a # xs))"
    for a and xs :: "int list"
    by (simp only: foldl_conv_fold Max.set_eq_fold)
  then show "arr \<noteq> [] \<Longrightarrow> FindMax arr = Inr (Max (set arr))"
    by (cases arr) (simp_all add: FindMax_def idx_def add_pos_nonneg)
qed

lemma account_mu_Inr: "account_mu sv acc = Inr a \<longleftrightarrow> map_of (accounts sv) acc = Some a"
  by (simp add: account_mu_def split: option.splits)

end
