(* ===== verification/BankTxn.thy ===== *)
theory BankTxn
  imports BankState
begin

text \<open>
  \<open>mp3/server/server.go\<close>, the timestamp-ordering operations of one branch:
  \<open>write\<close>, \<open>DoAbort\<close>, \<open>CheckCommit\<close> and \<open>DoCommit\<close>. Each runs
  to its end without interleaving. The index loops are kept as loops; their closed forms
  are lemmas. \<open>DoAbort\<close> can panic and \<open>DoCommit\<close> can fail to return, and both
  are characterised exactly.
\<close>

section \<open>The write rule\<close>

text \<open>The loop that updates the entry of the same timestamp, with its \<open>foundFlag\<close>.\<close>

fun update_entry :: "int \<Rightarrow> int64 \<Rightarrow> write_vale list \<Rightarrow> bool \<times> write_vale list" where
  "update_entry ts am [] = (False, [])"
| "update_entry ts am (w # ws) =
     (if wv_timestamp w = ts then (True, w\<lparr>wv_value := wv_value w + am\<rparr> # ws)
      else (case update_entry ts am ws of (found, ws') \<Rightarrow> (found, w # ws')))"

definition tentative_write :: "int \<Rightarrow> int64 \<Rightarrow> write_vale list \<Rightarrow> write_vale list" where
  "tentative_write ts am xs =
     (case update_entry ts am xs of (found, xs') \<Rightarrow>
        if found then xs' else xs' @ [\<lparr>wv_timestamp = ts, wv_value = am\<rparr>])"

definition new_account :: "Operation \<Rightarrow> Account" where
  "new_account op = \<lparr>acc_name = op_account op, committedValue = 0, committedTimestamp = 0,
     amount = op_amount op, createdTimestamp = op_timestamp op\<rparr>"

definition read_before :: "int \<Rightarrow> int list \<Rightarrow> bool res" where
  "read_before ts reads = (if reads = [] then Inr True else map_res (\<lambda>m. m \<le> ts) (FindMax reads))"

definition write_sv :: "Operation \<Rightarrow> Server \<Rightarrow> (bool \<times> Server) res" where
  "write_sv op sv =
     (let acc = op_account op; ts = op_timestamp op; missing = \<not> check_inList acc (accounts sv)
      in if missing \<and> op_method op = ''WITHDRAW'' then Inr (True, sv)
         else let sv = (if missing \<and> op_method op = ''DEPOSIT''
                        then sv\<lparr>accounts := AList.update acc (new_account op) (accounts sv)\<rparr> else sv)
         in bind_res (account_mu sv acc) (\<lambda>a.
            bind_res (read_before ts (slot (RTS sv) acc)) (\<lambda>after_reads.
            if after_reads \<and> (slot (TW sv) acc = [] \<or> ts > committedTimestamp a)
            then Inr (False, sv\<lparr>TW := AList.update acc
                       (tentative_write ts (op_amount op) (slot (TW sv) acc)) (TW sv)\<rparr>)
            else Inr (True, sv))))"

section \<open>Abort\<close>

text \<open>\<open>append(xs[:i], xs[i+1:]...)\<close>\<close>

definition remove_at :: "nat \<Rightarrow> 'a list \<Rightarrow> 'a list" where
  "remove_at i xs = take i xs @ drop (Suc i) xs"

lemma remove_at_simps [simp]:
  assumes "i < length xs"
  shows "length (remove_at i xs) = length xs - 1" "take i (remove_at i xs) = take i xs"
    "drop i (remove_at i xs) = drop (Suc i) xs"
  using assms by (simp_all add: remove_at_def)

function abort_TW_loop :: "int \<Rightarrow> nat \<Rightarrow> write_vale list \<Rightarrow> write_vale list" where
  "abort_TW_loop ts i xs =
     (if i < length xs then
        (if ts = wv_timestamp (xs ! i) then abort_TW_loop ts i (remove_at i xs)
         else abort_TW_loop ts (Suc i) xs)
      else xs)"
  by pat_completeness auto

termination
  by (relation "measure (\<lambda>(ts, i, xs). length xs - i)") auto

text \<open>The loop over \<open>RTS\<close> is bounded by the number of accounts \<open>n\<close>, not by the slice.\<close>

function abort_RTS_loop :: "int \<Rightarrow> nat \<Rightarrow> nat \<Rightarrow> int list \<Rightarrow> int list res" where
  "abort_RTS_loop ts n i xs =
     (if i < n then
        (if i < length xs then
           (if ts = xs ! i then abort_RTS_loop ts n i (remove_at i xs)
            else abort_RTS_loop ts n (Suc i) xs)
         else Inl Index_out_of_range)
      else Inr xs)"
  by pat_completeness auto

termination
  by (relation "measure (\<lambda>(ts, n, i, xs). (n - i) + length xs)") auto

declare abort_TW_loop.simps [simp del] abort_RTS_loop.simps [simp del]

definition abort_TW :: "int \<Rightarrow> (string \<times> write_vale list) list \<Rightarrow> (string \<times> write_vale list) list res" where
  "abort_TW ts m = for_res (range_keys m) (\<lambda>acc m. case map_of m acc of None \<Rightarrow> Inr m
     | Some xs \<Rightarrow> bind_res (Inr (abort_TW_loop ts 0 xs)) (\<lambda>xs'. Inr (AList.update acc xs' m))) m"

definition abort_RTS :: "int \<Rightarrow> (string \<times> int list) list \<Rightarrow> (string \<times> int list) list res" where
  "abort_RTS ts m = for_res (range_keys m) (\<lambda>acc m'. case map_of m' acc of None \<Rightarrow> Inr m'
     | Some xs \<Rightarrow> bind_res (abort_RTS_loop ts (length m) 0 xs) (\<lambda>xs'. Inr (AList.update acc xs' m'))) m"

definition DoAbort :: "int \<Rightarrow> Server \<Rightarrow> Server res" where
  "DoAbort ts sv =
     bind_res (abort_TW ts (TW sv)) (\<lambda>tw.
     bind_res (abort_RTS ts (RTS sv)) (\<lambda>rts.
     Inr (sv\<lparr>TW := tw, RTS := rts,
             accounts := filter (\<lambda>(_, a). createdTimestamp a \<noteq> ts) (accounts sv)\<rparr>)))"

section \<open>Commit\<close>

definition add_tentative :: "int \<Rightarrow> int64 \<Rightarrow> write_vale list \<Rightarrow> int64" where
  "add_tentative ts Ds xs = foldl (\<lambda>Ds w. if wv_timestamp w \<le> ts then Ds + wv_value w else Ds) Ds xs"

definition has_entry :: "int \<Rightarrow> write_vale list \<Rightarrow> bool" where
  "has_entry ts xs = list_ex (\<lambda>w. wv_timestamp w = ts) xs"

definition TxRelated :: "int \<Rightarrow> Server \<Rightarrow> bool" where
  "TxRelated ts sv = list_ex (\<lambda>(_, xs). has_entry ts xs) (TW sv)"

definition overdrawn :: "int \<Rightarrow> Server \<Rightarrow> bool" where
  "overdrawn ts sv =
     list_ex (\<lambda>(acc, xs). negative (add_tentative ts (committedValue (account_of sv acc)) xs)) (TW sv)"

definition CheckCommit :: "int \<Rightarrow> Server \<Rightarrow> (bool \<times> Server) res" where
  "CheckCommit ts sv =
     (if TxRelated ts sv \<and> overdrawn ts sv then map_res (\<lambda>sv. (False, sv)) (DoAbort ts sv)
      else Inr (True, sv))"

text \<open>An entry newer than \<open>ts\<close> is neither removed nor stepped over.\<close>

partial_function (option) commit_loop ::
    "int \<Rightarrow> int64 \<Rightarrow> bool \<Rightarrow> nat \<Rightarrow> write_vale list \<Rightarrow> (int64 \<times> bool \<times> write_vale list) option" where
  "commit_loop ts Ds flag i xs =
     (if i < length xs then
        (if wv_timestamp (xs ! i) \<le> ts then
           (if wv_timestamp (xs ! i) = ts
            then commit_loop ts (Ds + wv_value (xs ! i)) True i (remove_at i xs)
            else commit_loop ts (Ds + wv_value (xs ! i)) flag (Suc i) xs)
         else commit_loop ts Ds flag i xs)
      else Some (Ds, flag, xs))"

definition commit_account :: "int \<Rightarrow> string \<Rightarrow> Server \<Rightarrow> Server go" where
  "commit_account ts acc sv =
     (case commit_loop ts (committedValue (account_of sv acc)) False 0 (slot (TW sv) acc) of
        None \<Rightarrow> None
      | Some (Ds, flag, xs) \<Rightarrow>
          let sv = sv\<lparr>TW := AList.update acc xs (TW sv)\<rparr>
          in if flag then
               bind_go (Some (account_mu sv acc)) (\<lambda>a.
                 return_go (sv\<lparr>accounts := AList.update acc
                   (a\<lparr>committedValue := Ds, committedTimestamp := ts\<rparr>) (accounts sv)\<rparr>))
             else return_go sv)"

definition account_info :: "(string \<times> Account) list \<Rightarrow> string" where
  "account_info m = foldl (\<lambda>s (acc, a). if 0 <s committedValue a
      then s @ acc @ '' '' @ Itoa (committedValue a) else s) ''Accounts Info: '' m"

definition DoCommit :: "int \<Rightarrow> Server \<Rightarrow> Server go" where
  "DoCommit ts sv =
     bind_go (for_go (range_keys (TW sv)) (commit_account ts) sv) (\<lambda>sv.
       return_go (sv\<lparr>net := net sv @ [Printed (account_info (accounts sv))]\<rparr>))"

section \<open>The loops in closed form\<close>

lemma abort_TW_loop_eq:
  "i \<le> length xs \<Longrightarrow> abort_TW_loop ts i xs = take i xs @ filter (\<lambda>w. wv_timestamp w \<noteq> ts) (drop i xs)"
proof (induction ts i xs rule: abort_TW_loop.induct)
  case (1 ts i xs)
  show ?case
  proof (cases "i < length xs")
    case True
    have d: "drop i xs = xs ! i # drop (Suc i) xs" using True by (simp add: Cons_nth_drop_Suc)
    show ?thesis
    proof (cases "ts = wv_timestamp (xs ! i)")
      case eq: True
      have "abort_TW_loop ts i (remove_at i xs) = take i xs @ filter (\<lambda>w. wv_timestamp w \<noteq> ts) (drop (Suc i) xs)"
        using 1(1) [OF True eq] True by simp
      with eq True d show ?thesis by (subst abort_TW_loop.simps) simp
    next
      case neq: False
      have "abort_TW_loop ts (Suc i) xs = take (Suc i) xs @ filter (\<lambda>w. wv_timestamp w \<noteq> ts) (drop (Suc i) xs)"
        using 1(2) [OF True neq] True by simp
      with neq True d show ?thesis by (subst abort_TW_loop.simps) (auto simp: take_Suc_conv_app_nth)
    qed
  qed (use 1(3) in \<open>subst abort_TW_loop.simps, simp\<close>)
qed

lemma abort_TW_loop_filter: "abort_TW_loop ts 0 xs = filter (\<lambda>w. wv_timestamp w \<noteq> ts) xs"
  by (simp add: abort_TW_loop_eq)

text \<open>What the bounded loop removes: the occurrences of \<open>ts\<close> before the \<open>n\<close>th survivor.\<close>

fun prune :: "nat \<Rightarrow> int \<Rightarrow> int list \<Rightarrow> int list" where
  "prune 0 ts xs = xs"
| "prune (Suc n) ts [] = []"
| "prune (Suc n) ts (x # xs) = (if x = ts then prune (Suc n) ts xs else x # prune n ts xs)"

definition survivors :: "int \<Rightarrow> int list \<Rightarrow> nat" where
  "survivors ts xs = length (filter (\<lambda>x. x \<noteq> ts) xs)"

lemma abort_RTS_loop_eq:
  "i \<le> length xs \<Longrightarrow> abort_RTS_loop ts n i xs =
     (if n - i \<le> survivors ts (drop i xs) then Inr (take i xs @ prune (n - i) ts (drop i xs))
      else Inl Index_out_of_range)"
proof (induction ts n i xs rule: abort_RTS_loop.induct)
  case (1 ts n i xs)
  show ?case
  proof (cases "i < n \<and> i < length xs")
    case True
    then have i: "i < n" "i < length xs" by auto
    then have d: "drop i xs = xs ! i # drop (Suc i) xs" by (simp add: Cons_nth_drop_Suc)
    from i obtain k where k: "n - i = Suc k" "n - Suc i = k"
      by (metis Suc_diff_Suc)
    show ?thesis
    proof (cases "ts = xs ! i")
      case eq: True
      have "abort_RTS_loop ts n i (remove_at i xs) =
        (if n - i \<le> survivors ts (drop (Suc i) xs) then Inr (take i xs @ prune (n - i) ts (drop (Suc i) xs))
         else Inl Index_out_of_range)"
        using 1(1) i eq by simp
      with eq True d k show ?thesis by (subst abort_RTS_loop.simps) (simp add: survivors_def)
    next
      case neq: False
      have "abort_RTS_loop ts n (Suc i) xs =
        (if k \<le> survivors ts (drop (Suc i) xs) then Inr (take (Suc i) xs @ prune k ts (drop (Suc i) xs))
         else Inl Index_out_of_range)"
        using 1(2) i neq k by simp
      with neq True d k show ?thesis
        by (subst abort_RTS_loop.simps) (auto simp: survivors_def take_Suc_conv_app_nth)
    qed
  next
    case False
    show ?thesis
    proof (cases "i < n")
      case True
      with False 1(3) have "drop i xs = []" by simp
      with True False show ?thesis by (subst abort_RTS_loop.simps) (simp add: survivors_def)
    qed (subst abort_RTS_loop.simps, simp)
  qed
qed

lemma prune_none: "ts \<notin> set xs \<Longrightarrow> prune n ts xs = xs"
  by (induction n ts xs rule: prune.induct) auto

lemma prune_all: "survivors ts xs \<le> n \<Longrightarrow> filter (\<lambda>x. x \<noteq> ts) (prune n ts xs) = filter (\<lambda>x. x \<noteq> ts) xs"
  by (induction n ts xs rule: prune.induct) (auto simp: survivors_def)

lemma prune_survivors: "filter (\<lambda>x. x \<noteq> ts) (prune n ts xs) = filter (\<lambda>x. x \<noteq> ts) xs"
  by (induction n ts xs rule: prune.induct) auto

lemma set_prune: "set (prune n ts xs) \<subseteq> set xs"
  by (induction n ts xs rule: prune.induct) auto

text \<open>The commit loop returns exactly when no entry is newer than the transaction.\<close>

definition no_newer :: "int \<Rightarrow> write_vale list \<Rightarrow> bool" where
  "no_newer ts xs \<longleftrightarrow> list_all (\<lambda>w. wv_timestamp w \<le> ts) xs"

lemma add_tentative_simps [simp]:
  "add_tentative ts Ds [] = Ds"
  "add_tentative ts Ds (w # ws) =
     add_tentative ts (if wv_timestamp w \<le> ts then Ds + wv_value w else Ds) ws"
  by (simp_all add: add_tentative_def)

lemma has_entry_simps [simp]:
  "\<not> has_entry ts []"
  "has_entry ts (w # ws) \<longleftrightarrow> wv_timestamp w = ts \<or> has_entry ts ws"
  by (simp_all add: has_entry_def)

lemma has_entry_iff: "has_entry ts xs \<longleftrightarrow> ts \<in> wv_timestamp ` set xs"
  by (induction xs) auto

lemma commit_loop_returns:
  assumes "i \<le> length xs" "no_newer ts (drop i xs)"
  shows "commit_loop ts Ds flag i xs =
    Some (add_tentative ts Ds (drop i xs), flag \<or> has_entry ts (drop i xs),
          take i xs @ filter (\<lambda>w. wv_timestamp w \<noteq> ts) (drop i xs))"
  using assms
proof (induction "length xs - i" arbitrary: i xs Ds flag)
  case 0
  then show ?case by (subst commit_loop.simps) simp
next
  case (Suc k)
  then have i: "i < length xs" by simp
  then have d: "drop i xs = xs ! i # drop (Suc i) xs" by (simp add: Cons_nth_drop_Suc)
  then have le: "wv_timestamp (xs ! i) \<le> ts" and rest: "no_newer ts (drop (Suc i) xs)"
    using Suc.prems by (simp_all add: no_newer_def)
  show ?case
  proof (cases "wv_timestamp (xs ! i) = ts")
    case True
    have "commit_loop ts (Ds + wv_value (xs ! i)) True i (remove_at i xs) =
      Some (add_tentative ts (Ds + wv_value (xs ! i)) (drop (Suc i) xs), True,
            take i xs @ filter (\<lambda>w. wv_timestamp w \<noteq> ts) (drop (Suc i) xs))"
      using Suc.hyps(1) [of "remove_at i xs" i] Suc.hyps(2) i rest by simp
    with True i d show ?thesis by (subst commit_loop.simps) simp
  next
    case False
    have "commit_loop ts (Ds + wv_value (xs ! i)) flag (Suc i) xs =
      Some (add_tentative ts (Ds + wv_value (xs ! i)) (drop (Suc i) xs), flag \<or> has_entry ts (drop (Suc i) xs),
            take (Suc i) xs @ filter (\<lambda>w. wv_timestamp w \<noteq> ts) (drop (Suc i) xs))"
      using Suc.hyps(1) [of xs "Suc i"] Suc.hyps(2) i rest by simp
    with False i d le show ?thesis
      by (subst commit_loop.simps) (simp add: take_Suc_conv_app_nth)
  qed
qed

lemma commit_loop_no_newer:
  assumes "commit_loop ts Ds flag i xs = Some r"
  shows "i \<le> length xs \<longrightarrow> no_newer ts (drop i xs)"
proof (rule commit_loop.raw_induct [where P = "\<lambda>ts _ _ i xs _. i \<le> length xs \<longrightarrow> no_newer ts (drop i xs)", OF _ assms])
  fix self :: "int \<Rightarrow> int64 \<Rightarrow> bool \<Rightarrow> nat \<Rightarrow> write_vale list \<Rightarrow> (int64 \<times> bool \<times> write_vale list) option"
    and ts Ds flag i xs r
  assume IH: "\<And>ts Ds flag i xs r. self ts Ds flag i xs = Some r \<Longrightarrow> i \<le> length xs \<longrightarrow> no_newer ts (drop i xs)"
    and step: "(if i < length xs then
        (if wv_timestamp (xs ! i) \<le> ts then
           (if wv_timestamp (xs ! i) = ts then self ts (Ds + wv_value (xs ! i)) True i (remove_at i xs)
            else self ts (Ds + wv_value (xs ! i)) flag (Suc i) xs)
         else self ts Ds flag i xs)
      else Some (Ds, flag, xs)) = Some r"
  show "i \<le> length xs \<longrightarrow> no_newer ts (drop i xs)"
  proof (cases "i < length xs")
    case True
    then have d: "drop i xs = xs ! i # drop (Suc i) xs" by (simp add: Cons_nth_drop_Suc)
    from step True consider
        (own) "wv_timestamp (xs ! i) = ts" "self ts (Ds + wv_value (xs ! i)) True i (remove_at i xs) = Some r"
      | (older) "wv_timestamp (xs ! i) \<le> ts" "self ts (Ds + wv_value (xs ! i)) flag (Suc i) xs = Some r"
      | (newer) "self ts Ds flag i xs = Some r"
      by (auto split: if_splits)
    then show ?thesis
    proof cases
      case own
      then show ?thesis using IH [OF own(2)] True d by (simp add: no_newer_def)
    next
      case older
      then show ?thesis using IH [OF older(2)] True d by (simp add: no_newer_def)
    qed (use IH in blast)
  qed (simp add: no_newer_def)
qed

lemma commit_loop_eq:
  "commit_loop ts Ds False 0 xs =
     (if no_newer ts xs
      then Some (add_tentative ts Ds xs, has_entry ts xs, filter (\<lambda>w. wv_timestamp w \<noteq> ts) xs)
      else None)"
  using commit_loop_returns [of 0 xs ts Ds False] commit_loop_no_newer [of ts Ds False 0 xs]
  by (cases "commit_loop ts Ds False 0 xs") auto

end
