(* ===== verification/BankLemmas.thy ===== *)
theory BankLemmas
  imports BankTxn
begin

text \<open>
  What the operations of \<open>BankTxn\<close> do to a branch: the well-formedness invariant
  \<open>bank_ok\<close> and its preservation, and for each operation when it returns and how it
  changes the tentative writes, the read timestamps and the accounts.
\<close>

section \<open>The invariant of a branch\<close>

definition stamps :: "write_vale list \<Rightarrow> int list" where
  "stamps xs = map wv_timestamp xs"

definition bank_ok :: "Server \<Rightarrow> bool" where
  "bank_ok sv \<longleftrightarrow>
     distinct (range_keys (accounts sv)) \<and> distinct (range_keys (TW sv)) \<and> distinct (range_keys (RTS sv)) \<and>
     (\<forall>acc. distinct (stamps (slot (TW sv) acc))) \<and>
     (\<forall>acc a. map_of (accounts sv) acc = Some a \<longrightarrow> acc_name a = acc)"

lemma bank_okD:
  assumes "bank_ok sv"
  shows "distinct (range_keys (accounts sv))" "distinct (range_keys (TW sv))"
    "distinct (range_keys (RTS sv))" "distinct (stamps (slot (TW sv) acc))"
    "map_of (accounts sv) acc = Some a \<Longrightarrow> acc_name a = acc"
  using assms unfolding bank_ok_def by blast+

lemma bank_ok_new: "bank_ok (new_Server self)"
  by (simp add: bank_ok_def new_Server_def range_keys_def stamps_def)

lemma bank_ok_frame:
  "accounts sv' = accounts sv \<Longrightarrow> TW sv' = TW sv \<Longrightarrow> RTS sv' = RTS sv \<Longrightarrow> bank_ok sv' \<longleftrightarrow> bank_ok sv"
  by (simp add: bank_ok_def)

lemma range_keys_update:
  "distinct (range_keys m) \<Longrightarrow> distinct (range_keys (AList.update k v m))"
  by (simp add: range_keys_def AList.distinct_update)

lemma slot_mem: "(acc, xs) \<in> set m \<Longrightarrow> distinct (range_keys m) \<Longrightarrow> slot m acc = xs"
  by (simp add: get_or_def range_keys_def)

lemma mem_slot: "acc \<in> set (range_keys m) \<Longrightarrow> (acc, slot m acc) \<in> set m"
  using assoc.keys_lookup [of acc m] by (auto simp: get_or_Some dest: map_of_SomeD)

lemma absent_slot: "acc \<notin> set (range_keys m) \<Longrightarrow> slot m acc = []"
  using assoc.keys_lookup [of acc m] by (simp add: get_or_def)

lemma has_entry_filter [simp]: "\<not> has_entry ts (filter (\<lambda>w. wv_timestamp w \<noteq> ts) xs)"
  by (auto simp: has_entry_iff)

lemma has_entry_filter_other:
  "ts' \<noteq> ts \<Longrightarrow> has_entry ts' (filter (\<lambda>w. wv_timestamp w \<noteq> ts) xs) \<longleftrightarrow> has_entry ts' xs"
  by (auto simp: has_entry_iff)

section \<open>Tentative writes\<close>

text \<open>The tentative amount of a transaction on an account.\<close>

definition tentative_of :: "int \<Rightarrow> write_vale list \<Rightarrow> int64" where
  "tentative_of ts xs = sum_list (map wv_value (filter (\<lambda>w. wv_timestamp w = ts) xs))"

lemma update_entry_found: "fst (update_entry ts am xs) \<longleftrightarrow> has_entry ts xs"
  by (induction xs) (auto split: prod.splits)

lemma update_entry_stamps: "stamps (snd (update_entry ts am xs)) = stamps xs"
  by (induction xs) (auto simp: stamps_def split: prod.splits)

lemma update_entry_others:
  "filter (\<lambda>w. wv_timestamp w \<noteq> ts) (snd (update_entry ts am xs)) = filter (\<lambda>w. wv_timestamp w \<noteq> ts) xs"
  by (induction xs) (auto split: prod.splits)

lemma update_entry_own:
  "has_entry ts xs \<Longrightarrow> tentative_of ts (snd (update_entry ts am xs)) = tentative_of ts xs + am"
  by (induction xs) (auto simp: tentative_of_def split: prod.splits)

lemma update_entry_none: "\<not> has_entry ts xs \<Longrightarrow> snd (update_entry ts am xs) = xs"
  by (induction xs) (auto split: prod.splits)

lemma tentative_of_none: "\<not> has_entry ts xs \<Longrightarrow> tentative_of ts xs = 0"
  by (induction xs) (auto simp: tentative_of_def)

lemma set_stamps: "set (stamps xs) = wv_timestamp ` set xs"
  by (simp add: stamps_def)

lemma tentative_write_stamps:
  "stamps (tentative_write ts am xs) = (if has_entry ts xs then stamps xs else stamps xs @ [ts])"
  using update_entry_found [of ts am xs] update_entry_stamps [of ts am xs]
  by (auto simp: tentative_write_def stamps_def split: prod.splits)

lemma tentative_write_distinct:
  "distinct (stamps xs) \<Longrightarrow> distinct (stamps (tentative_write ts am xs))"
  by (simp add: tentative_write_stamps has_entry_iff set_stamps)

lemma tentative_write_others:
  "filter (\<lambda>w. wv_timestamp w \<noteq> ts) (tentative_write ts am xs) = filter (\<lambda>w. wv_timestamp w \<noteq> ts) xs"
  using update_entry_others [of ts am xs] by (auto simp: tentative_write_def split: prod.splits)

lemma tentative_write_own: "tentative_of ts (tentative_write ts am xs) = tentative_of ts xs + am"
proof (cases "has_entry ts xs")
  case True
  then show ?thesis
    using update_entry_own [OF True, of am] update_entry_found [of ts am xs]
    by (auto simp: tentative_write_def split: prod.splits)
next
  case False
  then have "tentative_write ts am xs = xs @ [\<lparr>wv_timestamp = ts, wv_value = am\<rparr>]"
    using update_entry_none [OF False, of am] update_entry_found [of ts am xs]
    by (auto simp: tentative_write_def split: prod.splits)
  then show ?thesis by (simp add: tentative_of_def)
qed

lemma tentative_write_has [simp]: "has_entry ts (tentative_write ts am xs)"
  using arg_cong [OF tentative_write_stamps, of set ts am xs]
  by (simp add: set_stamps has_entry_iff split: if_splits)

lemma tentative_write_has_other:
  "ts' \<noteq> ts \<Longrightarrow> has_entry ts' (tentative_write ts am xs) \<longleftrightarrow> has_entry ts' xs"
  using tentative_write_others [of ts am xs] has_entry_filter_other by metis

lemma add_tentative_sum:
  "add_tentative ts v xs = v + sum_list (map wv_value (filter (\<lambda>w. wv_timestamp w \<le> ts) xs))"
  by (induction xs arbitrary: v) (auto simp: add_ac)

section \<open>The write rule\<close>

text \<open>The condition under which the code performs a tentative write.\<close>

definition write_allowed :: "Operation \<Rightarrow> Server \<Rightarrow> bool" where
  "write_allowed op sv \<longleftrightarrow>
     (op_method op = ''DEPOSIT'' \<or> map_of (accounts sv) (op_account op) \<noteq> None) \<and>
     (\<forall>t\<in>set (slot (RTS sv) (op_account op)). t \<le> op_timestamp op) \<and>
     (slot (TW sv) (op_account op) = [] \<or>
      committedTimestamp (get_or (new_account op) (accounts sv) (op_account op)) < op_timestamp op)"

lemma read_before_iff: "read_before ts xs = Inr (\<forall>t\<in>set xs. t \<le> ts)"
  by (cases "xs = []") (simp_all add: read_before_def FindMax_Max)

definition with_account :: "Operation \<Rightarrow> Server \<Rightarrow> Server" where
  "with_account op sv = (if map_of (accounts sv) (op_account op) = None
     then sv\<lparr>accounts := AList.update (op_account op) (new_account op) (accounts sv)\<rparr> else sv)"

lemma write_deposit:
  assumes "op_method op = ''DEPOSIT''"
  shows "write_sv op sv =
    (if write_allowed op sv
     then Inr (False, (with_account op sv)\<lparr>TW := AList.update (op_account op)
            (tentative_write (op_timestamp op) (op_amount op) (slot (TW sv) (op_account op))) (TW sv)\<rparr>)
     else Inr (True, with_account op sv))"
  using assms
  by (cases "map_of (accounts sv) (op_account op)")
     (auto simp: write_sv_def Let_def with_account_def write_allowed_def account_mu_def read_before_iff
        AList.update_conv' get_or_def)

lemma write_withdraw:
  assumes "op_method op = ''WITHDRAW''"
  shows "write_sv op sv =
    (if write_allowed op sv
     then Inr (False, sv\<lparr>TW := AList.update (op_account op)
            (tentative_write (op_timestamp op) (op_amount op) (slot (TW sv) (op_account op))) (TW sv)\<rparr>)
     else Inr (True, sv))"
  using assms
  by (cases "map_of (accounts sv) (op_account op)")
     (auto simp: write_sv_def Let_def write_allowed_def account_mu_def read_before_iff get_or_def)

lemma with_account_fields [simp]:
  "TW (with_account op sv) = TW sv" "RTS (with_account op sv) = RTS sv" "net (with_account op sv) = net sv"
  "committedValue (account_of (with_account op sv) acc) = committedValue (account_of sv acc)"
  by (simp_all add: with_account_def get_or_def AList.update_conv' new_account_def zero_Account_def
      split: option.splits)

lemma bank_ok_with_account: "bank_ok sv \<Longrightarrow> bank_ok (with_account op sv)"
  by (auto simp: bank_ok_def with_account_def range_keys_update AList.update_conv' new_account_def)

lemma bank_ok_TW_update:
  "bank_ok sv \<Longrightarrow> distinct (stamps xs) \<Longrightarrow> bank_ok (sv\<lparr>TW := AList.update acc xs (TW sv)\<rparr>)"
  by (simp add: bank_ok_def range_keys_update)

definition is_write :: "Operation \<Rightarrow> bool" where
  "is_write op \<longleftrightarrow> op_method op = ''DEPOSIT'' \<or> op_method op = ''WITHDRAW''"

lemma write_ok:
  assumes "bank_ok sv" "is_write op"
  shows "\<exists>abort sv'. write_sv op sv = Inr (abort, sv') \<and> bank_ok sv'"
  using assms
  by (auto simp: is_write_def write_deposit write_withdraw intro!: bank_ok_TW_update bank_ok_with_account
      tentative_write_distinct [OF bank_okD(4)]
      intro: bank_ok_TW_update [where sv = "with_account op sv", simplified])

section \<open>Abort\<close>

lemma abort_TW_sweep: "abort_TW ts m = assoc.sweep (\<lambda>_ xs. Inr (abort_TW_loop ts 0 xs)) (range_keys m) m"
  by (simp add: abort_TW_def assoc.sweep_def)

lemma abort_RTS_sweep:
  "abort_RTS ts m = assoc.sweep (\<lambda>_ xs. abort_RTS_loop ts (length m) 0 xs) (range_keys m) m"
  by (simp add: abort_RTS_def assoc.sweep_def)

text \<open>The slices on which the loop over \<open>RTS\<close> stays in range.\<close>

definition prunable :: "int \<Rightarrow> (string \<times> int list) list \<Rightarrow> bool" where
  "prunable ts m \<longleftrightarrow> list_all (\<lambda>(_, xs). length m \<le> survivors ts xs) m"

lemma abort_TW_result:
  assumes "distinct (range_keys m)"
  obtains m' where "abort_TW ts m = Inr m'" "range_keys m' = range_keys m"
    "\<And>acc. slot m' acc = filter (\<lambda>w. wv_timestamp w \<noteq> ts) (slot m acc)"
proof -
  have "ok (abort_TW ts m)"
    unfolding abort_TW_sweep assoc.sweep_ok [OF assms] by simp
  then obtain m' where m': "abort_TW ts m = Inr m'" by (auto simp: ok_iff)
  have "slot m' acc = filter (\<lambda>w. wv_timestamp w \<noteq> ts) (slot m acc)" for acc
    using assoc.sweep_lookup [OF m' [unfolded abort_TW_sweep] assms, of acc] assoc.keys_lookup [of acc m]
    by (auto simp: get_or_def abort_TW_loop_filter split: option.splits)
  with m' assoc.sweep_keys [OF m' [unfolded abort_TW_sweep]] that show ?thesis by blast
qed

lemma abort_RTS_ok:
  assumes "distinct (range_keys m)"
  shows "ok (abort_RTS ts m) \<longleftrightarrow> prunable ts m"
proof -
  have "ok (abort_RTS ts m) \<longleftrightarrow> (\<forall>k\<in>set (range_keys m). \<forall>xs. map_of m k = Some xs \<longrightarrow> length m \<le> survivors ts xs)"
    unfolding abort_RTS_sweep assoc.sweep_ok [OF assms] by (auto simp: abort_RTS_loop_eq)
  also have "\<dots> \<longleftrightarrow> prunable ts m"
    using assms by (force simp: prunable_def list_all_iff range_keys_def dest: map_of_SomeD)
  finally show ?thesis .
qed

lemma abort_RTS_result:
  assumes "distinct (range_keys m)" "abort_RTS ts m = Inr m'"
  shows "range_keys m' = range_keys m" "slot m' acc = prune (length m) ts (slot m acc)"
proof -
  show "range_keys m' = range_keys m"
    using assoc.sweep_keys [OF assms(2) [unfolded abort_RTS_sweep]] .
  have "prune n ts [] = []" for n by (cases n) auto
  moreover have "ok (abort_RTS ts m)" using assms(2) by simp
  ultimately show "slot m' acc = prune (length m) ts (slot m acc)"
    using assoc.sweep_lookup [OF assms(2) [unfolded abort_RTS_sweep] assms(1), of acc]
      assoc.keys_lookup [of acc m] abort_RTS_ok [OF assms(1), of ts] map_of_SomeD [of m acc]
    by (auto simp: get_or_def abort_RTS_loop_eq prunable_def list_all_iff split: option.splits)
qed

lemma DoAbort_ok:
  assumes "bank_ok sv"
  shows "ok (DoAbort ts sv) \<longleftrightarrow> prunable ts (RTS sv)"
proof -
  obtain tw where "abort_TW ts (TW sv) = Inr tw" using abort_TW_result [OF bank_okD(2) [OF assms]] .
  then have "ok (DoAbort ts sv) \<longleftrightarrow> ok (abort_RTS ts (RTS sv))"
    by (auto simp: DoAbort_def ok_iff bind_res_Inr)
  then show ?thesis using abort_RTS_ok [OF bank_okD(3) [OF assms]] by simp
qed

lemma map_of_filter_value:
  "distinct (range_keys m) \<Longrightarrow>
   map_of (filter (\<lambda>(_, v). P v) m) k = (case map_of m k of None \<Rightarrow> None | Some v \<Rightarrow> if P v then Some v else None)"
proof (induction m)
  case (Cons x m)
  obtain k' v where x: "x = (k', v)" by (cases x)
  then have "k' \<notin> fst ` set m" using Cons.prems by (simp add: range_keys_def)
  then have "map_of m k' = None" "map_of (filter (\<lambda>(_, v). P v) m) k' = None"
    by (auto simp: map_of_eq_None_iff)
  with Cons x show ?case by (auto simp: range_keys_def)
qed simp

lemma DoAbort_result:
  assumes inv: "bank_ok sv" and "DoAbort ts sv = Inr sv'"
  shows "slot (TW sv') acc = filter (\<lambda>w. wv_timestamp w \<noteq> ts) (slot (TW sv) acc)"
    and "slot (RTS sv') acc = prune (length (RTS sv)) ts (slot (RTS sv) acc)"
    and "map_of (accounts sv') acc = (case map_of (accounts sv) acc of None \<Rightarrow> None
           | Some a \<Rightarrow> if createdTimestamp a \<noteq> ts then Some a else None)"
    and "range_keys (TW sv') = range_keys (TW sv)"
    and "sv' = sv\<lparr>TW := TW sv', RTS := RTS sv', accounts := accounts sv'\<rparr>"
    and "bank_ok sv'"
proof -
  obtain tw where tw: "abort_TW ts (TW sv) = Inr tw" "range_keys tw = range_keys (TW sv)"
    "\<And>acc. slot tw acc = filter (\<lambda>w. wv_timestamp w \<noteq> ts) (slot (TW sv) acc)"
    using abort_TW_result [OF bank_okD(2) [OF inv]] by metis
  from assms(2) tw(1) obtain rts where rts: "abort_RTS ts (RTS sv) = Inr rts"
    and sv': "sv' = sv\<lparr>TW := tw, RTS := rts,
             accounts := filter (\<lambda>(_, a). createdTimestamp a \<noteq> ts) (accounts sv)\<rparr>"
    by (auto simp: DoAbort_def bind_res_Inr)
  note r = abort_RTS_result [OF bank_okD(3) [OF inv] rts]
  show "slot (TW sv') acc = filter (\<lambda>w. wv_timestamp w \<noteq> ts) (slot (TW sv) acc)"
    "range_keys (TW sv') = range_keys (TW sv)"
    "slot (RTS sv') acc = prune (length (RTS sv)) ts (slot (RTS sv) acc)"
    "sv' = sv\<lparr>TW := TW sv', RTS := RTS sv', accounts := accounts sv'\<rparr>"
    using tw r by (simp_all add: sv')
  show acc: "map_of (accounts sv') acc = (case map_of (accounts sv) acc of None \<Rightarrow> None
           | Some a \<Rightarrow> if createdTimestamp a \<noteq> ts then Some a else None)" for acc
    by (simp add: sv' map_of_filter_value [OF bank_okD(1) [OF inv]])
  have "distinct (range_keys (accounts sv'))"
    using bank_okD(1) [OF inv] by (simp add: sv' range_keys_def distinct_map_filter)
  moreover have "distinct (stamps (slot tw a))" for a
    using bank_okD(4) [OF inv, of a] by (simp add: tw stamps_def distinct_map_filter)
  moreover have "map_of (accounts sv') n = Some a \<Longrightarrow> acc_name a = n" for n a
    using bank_okD(5) [OF inv, of n a] acc [of n] by (auto split: option.splits if_splits)
  ultimately show "bank_ok sv'"
    using tw r bank_okD(2,3) [OF inv] by (simp add: bank_ok_def sv')
qed

lemma DoAbort_keys:
  assumes inv: "bank_ok sv" and "DoAbort ts sv = Inr sv'"
  shows "range_keys (RTS sv') = range_keys (RTS sv)"
  using assms(2) abort_RTS_result(1) [OF bank_okD(3) [OF inv]] by (auto simp: DoAbort_def bind_res_Inr)

section \<open>Commit\<close>

lemma TxRelated_iff: "bank_ok sv \<Longrightarrow> TxRelated ts sv \<longleftrightarrow> (\<exists>acc. has_entry ts (slot (TW sv) acc))"
proof -
  assume inv: "bank_ok sv"
  have "TxRelated ts sv \<longleftrightarrow> (\<exists>(acc, xs)\<in>set (TW sv). has_entry ts xs)"
    by (auto simp: TxRelated_def list_ex_iff)
  also have "\<dots> \<longleftrightarrow> (\<exists>acc. has_entry ts (slot (TW sv) acc))"
    using slot_mem [OF _ bank_okD(2) [OF inv]] mem_slot [of _ "TW sv"] absent_slot [of _ "TW sv"]
    by (force simp: has_entry_def)
  finally show ?thesis .
qed

text \<open>The balance an account would have after the commit of \<open>ts\<close>.\<close>

definition balance_after :: "int \<Rightarrow> Server \<Rightarrow> string \<Rightarrow> int64" where
  "balance_after ts sv acc = add_tentative ts (committedValue (account_of sv acc)) (slot (TW sv) acc)"

lemma overdrawn_iff:
  "bank_ok sv \<Longrightarrow> overdrawn ts sv \<longleftrightarrow> (\<exists>acc\<in>set (range_keys (TW sv)). negative (balance_after ts sv acc))"
proof -
  assume inv: "bank_ok sv"
  have "overdrawn ts sv \<longleftrightarrow> (\<exists>(acc, xs)\<in>set (TW sv). negative (add_tentative ts (committedValue (account_of sv acc)) xs))"
    by (auto simp: overdrawn_def list_ex_iff)
  also have "\<dots> \<longleftrightarrow> (\<exists>acc\<in>set (range_keys (TW sv)). negative (balance_after ts sv acc))"
    using slot_mem [OF _ bank_okD(2) [OF inv]] mem_slot [of _ "TW sv"]
    by (force simp: balance_after_def range_keys_def)
  finally show ?thesis .
qed

text \<open>
  An account of \<open>TW\<close> on which the commit of \<open>ts\<close> goes through, and the account it leaves.
\<close>

definition committable :: "int \<Rightarrow> Server \<Rightarrow> string \<Rightarrow> bool" where
  "committable ts sv acc \<longleftrightarrow>
     no_newer ts (slot (TW sv) acc) \<and>
     (has_entry ts (slot (TW sv) acc) \<longrightarrow> map_of (accounts sv) acc \<noteq> None)"

definition committed_account :: "int \<Rightarrow> Server \<Rightarrow> string \<Rightarrow> Account option" where
  "committed_account ts sv acc =
     (if has_entry ts (slot (TW sv) acc)
      then map_option (\<lambda>a. a\<lparr>committedValue := balance_after ts sv acc, committedTimestamp := ts\<rparr>)
             (map_of (accounts sv) acc)
      else map_of (accounts sv) acc)"

definition commit_one :: "int \<Rightarrow> string \<Rightarrow> Server \<Rightarrow> Server" where
  "commit_one ts acc sv = sv\<lparr>
     TW := AList.update acc (filter (\<lambda>w. wv_timestamp w \<noteq> ts) (slot (TW sv) acc)) (TW sv),
     accounts := (case committed_account ts sv acc of
        Some a \<Rightarrow> if has_entry ts (slot (TW sv) acc) then AList.update acc a (accounts sv) else accounts sv
      | None \<Rightarrow> accounts sv)\<rparr>"

lemma commit_account_eq:
  "committable ts sv acc \<Longrightarrow> commit_account ts acc sv = Some (Inr (commit_one ts acc sv))"
  by (auto simp: commit_account_def commit_loop_eq committable_def commit_one_def committed_account_def
      Let_def account_mu_def return_go_def balance_after_def get_or_def split: option.splits)

lemma commit_account_fails:
  "\<not> committable ts sv acc \<Longrightarrow> commit_account ts acc sv \<in> {None, Some (Inl Nil_dereference)}"
  by (auto simp: commit_account_def commit_loop_eq committable_def Let_def account_mu_def split: option.splits)

lemma commit_one_slot:
  "slot (TW (commit_one ts acc sv)) k =
     (if k = acc then filter (\<lambda>w. wv_timestamp w \<noteq> ts) (slot (TW sv) k) else slot (TW sv) k)"
  by (simp add: commit_one_def)

lemma commit_one_account:
  "map_of (accounts (commit_one ts acc sv)) k =
     (if k = acc then committed_account ts sv k else map_of (accounts sv) k)"
  by (auto simp: commit_one_def committed_account_def AList.update_conv' split: option.splits)

lemma commit_one_keys:
  "acc \<in> set (range_keys (TW sv)) \<Longrightarrow> range_keys (TW (commit_one ts acc sv)) = range_keys (TW sv)"
  "range_keys (accounts (commit_one ts acc sv)) = range_keys (accounts sv)"
  using assoc.keys_lookup [of acc "TW sv"]
  by (auto simp: commit_one_def assoc.keys_assign committed_account_def split: option.splits)

lemma commit_one_frame_trans:
  "sv' = (commit_one ts acc sv)\<lparr>TW := tw, accounts := ac\<rparr> \<Longrightarrow>
   sv' = sv\<lparr>TW := TW sv', accounts := accounts sv'\<rparr>"
  by (simp add: commit_one_def)

lemma commit_one_other:
  assumes "k \<noteq> acc"
  shows "committable ts (commit_one ts acc sv) k \<longleftrightarrow> committable ts sv k"
    "committed_account ts (commit_one ts acc sv) k = committed_account ts sv k"
  using assms
  by (simp_all add: committable_def committed_account_def commit_one_slot commit_one_account balance_after_def get_or_def
      [of zero_Account])

lemma commit_all:
  assumes "distinct ks" "set ks \<subseteq> set (range_keys (TW sv))"
  shows "if \<forall>acc\<in>set ks. committable ts sv acc
    then \<exists>sv'. for_go ks (commit_account ts) sv = Some (Inr sv') \<and>
      (\<forall>k. slot (TW sv') k = (if k \<in> set ks then filter (\<lambda>w. wv_timestamp w \<noteq> ts) (slot (TW sv) k) else slot (TW sv) k)) \<and>
      (\<forall>k. map_of (accounts sv') k = (if k \<in> set ks then committed_account ts sv k else map_of (accounts sv) k)) \<and>
      range_keys (TW sv') = range_keys (TW sv) \<and> range_keys (accounts sv') = range_keys (accounts sv) \<and>
      sv' = sv\<lparr>TW := TW sv', accounts := accounts sv'\<rparr>
    else for_go ks (commit_account ts) sv \<in> {None, Some (Inl Nil_dereference)}"
  using assms
proof (induction ks arbitrary: sv)
  case Nil
  then show ?case by (simp add: return_go_def)
next
  case (Cons acc ks)
  show ?case
  proof (cases "committable ts sv acc")
    case False
    then show ?thesis using commit_account_fails [OF False] by auto
  next
    case True
    let ?s = "commit_one ts acc sv"
    have eq: "for_go (acc # ks) (commit_account ts) sv = for_go ks (commit_account ts) ?s"
      by (simp add: commit_account_eq [OF True])
    have sub: "distinct ks" "set ks \<subseteq> set (range_keys (TW ?s))" "acc \<notin> set ks"
      using Cons.prems by (auto simp: commit_one_keys)
    then have all: "(\<forall>k\<in>set (acc # ks). committable ts sv k) \<longleftrightarrow> (\<forall>k\<in>set ks. committable ts ?s k)"
      using True commit_one_other(1) by (metis set_ConsD list.set_intros)
    show ?thesis
    proof (cases "\<forall>k\<in>set ks. committable ts ?s k")
      case True
      with Cons.IH [OF sub(1,2)] obtain sv' where s: "for_go ks (commit_account ts) ?s = Some (Inr sv')"
        "\<And>k. slot (TW sv') k = (if k \<in> set ks then filter (\<lambda>w. wv_timestamp w \<noteq> ts) (slot (TW ?s) k) else slot (TW ?s) k)"
        "\<And>k. map_of (accounts sv') k = (if k \<in> set ks then committed_account ts ?s k else map_of (accounts ?s) k)"
        "range_keys (TW sv') = range_keys (TW ?s)" "range_keys (accounts sv') = range_keys (accounts ?s)"
        "sv' = ?s\<lparr>TW := TW sv', accounts := accounts sv'\<rparr>" by auto
      have "slot (TW sv') k = (if k \<in> set (acc # ks) then filter (\<lambda>w. wv_timestamp w \<noteq> ts) (slot (TW sv) k) else slot (TW sv) k)" for k
        using sub(3) by (auto simp: s(2) commit_one_slot)
      moreover have "map_of (accounts sv') k = (if k \<in> set (acc # ks) then committed_account ts sv k else map_of (accounts sv) k)" for k
        using sub(3) commit_one_other(2) [of k acc ts sv] by (cases "k = acc") (auto simp: s(3) commit_one_account)
      moreover have "sv' = sv\<lparr>TW := TW sv', accounts := accounts sv'\<rparr>"
        using commit_one_frame_trans [OF s(6)] .
      ultimately show ?thesis
        using True all s(1,4,5) Cons.prems by (auto simp: eq commit_one_keys simp del: for_go.simps)
    next
      case False
      with Cons.IH [OF sub(1,2)] all show ?thesis by (auto simp: eq simp del: for_go.simps)
    qed
  qed
qed

text \<open>When \<open>DoCommit\<close> returns, and what it leaves.\<close>

lemma absent_committable: "acc \<notin> set (range_keys (TW sv)) \<Longrightarrow> committable ts sv acc"
  by (simp add: committable_def absent_slot no_newer_def)

lemma DoCommit_fails:
  assumes "bank_ok sv" "\<not> committable ts sv acc"
  shows "DoCommit ts sv \<in> {None, Some (Inl Nil_dereference)}"
  using commit_all [of "range_keys (TW sv)" sv ts] bank_okD(2) [OF assms(1)] assms(2) absent_committable
  by (auto simp: DoCommit_def split: if_splits)

lemma DoCommit_result:
  assumes inv: "bank_ok sv" and com: "\<And>acc. committable ts sv acc"
  obtains sv' where "DoCommit ts sv = Some (Inr sv')"
    "\<And>acc. slot (TW sv') acc = filter (\<lambda>w. wv_timestamp w \<noteq> ts) (slot (TW sv) acc)"
    "\<And>acc. map_of (accounts sv') acc = committed_account ts sv acc"
    "RTS sv' = RTS sv" "send_conn sv' = send_conn sv" "read_conn sv' = read_conn sv"
    "name sv' = name sv" "me sv' = me sv" "commitCount sv' = commitCount sv"
    "net sv' = net sv @ [Printed (account_info (accounts sv'))]" "bank_ok sv'"
proof -
  obtain s where s: "for_go (range_keys (TW sv)) (commit_account ts) sv = Some (Inr s)"
    "\<And>k. slot (TW s) k = (if k \<in> set (range_keys (TW sv)) then filter (\<lambda>w. wv_timestamp w \<noteq> ts) (slot (TW sv) k)
       else slot (TW sv) k)"
    "\<And>k. map_of (accounts s) k = (if k \<in> set (range_keys (TW sv)) then committed_account ts sv k
       else map_of (accounts sv) k)"
    "range_keys (TW s) = range_keys (TW sv)" "range_keys (accounts s) = range_keys (accounts sv)"
    "s = sv\<lparr>TW := TW s, accounts := accounts s\<rparr>"
    using commit_all [of "range_keys (TW sv)" sv ts] com bank_okD(2) [OF inv] by auto
  define sv' where "sv' = s\<lparr>net := net s @ [Printed (account_info (accounts s))]\<rparr>"
  have slots: "slot (TW s) k = filter (\<lambda>w. wv_timestamp w \<noteq> ts) (slot (TW sv) k)" for k
    by (simp add: s(2) absent_slot)
  have accs: "map_of (accounts s) k = committed_account ts sv k" for k
    by (simp add: s(3) absent_slot committed_account_def)
  have "acc_name a = k" if "map_of (accounts s) k = Some a" for k a
    using that bank_okD(5) [OF inv, of k] by (auto simp: accs committed_account_def split: if_splits)
  moreover have "distinct (stamps (slot (TW s) k))" for k
    using bank_okD(4) [OF inv, of k] by (simp add: slots stamps_def distinct_map_filter)
  moreover have fields: "RTS s = RTS sv" "send_conn s = send_conn sv" "read_conn s = read_conn sv"
    "name s = name sv" "me s = me sv" "commitCount s = commitCount sv" "net s = net sv"
    by (subst s(6), simp)+
  ultimately have "bank_ok sv'"
    using bank_okD(1-3) [OF inv] s(4,5) by (simp add: bank_ok_def sv'_def)
  then show ?thesis
    using that [of sv'] s(1) slots accs fields by (simp add: sv'_def DoCommit_def return_go_def)
qed

lemma DoCommit_returns_iff:
  "bank_ok sv \<Longrightarrow> (\<exists>sv'. DoCommit ts sv = Some (Inr sv')) \<longleftrightarrow> (\<forall>acc. committable ts sv acc)"
  by (metis DoCommit_fails DoCommit_result Inl_Inr_False empty_iff insert_iff option.distinct(1) option.inject)

lemma CheckCommit_cases:
  assumes "bank_ok sv"
  shows "CheckCommit ts sv =
    (if (\<exists>acc. has_entry ts (slot (TW sv) acc)) \<and> (\<exists>acc\<in>set (range_keys (TW sv)). negative (balance_after ts sv acc))
     then map_res (\<lambda>sv. (False, sv)) (DoAbort ts sv) else Inr (True, sv))"
  by (simp add: CheckCommit_def TxRelated_iff [OF assms] overdrawn_iff [OF assms])

text \<open>What \<open>CheckCommit\<close> checked, \<open>DoCommit\<close> in the same state installs.\<close>

definition balances :: "Server \<Rightarrow> string \<Rightarrow> int64" where
  "balances sv acc = committedValue (account_of sv acc)"

lemma DoCommit_balances:
  assumes "bank_ok sv" "DoCommit ts sv = Some (Inr sv')"
  shows "balances sv' acc = (if has_entry ts (slot (TW sv) acc) then balance_after ts sv acc else balances sv acc)"
proof -
  have com: "\<And>acc. committable ts sv acc" using DoCommit_returns_iff [OF assms(1)] assms(2) by blast
  then have "map_of (accounts sv') acc = committed_account ts sv acc"
    using DoCommit_result [OF assms(1) com] assms(2) by (metis option.inject sum.inject(2))
  then show ?thesis
    using com [of acc]
    by (auto simp: balances_def get_or_def committed_account_def committable_def zero_Account_def split: option.splits)
qed

lemma DoCommit_state:
  assumes "bank_ok sv" "DoCommit ts sv = Some (Inr sv')"
  shows "bank_ok sv'" "slot (TW sv') acc = filter (\<lambda>w. wv_timestamp w \<noteq> ts) (slot (TW sv) acc)"
    "map_of (accounts sv') acc = committed_account ts sv acc" "RTS sv' = RTS sv"
    "send_conn sv' = send_conn sv" "read_conn sv' = read_conn sv" "name sv' = name sv" "me sv' = me sv"
    "commitCount sv' = commitCount sv" "net sv' = net sv @ [Printed (account_info (accounts sv'))]"
proof -
  have com: "\<And>acc. committable ts sv acc" using DoCommit_returns_iff [OF assms(1)] assms(2) by blast
  obtain s where "DoCommit ts sv = Some (Inr s)"
    "\<And>acc. slot (TW s) acc = filter (\<lambda>w. wv_timestamp w \<noteq> ts) (slot (TW sv) acc)"
    "\<And>acc. map_of (accounts s) acc = committed_account ts sv acc"
    "RTS s = RTS sv" "send_conn s = send_conn sv" "read_conn s = read_conn sv" "name s = name sv" "me s = me sv"
    "commitCount s = commitCount sv" "net s = net sv @ [Printed (account_info (accounts s))]" "bank_ok s"
    using DoCommit_result [OF assms(1) com] by metis
  with assms(2) show "bank_ok sv'" "slot (TW sv') acc = filter (\<lambda>w. wv_timestamp w \<noteq> ts) (slot (TW sv) acc)"
    "map_of (accounts sv') acc = committed_account ts sv acc" "RTS sv' = RTS sv"
    "send_conn sv' = send_conn sv" "read_conn sv' = read_conn sv" "name sv' = name sv" "me sv' = me sv"
    "commitCount sv' = commitCount sv" "net sv' = net sv @ [Printed (account_info (accounts sv'))]"
    by simp_all
qed

end
