(* ===== verification/BankRead.thy ===== *)
theory BankRead
  imports BankLemmas
begin

text \<open>
  \<open>mp3/server/server.go\<close>, \<open>read\<close>: the read rule, the loop that waits for the
  writer of a tentative version, and the recursion that reapplies the rule. While a read
  waits, other goroutines run: \<open>env t\<close> is the branch as the read finds it the \<open>t\<close>th
  time it looks (each time it takes \<open>mu_TW\<close>), and the theorems hold for every
  \<open>env\<close>. A read that never returns is \<open>None\<close>.
\<close>

section \<open>The read rule\<close>

datatype read_outcome = Read_value int64 Server | Read_abort | Read_wait int

definition read_scan :: "int \<Rightarrow> write_vale list \<Rightarrow> int64 \<Rightarrow> int \<Rightarrow> int64 \<times> int \<times> bool" where
  "read_scan ts xs Ds0 TS0 =
     foldl (\<lambda>(Ds, TS, committed) w.
       if wv_timestamp w \<le> ts
       then (Ds + wv_value w, if wv_timestamp w > TS then wv_timestamp w else TS, False)
       else (Ds, TS, committed)) (Ds0, TS0, True) xs"

definition read_rule :: "Operation \<Rightarrow> Server \<Rightarrow> read_outcome" where
  "read_rule op sv =
     (let acc = op_account op; ts = op_timestamp op; a = account_of sv acc
      in if \<not> check_inList acc (accounts sv) then Read_abort
         else if ts > committedTimestamp a then
           (case read_scan ts (slot (TW sv) acc) (committedValue a) (committedTimestamp a) of
              (Ds, TS, committed) \<Rightarrow>
                if committed
                then Read_value Ds (sv\<lparr>RTS := AList.update acc (slot (RTS sv) acc @ [ts]) (RTS sv)\<rparr>)
                else if ts = TS then Read_value Ds sv
                else Read_wait TS)
         else Read_abort)"

section \<open>Waiting\<close>

text \<open>\<open>flag\<close> is set to true once, before the loop.\<close>

partial_function (option) wait_loop :: "(nat \<Rightarrow> Server) \<Rightarrow> string \<Rightarrow> int \<Rightarrow> bool \<Rightarrow> nat \<Rightarrow> nat option" where
  "wait_loop env acc TS flag t =
     (if flag \<and> \<not> has_entry TS (slot (TW (env t)) acc) then Some t
      else wait_loop env acc TS False (Suc t))"

partial_function (option) read_sv :: "(nat \<Rightarrow> Server) \<Rightarrow> Operation \<Rightarrow> nat \<Rightarrow> (int64 \<times> bool \<times> Server) option" where
  "read_sv env op t =
     (case read_rule op (env t) of
        Read_value v sv \<Rightarrow> Some (v, False, sv)
      | Read_abort \<Rightarrow> Some (0, True, env t)
      | Read_wait TS \<Rightarrow>
          Option.bind (wait_loop env (op_account op) TS True (Suc t)) (\<lambda>t'. read_sv env op (Suc t')))"

lemma wait_loop_stuck: "wait_loop env acc TS False t = None"
proof -
  have "flag" if "wait_loop env acc TS flag t = Some r" for flag r
  proof (rule wait_loop.raw_induct [where P = "\<lambda>_ _ _ flag _ _. flag", OF _ that])
    fix self :: "(nat \<Rightarrow> Server) \<Rightarrow> string \<Rightarrow> int \<Rightarrow> bool \<Rightarrow> nat \<Rightarrow> nat option" and env acc TS flag t r
    assume "\<And>env acc TS flag t r. self env acc TS flag t = Some r \<Longrightarrow> flag"
      and "(if flag \<and> \<not> has_entry TS (slot (TW (env t)) acc) then Some t else self env acc TS False (Suc t)) = Some r"
    then show flag by (metis (full_types))
  qed
  then show ?thesis by (metis not_None_eq)
qed

lemma wait_loop_eq:
  "wait_loop env acc TS True t = (if has_entry TS (slot (TW (env t)) acc) then None else Some t)"
  by (subst wait_loop.simps) (simp add: wait_loop_stuck)

lemma read_sv_wait:
  "read_rule op (env t) = Read_wait TS \<Longrightarrow>
   read_sv env op t = (if has_entry TS (slot (TW (env (Suc t))) (op_account op)) then None
                       else read_sv env op (Suc (Suc t)))"
  by (subst read_sv.simps) (simp add: wait_loop_eq)

lemma read_sv_now:
  "read_rule op (env t) = Read_value v sv \<Longrightarrow> read_sv env op t = Some (v, False, sv)"
  "read_rule op (env t) = Read_abort \<Longrightarrow> read_sv env op t = Some (0, True, env t)"
  by (subst read_sv.simps, simp)+

text \<open>In a branch that nobody else changes, a read that has to wait never returns.\<close>

lemma read_sv_alone_wait:
  assumes "read_rule op sv = Read_wait TS"
  shows "read_sv (\<lambda>_. sv) op t = None"
proof -
  have "env = (\<lambda>_. sv) \<longrightarrow> op' = op \<longrightarrow> False" if "read_sv env op' t = Some r" for env op' t r
  proof (rule read_sv.raw_induct [where P = "\<lambda>env op' _ _. env = (\<lambda>_. sv) \<longrightarrow> op' = op \<longrightarrow> False", OF _ that])
    fix self env op1 t r
    assume IH: "\<And>env op1 t r. self env op1 t = Some r \<Longrightarrow> env = (\<lambda>_. sv) \<longrightarrow> op1 = op \<longrightarrow> False"
      and step: "(case read_rule op1 (env t) of Read_value v sv \<Rightarrow> Some (v, False, sv)
        | Read_abort \<Rightarrow> Some (0, True, env t)
        | Read_wait TS \<Rightarrow> Option.bind (wait_loop env (op_account op1) TS True (Suc t)) (\<lambda>t'. self env op1 (Suc t'))) = Some r"
    show "env = (\<lambda>_. sv) \<longrightarrow> op1 = op \<longrightarrow> False"
      using step assms by (cases r) (auto simp: bind_eq_Some_conv dest: IH)
  qed
  then show ?thesis by (metis not_None_eq)
qed

section \<open>What a read returns\<close>

definition older_entries :: "int \<Rightarrow> write_vale list \<Rightarrow> write_vale list" where
  "older_entries ts xs = filter (\<lambda>w. wv_timestamp w \<le> ts) xs"

lemma read_scan_eq:
  "read_scan ts xs Ds TS =
     (add_tentative ts Ds xs, Max (insert TS (wv_timestamp ` set (older_entries ts xs))), older_entries ts xs = [])"
proof -
  have "foldl (\<lambda>(Ds, TS, committed) w. if wv_timestamp w \<le> ts
       then (Ds + wv_value w, if wv_timestamp w > TS then wv_timestamp w else TS, False)
       else (Ds, TS, committed)) (Ds, TS, c) xs =
     (add_tentative ts Ds xs, Max (insert TS (wv_timestamp ` set (older_entries ts xs))), c \<and> older_entries ts xs = [])"
    for c
  proof (induction xs arbitrary: Ds TS c)
    case (Cons w xs)
    let ?S = "wv_timestamp ` set (older_entries ts xs)"
    have "Max (insert (max TS (wv_timestamp w)) ?S) = Max (insert TS (insert (wv_timestamp w) ?S))"
      by (cases "?S = {}") (simp_all add: max.assoc)
    then show ?case by (auto simp: Cons older_entries_def max_def)
  qed (simp add: older_entries_def)
  then show ?thesis by (simp add: read_scan_def)
qed

text \<open>A read of the committed version is recorded and rejects every older write.\<close>

lemma read_rule_committed:
  assumes "map_of (accounts sv) (op_account op) = Some a" "committedTimestamp a < op_timestamp op"
    "older_entries (op_timestamp op) (slot (TW sv) (op_account op)) = []"
  shows "read_rule op sv = Read_value (committedValue a)
    (sv\<lparr>RTS := AList.update (op_account op) (slot (RTS sv) (op_account op) @ [op_timestamp op]) (RTS sv)\<rparr>)"
proof -
  have "add_tentative ts v xs = v" if "older_entries ts xs = []" for ts v xs
    using that by (simp add: add_tentative_sum older_entries_def)
  then show ?thesis using assms by (simp add: read_rule_def Let_def get_or_def read_scan_eq)
qed

lemma read_rule_cases:
  assumes "map_of (accounts sv) (op_account op) = Some a" "committedTimestamp a < op_timestamp op"
    "older_entries (op_timestamp op) (slot (TW sv) (op_account op)) \<noteq> []"
  shows "read_rule op sv =
    (if op_timestamp op = Max (insert (committedTimestamp a)
          (wv_timestamp ` set (older_entries (op_timestamp op) (slot (TW sv) (op_account op)))))
     then Read_value (balance_after (op_timestamp op) sv (op_account op)) sv
     else Read_wait (Max (insert (committedTimestamp a)
          (wv_timestamp ` set (older_entries (op_timestamp op) (slot (TW sv) (op_account op)))))))"
  using assms by (simp add: read_rule_def Let_def get_or_def read_scan_eq balance_after_def)

lemma read_rule_own:
  assumes "map_of (accounts sv) (op_account op) = Some a" "committedTimestamp a < op_timestamp op"
    "has_entry (op_timestamp op) (slot (TW sv) (op_account op))"
  shows "read_rule op sv = Read_value (balance_after (op_timestamp op) sv (op_account op)) sv"
proof -
  let ?ts = "op_timestamp op"
  let ?S = "insert (committedTimestamp a) (wv_timestamp ` set (older_entries ?ts (slot (TW sv) (op_account op))))"
  have "?ts \<in> ?S" using assms(3) by (auto simp: has_entry_iff older_entries_def)
  moreover have "\<forall>t\<in>?S. t \<le> ?ts" using assms(2) by (auto simp: older_entries_def)
  ultimately have "Max ?S = ?ts" by (intro Max_eqI) auto
  moreover have "older_entries ?ts (slot (TW sv) (op_account op)) \<noteq> []"
    using assms(3) by (auto simp: has_entry_iff older_entries_def filter_empty_conv)
  ultimately show ?thesis using read_rule_cases [OF assms(1,2)] by simp
qed

lemma read_rule_abort:
  "read_rule op sv = Read_abort \<longleftrightarrow>
     (case map_of (accounts sv) (op_account op) of None \<Rightarrow> True
      | Some a \<Rightarrow> op_timestamp op \<le> committedTimestamp a)"
  by (auto simp: read_rule_def Let_def get_or_def split: option.splits prod.splits)

lemma read_rule_bank_ok: "bank_ok sv \<Longrightarrow> read_rule op sv = Read_value v sv' \<Longrightarrow> bank_ok sv'"
  by (auto simp: read_rule_def Let_def bank_ok_def range_keys_update split: if_splits prod.splits)

lemma read_sv_alone:
  "read_sv (\<lambda>_. sv) op t = (case read_rule op sv of
     Read_value v s \<Rightarrow> Some (v, False, s) | Read_abort \<Rightarrow> Some (0, True, sv) | Read_wait _ \<Rightarrow> None)"
  by (cases "read_rule op sv") (simp_all add: read_sv_now read_sv_alone_wait)

lemma read_rule_RTS: "read_rule op sv = Read_value v sv' \<Longrightarrow> sv' = sv\<lparr>RTS := RTS sv'\<rparr>"
  by (auto simp: read_rule_def Let_def split: if_splits prod.splits)

end
