(* ===== verification/BankAtomicity.thy ===== *)
theory BankAtomicity
  imports BankRead
begin

text \<open>
  A transaction as a client drives it on one branch: its deposits and withdrawals, then
  either \<open>CheckCommit\<close> and \<open>DoCommit\<close>, or \<open>DoAbort\<close>. Run while no other
  transaction has tentative writes, it refines a step of an abstract bank, a total map
  from accounts to balances: all of its effects or none.
\<close>

section \<open>The abstract bank\<close>

type_synonym bank = "string \<Rightarrow> int64"

definition post :: "bank \<Rightarrow> Operation \<Rightarrow> bank" where
  "post b op = b(op_account op := b (op_account op) + op_amount op)"

definition posted :: "Operation list \<Rightarrow> bank \<Rightarrow> bank" where
  "posted ops b = foldl post b ops"

definition delta :: "string \<Rightarrow> Operation list \<Rightarrow> int64" where
  "delta acc ops = sum_list (map op_amount (filter (\<lambda>op. op_account op = acc) ops))"

lemma posted_delta: "posted ops b acc = b acc + delta acc ops"
  by (induction ops arbitrary: b) (auto simp: posted_def post_def delta_def add_ac)

section \<open>The transaction on a branch\<close>

fun write_all :: "Operation list \<Rightarrow> Server \<Rightarrow> (bool \<times> Server) res" where
  "write_all [] sv = Inr (False, sv)"
| "write_all (op # ops) sv =
     bind_res (write_sv op sv) (\<lambda>(abort, sv). if abort then Inr (True, sv) else write_all ops sv)"

text \<open>
  As \<open>handleOperation\<close> composes them: an aborting write or a failed check is followed by
  \<open>DoAbort\<close>. The result says whether the transaction committed.
\<close>

definition transaction :: "int \<Rightarrow> Operation list \<Rightarrow> Server \<Rightarrow> (bool \<times> Server) go" where
  "transaction ts ops sv =
     bind_go (Some (write_all ops sv)) (\<lambda>(abort, sv).
       if abort then Some (map_res (Pair False) (DoAbort ts sv))
       else bind_go (Some (CheckCommit ts sv)) (\<lambda>(can, sv).
         if can then bind_go (DoCommit ts sv) (\<lambda>sv. return_go (True, sv))
         else Some (map_res (Pair False) (DoAbort ts sv))))"

text \<open>All its writes are accepted and it passes the check.\<close>

definition passes :: "int \<Rightarrow> Operation list \<Rightarrow> Server \<Rightarrow> bool" where
  "passes ts ops sv \<longleftrightarrow>
     (\<exists>sv1 sv2. write_all ops sv = Inr (False, sv1) \<and> CheckCommit ts sv1 = Inr (True, sv2))"

definition quiescent :: "Server \<Rightarrow> bool" where
  "quiescent sv \<longleftrightarrow> (\<forall>acc. slot (TW sv) acc = [])"

definition only_of :: "int \<Rightarrow> Server \<Rightarrow> bool" where
  "only_of ts sv \<longleftrightarrow> (\<forall>acc. filter (\<lambda>w. wv_timestamp w \<noteq> ts) (slot (TW sv) acc) = [])"

text \<open>A transaction: writes of one timestamp, which no account or read of the branch has yet.\<close>

definition transaction_ops :: "int \<Rightarrow> Operation list \<Rightarrow> bool" where
  "transaction_ops ts ops \<longleftrightarrow> list_all (\<lambda>op. is_write op \<and> op_timestamp op = ts) ops"

definition fresh_stamp :: "int \<Rightarrow> Server \<Rightarrow> bool" where
  "fresh_stamp ts sv \<longleftrightarrow>
     (\<forall>acc a. map_of (accounts sv) acc = Some a \<longrightarrow> createdTimestamp a \<noteq> ts) \<and>
     (\<forall>acc. ts \<notin> set (slot (RTS sv) acc))"

section \<open>Invariant of the writing phase\<close>

definition written :: "int \<Rightarrow> Operation list \<Rightarrow> Server \<Rightarrow> Server \<Rightarrow> bool" where
  "written ts ops sv0 sv \<longleftrightarrow>
     bank_ok sv \<and> only_of ts sv \<and> balances sv = balances sv0 \<and>
     range_keys (RTS sv) = range_keys (RTS sv0) \<and> (\<forall>acc. slot (RTS sv) acc = slot (RTS sv0) acc) \<and>
     (\<forall>acc. tentative_of ts (slot (TW sv) acc) = delta acc ops) \<and>
     (\<forall>acc. has_entry ts (slot (TW sv) acc) \<longleftrightarrow> acc \<in> op_account ` set ops) \<and>
     (\<forall>acc. acc \<in> op_account ` set ops \<longrightarrow> map_of (accounts sv) acc \<noteq> None) \<and>
     (\<forall>acc. map_of (accounts sv) acc = map_of (accounts sv0) acc \<or>
        (map_of (accounts sv0) acc = None \<and> createdTimestamp (account_of sv acc) = ts))"

lemma writtenD:
  assumes "written ts ops sv0 sv"
  shows "bank_ok sv" "only_of ts sv"
    "range_keys (RTS sv) = range_keys (RTS sv0) \<and> (\<forall>acc. slot (RTS sv) acc = slot (RTS sv0) acc)"
    "balances sv = balances sv0"
    "tentative_of ts (slot (TW sv) acc) = delta acc ops"
    "has_entry ts (slot (TW sv) acc) \<longleftrightarrow> acc \<in> op_account ` set ops"
    "acc \<in> op_account ` set ops \<Longrightarrow> map_of (accounts sv) acc \<noteq> None"
    "map_of (accounts sv) acc = map_of (accounts sv0) acc \<or>
       (map_of (accounts sv0) acc = None \<and> createdTimestamp (account_of sv acc) = ts)"
  using assms unfolding written_def by blast+

lemma balances_TW [simp]: "balances (sv\<lparr>TW := tw\<rparr>) = balances sv"
  by (simp add: balances_def fun_eq_iff)

lemma written_nil:
  assumes "bank_ok sv" "quiescent sv"
  shows "written ts [] sv sv"
  using assms by (simp add: written_def quiescent_def only_of_def tentative_of_def delta_def)

lemma written_account:
  assumes "written ts ops sv0 sv" "op_timestamp op = ts"
  shows "written ts ops sv0 (with_account op sv)"
proof -
  note w = writtenD [OF assms(1)]
  have "balances (with_account op sv) = balances sv0"
    using w(4) by (simp add: balances_def fun_eq_iff)
  moreover have "map_of (accounts (with_account op sv)) acc = map_of (accounts sv0) acc \<or>
      (map_of (accounts sv0) acc = None \<and> createdTimestamp (account_of (with_account op sv) acc) = ts)" for acc
    using w(8) [of acc] assms(2)
    by (auto simp: with_account_def AList.update_conv' get_or_def new_account_def split: if_splits)
  moreover have "acc \<in> op_account ` set ops \<Longrightarrow> map_of (accounts (with_account op sv)) acc \<noteq> None" for acc
    using w(7) [of acc] by (auto simp: with_account_def AList.update_conv')
  ultimately show ?thesis
    using w(1-3,5,6) by (simp add: written_def bank_ok_with_account only_of_def)
qed

lemma written_write:
  assumes "written ts ops sv0 sv" "op_timestamp op = ts" "map_of (accounts sv) (op_account op) \<noteq> None"
  shows "written ts (ops @ [op]) sv0 (sv\<lparr>TW := AList.update (op_account op)
    (tentative_write ts (op_amount op) (slot (TW sv) (op_account op))) (TW sv)\<rparr>)"
proof -
  note w = writtenD [OF assms(1)]
  have only: "filter (\<lambda>w. wv_timestamp w \<noteq> ts) (slot (TW sv) acc) = []" for acc
    using w(2) by (simp add: only_of_def)
  have delta: "delta acc (ops @ [op]) = delta acc ops + (if op_account op = acc then op_amount op else 0)" for acc
    by (simp add: delta_def)
  show ?thesis
    unfolding written_def
    using w(1,3,4,7,8) assms(3)
    by (auto simp: bank_ok_TW_update tentative_write_distinct [OF bank_okD(4) [OF w(1)]] only_of_def
        tentative_write_others only delta tentative_write_own w(5,6))
qed

text \<open>One write: it either extends the writing phase or asks for the abort.\<close>

lemma written_step:
  assumes w: "written ts ops sv0 sv" and op: "is_write op" "op_timestamp op = ts"
  shows "\<exists>abort sv'. write_sv op sv = Inr (abort, sv') \<and>
    (if abort then written ts ops sv0 sv' else written ts (ops @ [op]) sv0 sv')"
proof -
  from op(1) consider (dep) "op_method op = ''DEPOSIT''" | (wd) "op_method op = ''WITHDRAW''"
    by (auto simp: is_write_def)
  then show ?thesis
  proof cases
    case dep
    have "map_of (accounts (with_account op sv)) (op_account op) \<noteq> None"
      by (simp add: with_account_def AList.update_conv')
    with written_write [OF written_account [OF w op(2)] op(2)] written_account [OF w op(2)] op(2)
    show ?thesis by (auto simp: write_deposit [OF dep])
  next
    case wd
    have "write_allowed op sv \<Longrightarrow> map_of (accounts sv) (op_account op) \<noteq> None"
      using wd by (simp add: write_allowed_def)
    with written_write [OF w op(2)] w op(2) show ?thesis by (auto simp: write_withdraw [OF wd])
  qed
qed

lemma written_all:
  assumes "written ts done sv0 sv" "transaction_ops ts ops"
  shows "\<exists>abort sv' done'. write_all ops sv = Inr (abort, sv') \<and> written ts done' sv0 sv' \<and>
    (\<not> abort \<longrightarrow> done' = done @ ops)"
  using assms
proof (induction ops arbitrary: sv "done")
  case (Cons op ops)
  then obtain abort sv' where s: "write_sv op sv = Inr (abort, sv')"
    "if abort then written ts done sv0 sv' else written ts (done @ [op]) sv0 sv'"
    using written_step [of ts "done" sv0 sv op] by (auto simp: transaction_ops_def)
  show ?case
  proof (cases abort)
    case False
    then show ?thesis using s Cons.IH [of "done @ [op]" sv'] Cons.prems(2) by (simp add: transaction_ops_def)
  qed (use s in auto)
qed auto

section \<open>The two ways to end\<close>

lemma prune_absent: "(\<And>acc. ts \<notin> set (slot m acc)) \<Longrightarrow> prune n ts (slot m acc) = slot m acc"
  by (simp add: prune_none)

lemma prunable_keys:
  assumes "distinct (range_keys m)"
  shows "prunable ts m \<longleftrightarrow> (\<forall>acc\<in>set (range_keys m). length (range_keys m) \<le> survivors ts (slot m acc))"
  using slot_mem [OF _ assms] mem_slot [of _ m]
  by (force simp: prunable_def list_all_iff range_keys_def)

text \<open>The only panic of \<open>DoAbort\<close>.\<close>

lemma for_res_Inl: "for_res xs body s = Inl err \<Longrightarrow> \<exists>x s'. body x s' = Inl err"
  by (induction xs arbitrary: s) (auto simp: bind_res_Inl)

lemma abort_RTS_panic: "abort_RTS ts m = Inl err \<Longrightarrow> err = Index_out_of_range"
  unfolding abort_RTS_def
  by (drule for_res_Inl) (auto simp: bind_res_Inl abort_RTS_loop_eq split: option.splits if_splits)

lemma DoAbort_panic:
  assumes "bank_ok sv" "DoAbort ts sv = Inl err"
  shows "err = Index_out_of_range"
proof -
  obtain tw where "abort_TW ts (TW sv) = Inr tw" using abort_TW_result [OF bank_okD(2) [OF assms(1)]] .
  then show ?thesis using assms(2) abort_RTS_panic [of ts "RTS sv" err] by (auto simp: DoAbort_def bind_res_Inl)
qed

text \<open>For a transaction that has read nothing, the panic is a matter of how many readers there are.\<close>

lemma prunable_fresh:
  assumes "bank_ok sv" "fresh_stamp ts sv"
  shows "prunable ts (RTS sv) \<longleftrightarrow> (\<forall>(acc, readers) \<in> set (RTS sv). length (RTS sv) \<le> length readers)"
proof -
  have "survivors ts readers = length readers" if "(acc, readers) \<in> set (RTS sv)" for acc readers
    using slot_mem [OF that bank_okD(3) [OF assms(1)]] assms(2)
    by (auto simp: fresh_stamp_def survivors_def intro!: arg_cong [of _ _ length] filter_True)
  then show ?thesis by (auto simp: prunable_def list_all_iff)
qed

text \<open>Aborting in the writing phase returns to the balances before it, or panics.\<close>

lemma written_abort_panic:
  assumes w: "written ts ops sv0 sv" and inv0: "bank_ok sv0" and pr: "\<not> prunable ts (RTS sv0)"
  shows "DoAbort ts sv = Inl Index_out_of_range"
proof -
  note d = writtenD [OF w]
  have "\<not> prunable ts (RTS sv)"
    using pr d(3) prunable_keys [OF bank_okD(3) [OF inv0]] prunable_keys [OF bank_okD(3) [OF d(1)]] by simp
  then have "\<not> ok (DoAbort ts sv)" using DoAbort_ok [OF d(1)] by simp
  then show ?thesis using DoAbort_panic [OF d(1)] by (cases "DoAbort ts sv") auto
qed

lemma written_abort:
  assumes w: "written ts ops sv0 sv" and fresh: "fresh_stamp ts sv0" and inv0: "bank_ok sv0"
    and pr: "prunable ts (RTS sv0)"
  shows "\<exists>sv'. DoAbort ts sv = Inr sv' \<and> written ts [] sv0 sv' \<and> quiescent sv'"
proof -
  note d = writtenD [OF w]
  have "prunable ts (RTS sv)"
    using pr d(3) prunable_keys [OF bank_okD(3) [OF inv0]] prunable_keys [OF bank_okD(3) [OF d(1)]] by simp
  then have "ok (DoAbort ts sv)" using DoAbort_ok [OF d(1)] by simp
  then obtain sv' where s: "DoAbort ts sv = Inr sv'" by (auto simp: ok_iff)
  note r = DoAbort_result [OF d(1) s]
  have acc: "map_of (accounts sv') acc = map_of (accounts sv0) acc" for acc
  proof (cases "map_of (accounts sv) acc = map_of (accounts sv0) acc")
    case True
    then show ?thesis using fresh by (auto simp: r(3) fresh_stamp_def split: option.splits)
  next
    case False
    then have "map_of (accounts sv0) acc = None" "createdTimestamp (account_of sv acc) = ts" using d(8) [of acc] by auto
    then show ?thesis by (auto simp: r(3) get_or_def split: option.splits)
  qed
  have q: "quiescent sv'" using d(2) by (simp add: quiescent_def only_of_def r(1))
  have slots: "slot (RTS sv') acc = slot (RTS sv0) acc" for acc
    using fresh d(3) by (simp add: r(2) prune_none fresh_stamp_def)
  have keys: "range_keys (RTS sv') = range_keys (RTS sv0)"
    using d(3) DoAbort_keys [OF d(1) s] by simp
  have "balances sv' = balances sv0" using acc by (simp add: balances_def get_or_def fun_eq_iff)
  then have "written ts [] sv0 sv'"
    using q r(6) acc slots keys
    by (simp add: written_def quiescent_def only_of_def tentative_of_def delta_def)
  with s q show ?thesis by blast
qed

text \<open>A written transaction that passes the check commits.\<close>

lemma written_commit:
  assumes w: "written ts ops sv0 sv" and chk: "CheckCommit ts sv = Inr (True, sv')"
  shows "sv' = sv \<and> (\<exists>sv2. DoCommit ts sv = Some (Inr sv2) \<and> bank_ok sv2 \<and> quiescent sv2 \<and>
    balances sv2 = posted ops (balances sv0) \<and>
    (\<forall>op\<in>set ops. \<not> negative (balances sv2 (op_account op))))"
proof -
  note d = writtenD [OF w]
  have own: "filter (\<lambda>w. wv_timestamp w = ts) (slot (TW sv) acc) = slot (TW sv) acc"
    "filter (\<lambda>w. wv_timestamp w \<le> ts) (slot (TW sv) acc) = slot (TW sv) acc"
    "no_newer ts (slot (TW sv) acc)" for acc
    using d(2) by (auto simp: only_of_def filter_empty_conv no_newer_def list_all_iff intro!: filter_True)
  have after: "balance_after ts sv acc = balances sv0 acc + delta acc ops" for acc
    using d(5) [of acc] d(4) [symmetric] by (simp add: balance_after_def add_tentative_sum tentative_of_def own balances_def)
  have "committable ts sv acc" for acc
    using own(3) [of acc] d(6,7) [of acc] by (simp add: committable_def)
  then obtain sv2 where c: "DoCommit ts sv = Some (Inr sv2)"
    using DoCommit_returns_iff [OF d(1)] by blast
  note st = DoCommit_state [OF d(1) c] and bal = DoCommit_balances [OF d(1) c]
  have b: "balances sv2 = posted ops (balances sv0)"
  proof
    fix acc
    have "\<not> has_entry ts (slot (TW sv) acc) \<Longrightarrow> delta acc ops = 0"
      using d(5) [of acc] tentative_of_none by metis
    then show "balances sv2 acc = posted ops (balances sv0) acc"
      using d(4) by (auto simp: bal posted_delta after)
  qed
  have sv': "sv' = sv" and nn: "\<And>acc. has_entry ts (slot (TW sv) acc) \<Longrightarrow> \<not> negative (balance_after ts sv acc)"
    using chk absent_slot [of _ "TW sv"]
    by (auto simp: CheckCommit_cases [OF d(1)] map_res_Inr split: if_splits)
  have "\<forall>op\<in>set ops. \<not> negative (balances sv2 (op_account op))"
    using d(6) nn by (auto simp: bal)
  moreover have "quiescent sv2" using d(2) by (simp add: quiescent_def only_of_def st(2))
  ultimately show ?thesis using c b sv' st(1) by blast
qed

text \<open>
  The refinement: a transaction on a quiescent branch is a step of the abstract bank, unless it
  has to abort and the abort panics.
\<close>

lemma transaction_refines:
  assumes inv: "bank_ok sv" and q: "quiescent sv" and ops: "transaction_ops ts ops"
    and fresh: "fresh_stamp ts sv"
  shows "(\<exists>committed sv'. transaction ts ops sv = Some (Inr (committed, sv')) \<and> bank_ok sv' \<and> quiescent sv' \<and>
      balances sv' = (if committed then posted ops (balances sv) else balances sv) \<and>
      (committed \<longrightarrow> (\<forall>op\<in>set ops. \<not> negative (balances sv' (op_account op)))) \<and>
      committed = passes ts ops sv) \<or>
    transaction ts ops sv = Some (Inl Index_out_of_range) \<and> \<not> passes ts ops sv \<and> \<not> prunable ts (RTS sv)"
proof -
  obtain abort s1 ops' where w: "write_all ops sv = Inr (abort, s1)" "written ts ops' sv s1"
    "\<not> abort \<longrightarrow> ops' = ops"
    using written_all [OF written_nil [OF inv q, of ts] ops] by auto
  have commits: ?thesis
    if "write_all ops sv = Inr (False, s)" "written ts ops sv s" "CheckCommit ts s = Inr (True, s2)" for s s2
  proof -
    from written_commit [OF that(2,3)] obtain sv2 where "s2 = s" "DoCommit ts s = Some (Inr sv2)"
      and r: "bank_ok sv2" "quiescent sv2" "balances sv2 = posted ops (balances sv)"
        "\<forall>op\<in>set ops. \<not> negative (balances sv2 (op_account op))" by blast
    then have "transaction ts ops sv = Some (Inr (True, sv2))"
      using that(1,3) by (simp add: transaction_def return_go_def)
    moreover have "passes ts ops sv" unfolding passes_def using that(1,3) by blast
    ultimately show ?thesis using r by (intro disjI1 exI [of _ True] exI [of _ sv2]) simp
  qed
  show ?thesis
  proof (cases "prunable ts (RTS sv)")
    case False
    note panic = written_abort_panic [OF w(2) inv False]
    show ?thesis
    proof (cases "abort \<or> \<not> (\<exists>s2. CheckCommit ts s1 = Inr (True, s2))")
      case True
      then have "transaction ts ops sv = Some (Inl Index_out_of_range)"
        using w(1) panic by (auto simp: transaction_def CheckCommit_def split: if_splits)
      moreover have "\<not> passes ts ops sv" using True w(1) by (auto simp: passes_def)
      ultimately show ?thesis using False by simp
    next
      case no: False
      then obtain s2 where chk: "CheckCommit ts s1 = Inr (True, s2)" by blast
      have "write_all ops sv = Inr (False, s1)" "written ts ops sv s1" using no w by simp_all
      from commits [OF this chk] show ?thesis .
    qed
  next
    case True
    have undo: "\<exists>sv'. DoAbort ts s = Inr sv' \<and> bank_ok sv' \<and> quiescent sv' \<and> balances sv' = balances sv \<and> written ts [] sv sv'"
      if "written ts ops'' sv s" for ops'' s
      using written_abort [OF that fresh inv True] writtenD(1,4) by metis
    have aborts: ?thesis
      if "written ts ops'' sv s" "\<not> passes ts ops sv" "transaction ts ops sv = Some (map_res (Pair False) (DoAbort ts s))"
      for ops'' s
    proof -
      from undo [OF that(1)] obtain s' where "DoAbort ts s = Inr s'" "bank_ok s'" "quiescent s'" "balances s' = balances sv"
        by blast
      then show ?thesis using that(2,3) by (intro disjI1 exI [of _ False] exI [of _ s']) simp
    qed
    show ?thesis
    proof (cases abort)
      case True
      have "\<not> passes ts ops sv" using True w(1) by (simp add: passes_def)
      moreover have "transaction ts ops sv = Some (map_res (Pair False) (DoAbort ts s1))"
        using True w(1) by (simp add: transaction_def)
      ultimately show ?thesis using aborts [OF w(2)] by blast
    next
      case False
      with w have w2: "written ts ops sv s1" by simp
      have "\<exists>can s2. CheckCommit ts s1 = Inr (can, s2) \<and> (\<not> can \<longrightarrow> DoAbort ts s1 = Inr s2)"
        using undo [OF w2] by (auto simp: CheckCommit_def)
      then obtain can s2 where chk: "CheckCommit ts s1 = Inr (can, s2)" "\<not> can \<Longrightarrow> DoAbort ts s1 = Inr s2"
        by blast
      show ?thesis
      proof (cases can)
        case True
        with chk have can: "CheckCommit ts s1 = Inr (True, s2)" by simp
        have "write_all ops sv = Inr (False, s1)" using w(1) False by simp
        from commits [OF this w2 can] show ?thesis .
      next
        case no: False
        then have "written ts [] sv s2" using undo [OF w2] chk(2) by auto
        moreover have "\<not> passes ts ops sv" using no chk(1) w(1) False by (simp add: passes_def)
        moreover have "transaction ts ops sv = Some (map_res (Pair False) (DoAbort ts s2))"
          using no chk(1) w(1) False by (simp add: transaction_def)
        ultimately show ?thesis using aborts by blast
      qed
    qed
  qed
qed

end
