(* ===== verification/BankServer.thy ===== *)
theory BankServer
  imports BankAtomicity
begin

text \<open>
  \<open>mp3/server/server.go\<close>, the message handlers of a branch: start-up
  (\<open>readFromConfig\<close>, \<open>judgeClient\<close>, \<open>build_branches\<close>), a client's
  connection (\<open>handleConnection\<close>, \<open>handleOperation\<close>) and the connection to
  another branch (\<open>handleBranch\<close>), with the two-phase commit they run. One step
  handles what one \<open>Read\<close> returned. \<open>env\<close> is as in \<open>BankRead\<close>:
  \<open>env 0\<close> is the branch when the handler starts, and only a waiting read looks further.
\<close>

section \<open>Connections\<close>

definition newline :: char where
  "newline = CHR 0x0A"

definition sendtoClient :: "string \<Rightarrow> Conn \<Rightarrow> Server \<Rightarrow> Server res" where
  "sendtoClient text conn sv =
     (case conn of None \<Rightarrow> Inl Nil_dereference
      | Some c \<Rightarrow> Inr (sv\<lparr>net := net sv @ [Sent c (text @ [newline])]\<rparr>))"

definition Close :: "Conn \<Rightarrow> Server \<Rightarrow> Server res" where
  "Close conn sv = (case conn of None \<Rightarrow> Inl Nil_dereference
     | Some c \<Rightarrow> Inr (sv\<lparr>net := net sv @ [Closed c]\<rparr>))"

text \<open>What \<open>Read\<close> on a connection gave: bytes, bytes with end of file, or an error.\<close>

datatype read_result = Bytes string | At_EOF string | Read_failed

definition readClient :: "read_result \<Rightarrow> string" where
  "readClient r = (case r of Bytes s \<Rightarrow> s | At_EOF s \<Rightarrow> s | Read_failed \<Rightarrow> ''Closed'')"

section \<open>Start-up\<close>

definition lookup :: "(string \<times> int) list" where
  "lookup =
    [(''AB'', 10012), (''AC'', 10013), (''AD'', 10014), (''AE'', 10015),
     (''BA'', 10021), (''BC'', 10023), (''BD'', 10024), (''BE'', 10025),
     (''CA'', 10031), (''CB'', 10032), (''CD'', 10034), (''CE'', 10035),
     (''DA'', 10041), (''DB'', 10042), (''DC'', 10043), (''DE'', 10045),
     (''EA'', 10051), (''EB'', 10052), (''EC'', 10053), (''ED'', 10054)]"

fun find_port :: "int \<Rightarrow> (string \<times> int) list \<Rightarrow> bool \<times> string" where
  "find_port p [] = (True, [])"
| "find_port p ((names, q) # m) = (if q = p then (False, take 1 names) else find_port p m)"

text \<open>On a 64-bit machine \<open>Atoi\<close> accepts and yields what \<open>ParseInt\<close> does.\<close>

definition judgeClient :: "string \<Rightarrow> (bool \<times> string) res" where
  "judgeClient addr =
     bind_res (idx (Split addr (CHR '':'')) 1) (\<lambda>strport.
     bind_res (checked (ParseInt strport)) (\<lambda>intport. Inr (find_port intport lookup)))"

definition readFromConfig :: "string list \<Rightarrow> Server \<Rightarrow> Server res" where
  "readFromConfig config_lines = for_res config_lines (\<lambda>line sv.
     let arr = Split line (CHR '' '')
     in bind_res (idx arr 0) (\<lambda>n. bind_res (idx arr 1) (\<lambda>ad. bind_res (idx arr 2) (\<lambda>pt.
        Inr (sv\<lparr>address := AList.update n ad (address sv), port := AList.update n pt (port sv),
                name := AList.update \<lparr>ip_X = ad, ip_Y = pt\<rparr> n (name sv)\<rparr>)))))"

text \<open>
  \<open>build_branches\<close>: \<open>dial n\<close> is the connection that the repeated \<open>Dial\<close> to
  branch \<open>n\<close> ends with; \<open>accepted\<close> are the remote addresses and connections that
  \<open>Accept\<close> returns. It is \<open>None\<close> while fewer than four branches have connected.
\<close>

definition dial_branches :: "(string \<Rightarrow> nat) \<Rightarrow> Server \<Rightarrow> Server" where
  "dial_branches dial sv = fold (\<lambda>n sv. if n \<noteq> me sv
     then sv\<lparr>send_conn := AList.update n (dial n) (send_conn sv)\<rparr> else sv) (range_keys (address sv)) sv"

fun accept_branches :: "(string \<times> nat) list \<Rightarrow> nat \<Rightarrow> Server \<Rightarrow> Server go" where
  "accept_branches [] count sv = None"
| "accept_branches ((addr, c) # accepted) count sv =
     bind_go (Some (judgeClient addr)) (\<lambda>(is_client, n).
       let r = (if is_client then (count, sv\<lparr>net := net sv @ [Closed c]\<rparr>)
                else (count + 1, sv\<lparr>read_conn := AList.update n c (read_conn sv)\<rparr>))
       in if fst r = 4 then return_go (snd r) else accept_branches accepted (fst r) (snd r))"

definition build_branches :: "(string \<Rightarrow> nat) \<Rightarrow> (string \<times> nat) list \<Rightarrow> Server \<Rightarrow> Server go" where
  "build_branches dial accepted sv = accept_branches accepted 0 (dial_branches dial sv)"

text \<open>
  \<open>start_listen\<close>: the address it listens on. \<open>connect_client\<close> accepts a connection and
  dials the client back, at port 10050 of its host, until that works; \<open>dial\<close> is the
  connection this ends with.
\<close>

definition start_listen :: "Server \<Rightarrow> string" where
  "start_listen sv = Join [get_or [] (address sv) (me sv), get_or [] (port sv) (me sv)] '':''"

definition connect_client :: "(string \<Rightarrow> nat) \<Rightarrow> string \<times> nat \<Rightarrow> (nat \<times> nat) res" where
  "connect_client dial accepted =
     bind_res (idx (Split (fst accepted) (CHR '':'')) 0) (\<lambda>clientAddr.
       Inr (snd accepted, dial (Join [clientAddr, ''10050''] '':'')))"

text \<open>\<open>main\<close>, up to the point where it serves connections.\<close>

definition start_server ::
    "string list \<Rightarrow> string list option \<Rightarrow> (string \<Rightarrow> nat) \<Rightarrow> (string \<times> nat) list \<Rightarrow> Server go" where
  "start_server argv config dial accepted =
     (if len argv \<noteq> 2 then Some (Inl (Fatal ''usage: ./server <Server Name [A,B,C,D,E]> <config.txt>''))
      else case config of
        None \<Rightarrow> Some (Inl (Fatal ''open''))
      | Some ls \<Rightarrow> bind_go (Some (readFromConfig ls (new_Server (argv ! 0)))) (build_branches dial accepted))"

section \<open>A client's operation\<close>

text \<open>\<open>for _, name := range sv.name { if name != sv.me { sendtoClient(...) } }\<close>\<close>

definition broadcast :: "string \<Rightarrow> Server \<Rightarrow> Server res" where
  "broadcast msg sv = for_res (map snd (name sv)) (\<lambda>n sv.
     if n \<noteq> me sv then sendtoClient msg (map_of (send_conn sv) n) sv else Inr sv) sv"

definition abort_reply :: "string \<Rightarrow> int \<Rightarrow> Conn \<Rightarrow> Server \<Rightarrow> (bool \<times> Server) res" where
  "abort_reply text ts conn sv =
     bind_res (sendtoClient text conn sv) (\<lambda>sv. map_res (Pair True) (DoAbort ts sv))"

definition handleOperation :: "(nat \<Rightarrow> Server) \<Rightarrow> Operation \<Rightarrow> Conn \<Rightarrow> (bool \<times> Server) go" where
  "handleOperation env op conn =
     (let sv = env 0; ts = op_timestamp op
      in if op_method op = ''DEPOSIT'' then
           Some (bind_res (write_sv op sv) (\<lambda>(abort, sv).
             if abort then abort_reply ''ABORTED'' ts conn sv
             else map_res (Pair False) (sendtoClient ''OK'' conn sv)))
         else if op_method op = ''WITHDRAW'' then
           Some (bind_res (write_sv op sv) (\<lambda>(abort, sv).
             if abort then abort_reply ''NOT FOUND, ABORTED'' ts conn sv
             else map_res (Pair False) (sendtoClient ''OK'' conn sv)))
         else if op_method op = ''BALANCE'' then
           (case read_sv env op 0 of
              None \<Rightarrow> None
            | Some (v, aborted, sv) \<Rightarrow> Some (
                if aborted then abort_reply ''NOT FOUND, ABORTED'' ts conn sv
                else map_res (Pair False)
                  (sendtoClient (op_branch op @ ''.'' @ op_account op @ '' = '' @ Itoa v) conn sv)))
         else if op_method op = ''COMMIT'' then
           (let strtmsp = FormatInt ts;
                sv = sv\<lparr>commitCount := AList.update strtmsp 0 (commitCount sv)\<rparr>
            in Some (bind_res (CheckCommit ts sv) (\<lambda>(can, sv).
                 if \<not> can then
                   bind_res (sendtoClient ''ABORTED'' conn sv) (\<lambda>sv.
                   bind_res (broadcast (Join [''ABORT_Coordinator'', strtmsp] '' '') sv) (\<lambda>sv.
                   map_res (Pair True) (DoAbort ts sv)))
                 else map_res (Pair False) (broadcast (Join [''COMMIT_PREPARE'', strtmsp] '' '') sv))))
         else return_go (False, sv))"

text \<open>The last message to the client of a transaction, whose connections are then closed.\<close>

definition reply_and_close :: "string \<Rightarrow> string \<Rightarrow> Server \<Rightarrow> Server res" where
  "reply_and_close text key sv =
     bind_res (sendtoClient text (map_of (send_conn sv) key) sv) (\<lambda>sv.
     bind_res (Close (map_of (send_conn sv) key) sv) (\<lambda>sv.
     Close (map_of (read_conn sv) key) sv))"

text \<open>The connections of a client, under the timestamp of its transaction.\<close>

definition add_conns :: "string \<Rightarrow> nat \<Rightarrow> nat \<Rightarrow> Server \<Rightarrow> Server" where
  "add_conns key rconn sconn sv =
     sv\<lparr>read_conn := AList.update key rconn (read_conn sv), send_conn := AList.update key sconn (send_conn sv)\<rparr>"

text \<open>One turn of the loop of \<open>handleConnection\<close>; the result says whether it breaks.\<close>

definition handleConnection :: "(nat \<Rightarrow> Server) \<Rightarrow> read_result \<Rightarrow> nat \<Rightarrow> nat \<Rightarrow> (bool \<times> Server) go" where
  "handleConnection env r rconn sconn =
     (if readClient r = ''Closed'' then return_go (True, env 0)
      else let operation = TrimSpace (readClient r)
      in bind_go (Some (Init operation zero_Operation)) (\<lambda>op.
         let key = FormatInt (op_timestamp op);
             env = (\<lambda>t. add_conns key rconn sconn (env t)); sv = env 0
         in if op_branch op = me sv \<or> op_method op = ''COMMIT'' then
              bind_go (handleOperation env op (Some sconn)) (\<lambda>(abort, sv).
                if abort then
                  Some (bind_res (Close (Some rconn) sv) (\<lambda>sv. map_res (Pair True) (Close (Some sconn) sv)))
                else return_go (op_method op = ''COMMIT'', sv))
            else if op_method op = ''ABORT'' then
              Some (bind_res (DoAbort (op_timestamp op) sv) (\<lambda>sv.
                bind_res (broadcast (Join [''ABORT_Coordinator'', key] '' '') sv) (\<lambda>sv.
                map_res (Pair True) (reply_and_close ''ABORTED'' key sv))))
            else Some (map_res (Pair False) (sendtoClient operation (map_of (send_conn sv) (op_branch op)) sv))))"

section \<open>A message of another branch\<close>

text \<open>
  \<open>reply_with tag ts\<close> is \<open>strings.Join([]string{tag, FormatInt(ts)}, " ")\<close>.
\<close>

definition reply_with :: "string \<Rightarrow> int \<Rightarrow> string" where
  "reply_with tag ts = Join [tag, FormatInt ts] '' ''"

definition branch_abort :: "string \<Rightarrow> int \<Rightarrow> Conn \<Rightarrow> Server \<Rightarrow> Server res" where
  "branch_abort tag ts conn sv = bind_res (sendtoClient (reply_with tag ts) conn sv) (DoAbort ts)"

definition branch_write :: "string \<Rightarrow> string \<Rightarrow> Conn \<Rightarrow> Server \<Rightarrow> Server res" where
  "branch_write tag operation conn sv =
     bind_res (Init operation zero_Operation) (\<lambda>op.
     bind_res (write_sv op sv) (\<lambda>(abort, sv).
       if abort then branch_abort tag (op_timestamp op) conn sv
       else sendtoClient (reply_with ''OK'' (op_timestamp op)) conn sv))"

definition branch_balance :: "(nat \<Rightarrow> Server) \<Rightarrow> string \<Rightarrow> Conn \<Rightarrow> Server go" where
  "branch_balance env operation conn =
     bind_go (Some (Init operation zero_Operation)) (\<lambda>op.
       case read_sv env op 0 of
         None \<Rightarrow> None
       | Some (v, aborted, sv) \<Rightarrow> Some (
           if aborted then branch_abort ''NOT'' (op_timestamp op) conn sv
           else sendtoClient (reply_with (op_branch op @ ''.'' @ op_account op @ '' = '' @ Itoa v) (op_timestamp op))
                  conn sv))"

text \<open>A branch asks the coordinator to abort the transaction of \<open>words[1]\<close>.\<close>

definition coordinator_abort :: "string list \<Rightarrow> Server \<Rightarrow> Server res" where
  "coordinator_abort words sv =
     bind_res (idx words 0) (\<lambda>w0.
     bind_res (idx words 1) (\<lambda>key.
     bind_res (checked (ParseInt key)) (\<lambda>ts.
     bind_res (DoAbort ts sv) (\<lambda>sv.
     bind_res (broadcast (reply_with ''ABORT_Coordinator'' ts) sv) (\<lambda>sv.
     reply_and_close (if w0 = ''NOT'' then ''NOT FOUND, ABORTED'' else w0) key sv)))))"

text \<open>The error of this \<open>ParseInt\<close> is ignored; its value is used.\<close>

definition prepare :: "string list \<Rightarrow> Conn \<Rightarrow> Server \<Rightarrow> Server res" where
  "prepare words conn sv =
     bind_res (idx words 1) (\<lambda>w.
       let ts = fst (ParseInt w)
       in bind_res (CheckCommit ts sv) (\<lambda>(can, sv).
            if can then sendtoClient (reply_with ''COMMIT_READY'' ts) conn sv
            else branch_abort ''ABORTED'' ts conn sv))"

text \<open>The fourth \<open>COMMIT_READY\<close> of a transaction commits it.\<close>

definition commit_ready :: "string list \<Rightarrow> Server \<Rightarrow> Server go" where
  "commit_ready words sv =
     bind_go (Some (idx words 1)) (\<lambda>key.
       let sv = sv\<lparr>commitCount := AList.update key (get_or 0 (commitCount sv) key + 1) (commitCount sv)\<rparr>
       in if get_or 0 (commitCount sv) key = 4 then
            bind_go (Some (checked (ParseInt key))) (\<lambda>ts.
            bind_go (DoCommit ts sv) (\<lambda>sv. Some (
              bind_res (broadcast (Join [''COMMIT_OK'', key] '' '') sv) (reply_and_close ''COMMIT OK'' key))))
          else return_go sv)"

text \<open>A reply of another branch to a forwarded operation, for the client it names.\<close>

definition relay :: "string list \<Rightarrow> Server \<Rightarrow> Server res" where
  "relay words sv =
     bind_res (slice_to words (len words - 1)) (\<lambda>ws.
     bind_res (idx words (len words - 1)) (\<lambda>key.
     sendtoClient (Join ws '' '') (map_of (send_conn sv) key) sv))"

definition timestamp_of :: "string list \<Rightarrow> int res" where
  "timestamp_of words = bind_res (idx words 1) (\<lambda>w. checked (ParseInt w))"

definition handleBranch :: "(nat \<Rightarrow> Server) \<Rightarrow> read_result \<Rightarrow> Conn \<Rightarrow> Server go" where
  "handleBranch env r conn =
     (let sv = env 0; operation = TrimSpace (readClient r); words = Fields operation
      in bind_go (Some (idx words 0)) (\<lambda>w0.
         if w0 = ''DEPOSIT'' then Some (branch_write ''ABORTED'' operation conn sv)
         else if w0 = ''WITHDRAW'' then Some (branch_write ''NOT'' operation conn sv)
         else if w0 = ''BALANCE'' then branch_balance env operation conn
         else if w0 = ''ABORT_Coordinator'' then
           Some (bind_res (timestamp_of words) (\<lambda>ts. DoAbort ts sv))
         else if w0 = ''ABORTED'' \<or> w0 = ''NOT'' then Some (coordinator_abort words sv)
         else if w0 = ''COMMIT_PREPARE'' then Some (prepare words conn sv)
         else if w0 = ''COMMIT_READY'' then commit_ready words sv
         else if w0 = ''COMMIT_OK'' then bind_go (Some (timestamp_of words)) (\<lambda>ts. DoCommit ts sv)
         else Some (relay words sv)))"

section \<open>A branch as a machine\<close>

text \<open>
  What reaches a running branch: bytes on a client's pair of connections, or bytes from
  another branch, which it answers on \<open>send_conn\<close> of that branch. Handlers run one
  after the other.
\<close>

datatype bank_event = From_client nat nat read_result | From_branch string read_result

definition bank_step :: "bank_event \<Rightarrow> Server \<Rightarrow> (bool \<times> Server) go" where
  "bank_step e sv = (case e of
     From_client rconn sconn r \<Rightarrow> handleConnection (\<lambda>_. sv) r rconn sconn
   | From_branch n r \<Rightarrow> bind_go (handleBranch (\<lambda>_. sv) r (map_of (send_conn sv) n)) (\<lambda>sv. return_go (False, sv)))"

definition any_bank_event :: "bank_event \<Rightarrow> Server \<Rightarrow> bool" where
  "any_bank_event e sv = True"

end
