(* ===== verification/BankProtocol.thy ===== *)
theory BankProtocol
  imports BankServer
begin

text \<open>
  What the handlers of a branch keep and when they commit: the invariant of the machine
  \<open>bank_step\<close>, which messages can change a committed balance, the messages that two
  branches exchange for a client's operation, and the counting of the second phase.
\<close>

section \<open>The invariant of a running branch\<close>

text \<open>
  What a handler may do to the accounts, besides keeping the invariant: with \<open>drops\<close> it
  leaves each account as it is or removes it; with \<open>keeps\<close> it may first have created some, empty
  and never committed.
\<close>

definition drops :: "Server \<Rightarrow> Server \<Rightarrow> bool" where
  "drops sv sv' \<longleftrightarrow> (bank_ok sv \<longrightarrow> bank_ok sv' \<and>
     (\<forall>acc a. map_of (accounts sv') acc = Some a \<longrightarrow> map_of (accounts sv) acc = Some a))"

definition keeps :: "Server \<Rightarrow> Server \<Rightarrow> bool" where
  "keeps sv sv' \<longleftrightarrow> (bank_ok sv \<longrightarrow> bank_ok sv' \<and>
     (\<forall>acc a. map_of (accounts sv') acc = Some a \<longrightarrow>
        map_of (accounts sv) acc = Some a \<or>
        map_of (accounts sv) acc = None \<and> committedValue a = 0 \<and> committedTimestamp a = 0))"

lemma drops_refl [simp, intro]: "drops sv sv"
  by (simp add: drops_def)

lemma drops_trans: "drops sv s1 \<Longrightarrow> drops s1 s2 \<Longrightarrow> drops sv s2"
  unfolding drops_def by blast

lemma drops_keeps: "drops sv sv' \<Longrightarrow> keeps sv sv'"
  by (simp add: drops_def keeps_def)

lemma keeps_refl [simp, intro]: "keeps sv sv"
  by (simp add: drops_keeps)

lemma keeps_drops: "keeps sv s1 \<Longrightarrow> drops s1 s2 \<Longrightarrow> keeps sv s2"
  unfolding keeps_def drops_def by blast

lemma keeps_balances:
  assumes "keeps sv sv'" "bank_ok sv" "map_of (accounts sv') acc \<noteq> None"
  shows "balances sv' acc = balances sv acc"
proof -
  obtain a where a: "map_of (accounts sv') acc = Some a" using assms(3) by blast
  then have "map_of (accounts sv) acc = Some a \<or> map_of (accounts sv) acc = None \<and> committedValue a = 0"
    using assms(1,2) unfolding keeps_def by blast
  with a show ?thesis by (auto simp: balances_def get_or_def zero_Account_def)
qed

lemma drops_same:
  "accounts sv' = accounts sv \<Longrightarrow> TW sv' = TW sv \<Longrightarrow> RTS sv' = RTS sv \<Longrightarrow> drops sv sv'"
  by (simp add: drops_def bank_ok_frame [of sv' sv])

lemma keeps_after_same:
  "accounts s = accounts sv \<Longrightarrow> TW s = TW sv \<Longrightarrow> RTS s = RTS sv \<Longrightarrow> keeps s sv' \<Longrightarrow> keeps sv sv'"
  by (simp add: keeps_def bank_ok_frame [of s sv])

lemma sendtoClient_frame: "sendtoClient text conn sv = Inr sv' \<Longrightarrow> sv' = sv\<lparr>net := net sv'\<rparr>"
  by (auto simp: sendtoClient_def split: option.splits)

lemma Close_frame: "Close conn sv = Inr sv' \<Longrightarrow> sv' = sv\<lparr>net := net sv'\<rparr>"
  by (auto simp: Close_def split: option.splits)

lemma net_drops: "sv' = sv\<lparr>net := n\<rparr> \<Longrightarrow> drops sv sv'"
  by (simp add: drops_same)

lemma sendtoClient_drops: "sendtoClient text conn sv = Inr sv' \<Longrightarrow> drops sv sv'"
  by (rule net_drops, rule sendtoClient_frame)

lemma Close_drops: "Close conn sv = Inr sv' \<Longrightarrow> drops sv sv'"
  by (rule net_drops, rule Close_frame)

lemma broadcast_frame_loop:
  "for_res ns (\<lambda>n sv. if n \<noteq> me sv then sendtoClient msg (map_of (send_conn sv) n) sv else Inr sv) sv = Inr sv'
   \<Longrightarrow> sv' = sv\<lparr>net := net sv'\<rparr>"
proof (induction ns arbitrary: sv)
  case (Cons n ns)
  then obtain s where s: "(if n \<noteq> me sv then sendtoClient msg (map_of (send_conn sv) n) sv else Inr sv) = Inr s"
    "for_res ns (\<lambda>n sv. if n \<noteq> me sv then sendtoClient msg (map_of (send_conn sv) n) sv else Inr sv) s = Inr sv'"
    by (auto simp: bind_res_Inr simp del: if_split)
  have "s = sv\<lparr>net := net s\<rparr>" using s(1) sendtoClient_frame by (auto split: if_splits)
  then obtain n' where "s = sv\<lparr>net := n'\<rparr>" ..
  with Cons.IH [OF s(2)] show ?case by simp
qed simp

lemma broadcast_frame: "broadcast msg sv = Inr sv' \<Longrightarrow> sv' = sv\<lparr>net := net sv'\<rparr>"
  unfolding broadcast_def by (rule broadcast_frame_loop)

lemma broadcast_drops: "broadcast msg sv = Inr sv' \<Longrightarrow> drops sv sv'"
  by (rule net_drops, rule broadcast_frame)

lemma DoAbort_drops: "DoAbort ts sv = Inr sv' \<Longrightarrow> drops sv sv'"
  unfolding drops_def using DoAbort_result(3,6) by (auto split: option.splits if_splits)

lemma CheckCommit_drops: "CheckCommit ts sv = Inr (can, sv') \<Longrightarrow> drops sv sv'"
  by (auto simp: CheckCommit_def map_res_Inr DoAbort_drops split: if_splits)

lemma write_keeps: "write_sv op sv = Inr (abort, sv') \<Longrightarrow> keeps sv sv'"
proof -
  assume w: "write_sv op sv = Inr (abort, sv')"
  let ?a = "with_account op sv"
  let ?w = "\<lambda>s. s\<lparr>TW := AList.update (op_account op)
     (tentative_write (op_timestamp op) (op_amount op) (slot (TW sv) (op_account op))) (TW sv)\<rparr>"
  have "keeps sv ?a"
    using bank_ok_with_account [of sv op]
    by (auto simp: keeps_def with_account_def [of op sv] AList.update_conv' new_account_def split: option.splits)
  moreover have "drops s (?w s)" if "TW s = TW sv" for s
    unfolding drops_def that [symmetric]
    by (auto intro: bank_ok_TW_update tentative_write_distinct bank_okD(4))
  moreover have "sv' \<in> {sv, ?a, ?w sv, ?w ?a}"
    using w by (auto simp: write_sv_def Let_def bind_res_Inr with_account_def split: if_splits)
  ultimately show ?thesis by (auto intro: keeps_drops)
qed

lemma read_drops: "read_sv (\<lambda>_. sv) op t = Some (v, aborted, sv') \<Longrightarrow> drops sv sv'"
proof -
  have "drops sv s" if "read_rule op sv = Read_value v s" for v s
    using read_rule_bank_ok [OF _ that] arg_cong [OF read_rule_RTS [OF that], of accounts]
    by (auto simp: drops_def)
  then show "read_sv (\<lambda>_. sv) op t = Some (v, aborted, sv') \<Longrightarrow> drops sv sv'"
    by (auto simp: read_sv_alone split: read_outcome.splits)
qed

lemma reply_and_close_drops: "reply_and_close text key sv = Inr sv' \<Longrightarrow> drops sv sv'"
  by (auto simp: reply_and_close_def bind_res_Inr dest!: sendtoClient_drops Close_drops intro: drops_trans)

lemmas handler_drops =
  sendtoClient_drops Close_drops broadcast_drops DoAbort_drops CheckCommit_drops read_drops reply_and_close_drops

lemma abort_reply_drops: "abort_reply text ts conn sv = Inr (b, sv') \<Longrightarrow> drops sv sv'"
  by (auto simp: abort_reply_def bind_res_Inr map_res_Inr dest!: handler_drops intro: drops_trans)

lemma handleOperation_keeps:
  assumes "handleOperation (\<lambda>_. sv) op conn = Some (Inr (b, sv'))"
  shows "keeps sv sv'"
proof -
  have count: "drops (sv\<lparr>commitCount := c\<rparr>) s \<Longrightarrow> drops sv s" for c s
    by (erule drops_trans [rotated]) (simp add: drops_same)
  show ?thesis
    using assms
    by (auto simp: handleOperation_def Let_def bind_res_Inr map_res_Inr return_go_def
        split: if_splits option.splits dest!: write_keeps handler_drops abort_reply_drops count)
       (meson keeps_drops drops_keeps drops_trans)+
qed

lemma handleConnection_keeps:
  assumes "handleConnection (\<lambda>_. sv) r rconn sconn = Some (Inr (b, sv'))"
  shows "keeps sv sv'"
proof -
  have conns: "keeps (add_conns key rconn sconn sv) s \<Longrightarrow> keeps sv s" for key s
    by (erule keeps_after_same [rotated -1]) (simp_all add: add_conns_def)
  show ?thesis
    using assms
    by (auto simp: handleConnection_def Let_def bind_go_return bind_res_Inr map_res_Inr return_go_def
        split: if_splits dest!: handler_drops handleOperation_keeps)
       (meson keeps_drops drops_keeps drops_trans conns)+
qed

text \<open>The messages that commit: \<open>COMMIT_OK\<close>, and \<open>COMMIT_READY\<close> as the fourth.\<close>

definition message_words :: "read_result \<Rightarrow> string list" where
  "message_words r = Fields (TrimSpace (readClient r))"

definition commits :: "read_result \<Rightarrow> Server \<Rightarrow> bool" where
  "commits r sv \<longleftrightarrow>
     idx (message_words r) 0 = Inr ''COMMIT_OK'' \<or>
     idx (message_words r) 0 = Inr ''COMMIT_READY'' \<and>
       (\<exists>key. idx (message_words r) 1 = Inr key \<and> get_or 0 (commitCount sv) key = 3)"

lemma branch_abort_drops: "branch_abort tag ts conn sv = Inr sv' \<Longrightarrow> drops sv sv'"
  by (auto simp: branch_abort_def bind_res_Inr dest!: handler_drops intro: drops_trans)

lemma branch_write_keeps: "branch_write tag operation conn sv = Inr sv' \<Longrightarrow> keeps sv sv'"
  by (auto simp: branch_write_def bind_res_Inr split: if_splits
      dest!: write_keeps handler_drops branch_abort_drops intro: keeps_drops)

lemma branch_balance_drops: "branch_balance (\<lambda>_. sv) operation conn = Some (Inr sv') \<Longrightarrow> drops sv sv'"
  by (auto simp: branch_balance_def bind_go_return split: option.splits if_splits
      dest!: handler_drops branch_abort_drops intro: drops_trans)

lemma coordinator_abort_drops: "coordinator_abort words sv = Inr sv' \<Longrightarrow> drops sv sv'"
  by (simp only: coordinator_abort_def bind_res_Inr) (elim exE conjE, (drule handler_drops)+, meson drops_trans)

lemma prepare_drops: "prepare words conn sv = Inr sv' \<Longrightarrow> drops sv sv'"
  by (auto simp: prepare_def bind_res_Inr Let_def split: if_splits
      dest!: handler_drops branch_abort_drops intro: drops_trans)

lemma relay_drops: "relay words sv = Inr sv' \<Longrightarrow> drops sv sv'"
  by (auto simp: relay_def bind_res_Inr dest!: handler_drops)

lemma DoCommit_bank_ok: "DoCommit ts sv = Some (Inr sv') \<Longrightarrow> bank_ok sv \<Longrightarrow> bank_ok sv'"
  by (rule DoCommit_state(1))

definition count_ready :: "string \<Rightarrow> Server \<Rightarrow> Server" where
  "count_ready key sv =
     sv\<lparr>commitCount := AList.update key (get_or 0 (commitCount sv) key + 1) (commitCount sv)\<rparr>"

lemma count_ready_drops: "drops sv (count_ready key sv)"
  by (simp add: count_ready_def drops_same)

lemma commit_ready_result:
  assumes "commit_ready words sv = Some (Inr sv')"
  obtains key where "idx words 1 = Inr key"
    "if get_or 0 (commitCount sv) key = 3
     then \<exists>ts s1. DoCommit ts (count_ready key sv) = Some (Inr s1) \<and> drops s1 sv'
     else sv' = count_ready key sv"
proof -
  from assms obtain key where k: "idx words 1 = Inr key"
    and rest: "if get_or 0 (commitCount sv) key = 3
      then bind_go (Some (checked (ParseInt key))) (\<lambda>ts.
            bind_go (DoCommit ts (count_ready key sv)) (\<lambda>sv. Some (
              bind_res (broadcast (Join [''COMMIT_OK'', key] '' '') sv) (reply_and_close ''COMMIT OK'' key)))) = Some (Inr sv')
      else sv' = count_ready key sv"
    by (auto simp: commit_ready_def bind_go_return [of "Some (idx words 1)"] Let_def count_ready_def return_go_def
        simp del: Join.simps split: if_splits)
  have "\<exists>ts s1. DoCommit ts (count_ready key sv) = Some (Inr s1) \<and> drops s1 sv'"
    if c: "get_or 0 (commitCount sv) key = 3"
    using rest c by (fastforce simp: bind_go_return bind_res_Inr dest!: handler_drops intro: drops_trans)
  with k rest that show ?thesis by auto
qed

lemma handleBranch_cases:
  assumes "handleBranch (\<lambda>_. sv) r conn = Some (Inr sv')"
  shows "keeps sv sv' \<and> \<not> commits r sv \<or>
    commits r sv \<and> (\<exists>ts s s1. drops sv s \<and> DoCommit ts s = Some (Inr s1) \<and> drops s1 sv')"
proof -
  obtain w0 where w: "idx (message_words r) 0 = Inr w0"
    using assms by (auto simp: handleBranch_def Let_def message_words_def bind_go_return)
  consider (ready) "w0 = ''COMMIT_READY''" | (okay) "w0 = ''COMMIT_OK''"
    | (other) "w0 \<noteq> ''COMMIT_READY''" "w0 \<noteq> ''COMMIT_OK''" by blast
  then show ?thesis
  proof cases
    case ready
    then have "commit_ready (message_words r) sv = Some (Inr sv')"
      using assms w by (simp add: handleBranch_def Let_def message_words_def)
    then obtain key where k: "idx (message_words r) 1 = Inr key"
      "if get_or 0 (commitCount sv) key = 3
       then \<exists>ts s1. DoCommit ts (count_ready key sv) = Some (Inr s1) \<and> drops s1 sv'
       else sv' = count_ready key sv" by (rule commit_ready_result)
    then show ?thesis
      using w ready count_ready_drops [of sv key] drops_keeps [OF count_ready_drops [of sv key]]
      by (auto simp: commits_def split: if_splits)
  next
    case okay
    then obtain ts where "DoCommit ts sv = Some (Inr sv')"
      using assms w by (auto simp: handleBranch_def Let_def message_words_def bind_go_return)
    with w okay show ?thesis by (auto simp: commits_def)
  next
    case other
    then have "\<not> commits r sv" using w by (simp add: commits_def)
    moreover have "keeps sv sv'"
      using assms w other
      by (auto simp: handleBranch_def Let_def message_words_def bind_res_Inr split: if_splits
          dest!: branch_write_keeps drops_keeps [OF branch_balance_drops] drops_keeps [OF DoAbort_drops]
            drops_keeps [OF coordinator_abort_drops] drops_keeps [OF prepare_drops] drops_keeps [OF relay_drops])
    ultimately show ?thesis by blast
  qed
qed

lemma bank_step_ok:
  "bank_ok sv \<Longrightarrow> bank_step e sv = Some (Inr (b, sv')) \<Longrightarrow> bank_ok sv'"
proof (cases e)
  case (From_client rconn sconn r)
  then show "bank_ok sv \<Longrightarrow> bank_step e sv = Some (Inr (b, sv')) \<Longrightarrow> bank_ok sv'"
    by (auto simp: bank_step_def dest!: handleConnection_keeps simp: keeps_def)
next
  case (From_branch n r)
  assume ok: "bank_ok sv" and "bank_step e sv = Some (Inr (b, sv'))"
  with From_branch have "handleBranch (\<lambda>_. sv) r (map_of (send_conn sv) n) = Some (Inr sv')"
    by (auto simp: bank_step_def bind_go_return return_go_def)
  from handleBranch_cases [OF this] ok show ?thesis
    by (auto simp: keeps_def drops_def dest: DoCommit_bank_ok)
qed

interpretation bank: invariant_machine bank_step any_bank_event bank_ok
  by unfold_locales (rule bank_step_ok)

end
