(* ===== verification/BankMessages.thy ===== *)
theory BankMessages
  imports BankProtocol
begin

text \<open>
  The messages on the wire: parsing inverts the client's and the branches' formatting, an
  operation on another branch's account is forwarded, executed there and its reply relayed,
  and the counting of \<open>COMMIT_READY\<close>. A reader that gets two messages in one
  \<open>Read\<close> sees one.
\<close>

section \<open>A formatter and its parser\<close>

text \<open>What a value sent as text needs: the text is one word, and reading it gives the value back.\<close>

locale codec =
  fixes print :: "'a \<Rightarrow> string" and parse :: "string \<Rightarrow> 'a \<times> num_error option" and valid :: "'a \<Rightarrow> bool"
  assumes parse_print: "valid x \<Longrightarrow> parse (print x) = (x, None)"
    and print_word: "is_word (print x)"
begin

lemma checked_print: "valid x \<Longrightarrow> checked (parse (print x)) = Inr x"
  by (simp add: parse_print checked_def)

lemma print_eq: "valid x \<Longrightarrow> valid y \<Longrightarrow> print x = print y \<longleftrightarrow> x = y"
  by (metis parse_print fst_conv)

lemma Fields_print: "Fields (print x @ '' '' @ s) = print x # Fields s" "Fields (print x) = [print x]"
  by (simp_all add: Fields_cons [simplified] Fields_word print_word)

end

interpretation stamp: codec FormatInt ParseInt int64_range
  by unfold_locales (simp_all add: ParseInt_FormatInt FormatInt_word)

interpretation amount: codec Itoa Atoi "\<lambda>_. True"
  by unfold_locales (simp_all add: Atoi_Itoa Itoa_word)

section \<open>Parsing an operation\<close>

definition plain :: "string \<Rightarrow> bool" where
  "plain s \<longleftrightarrow> no_space s \<and> CHR ''.'' \<notin> set s"

definition target :: "string \<Rightarrow> string \<Rightarrow> string" where
  "target br acc = br @ CHR ''.'' # acc"

lemma target_word: "plain br \<Longrightarrow> plain acc \<Longrightarrow> is_word (target br acc)"
  by (simp add: target_def is_word_def plain_def no_space_def is_space_def)

lemma Split_target: "plain br \<Longrightarrow> plain acc \<Longrightarrow> Split (target br acc) (CHR ''.'') = [br, acc]"
  by (simp add: target_def plain_def Split_pair)

lemma Init_target_eq:
  "plain br \<Longrightarrow> plain acc \<Longrightarrow> Init_target (target br acc) op = Inr (op\<lparr>op_branch := br, op_account := acc\<rparr>)"
  by (simp add: Init_target_def Split_target idx_def)

lemmas keyword_words = is_word_def no_space_def is_space_def

text \<open>The text of a deposit or a withdrawal, of a balance query, and of commit and abort.\<close>

definition write_text :: "string \<Rightarrow> string \<Rightarrow> string \<Rightarrow> int64 \<Rightarrow> int \<Rightarrow> string" where
  "write_text m br acc am ts = Join [m, target br acc, Itoa am, FormatInt ts] '' ''"

definition balance_text :: "string \<Rightarrow> string \<Rightarrow> int \<Rightarrow> string" where
  "balance_text br acc ts = Join [''BALANCE'', target br acc, FormatInt ts] '' ''"

lemma write_method_word: "m \<in> {''DEPOSIT'', ''WITHDRAW''} \<Longrightarrow> is_word m"
  by (auto simp: keyword_words)

lemma write_text_words:
  assumes "plain br" "plain acc" "m \<in> {''DEPOSIT'', ''WITHDRAW''}"
  shows "Fields (write_text m br acc am ts) = [m, target br acc, Itoa am, FormatInt ts]"
    "TrimSpace (write_text m br acc am ts @ [newline]) = write_text m br acc am ts"
proof -
  have w: "list_all is_word [m, target br acc, Itoa am, FormatInt ts]"
    using assms by (simp only: list.pred_inject(2) list.pred_inject(1) write_method_word target_word amount.print_word stamp.print_word simp_thms)
  show "Fields (write_text m br acc am ts) = [m, target br acc, Itoa am, FormatInt ts]"
    unfolding write_text_def by (rule Fields_Join [OF w])
  show "TrimSpace (write_text m br acc am ts @ [newline]) = write_text m br acc am ts"
    unfolding write_text_def newline_def by (rule TrimSpace_line [OF w]) simp
qed

lemma Init_write_text:
  assumes "plain br" "plain acc" "int64_range ts" "m \<in> {''DEPOSIT'', ''WITHDRAW''}"
  shows "Init (write_text m br acc am ts) op =
    Inr (op\<lparr>op_method := m, op_branch := br, op_account := acc,
            op_amount := (if m = ''WITHDRAW'' then - am else am), op_timestamp := ts\<rparr>)"
  using assms
  by (auto simp: Init_def Let_def write_text_words idx_def Init_target_eq Init_amount_def
      amount.checked_print Init_timestamp_def stamp.checked_print len_def)

lemma balance_text_words:
  assumes "plain br" "plain acc"
  shows "Fields (balance_text br acc ts) = [''BALANCE'', target br acc, FormatInt ts]"
    "TrimSpace (balance_text br acc ts @ [newline]) = balance_text br acc ts"
proof -
  have "is_word ''BALANCE''" by (simp add: keyword_words)
  then have w: "list_all is_word [''BALANCE'', target br acc, FormatInt ts]"
    using assms by (simp only: list.pred_inject(2) list.pred_inject(1) target_word stamp.print_word simp_thms)
  show "Fields (balance_text br acc ts) = [''BALANCE'', target br acc, FormatInt ts]"
    unfolding balance_text_def by (rule Fields_Join [OF w])
  show "TrimSpace (balance_text br acc ts @ [newline]) = balance_text br acc ts"
    unfolding balance_text_def newline_def by (rule TrimSpace_line [OF w]) simp
qed

lemma Init_balance_text:
  assumes "plain br" "plain acc" "int64_range ts"
  shows "Init (balance_text br acc ts) op =
    Inr (op\<lparr>op_method := ''BALANCE'', op_branch := br, op_account := acc, op_timestamp := ts\<rparr>)"
  using assms
  by (simp add: Init_def Let_def balance_text_words idx_def Init_target_eq
      Init_timestamp_def stamp.checked_print len_def)

lemma tag_words:
  assumes "is_word tag"
  shows "Fields (reply_with tag ts) = [tag, FormatInt ts]"
    "TrimSpace (reply_with tag ts @ [newline]) = reply_with tag ts"
proof -
  have w: "list_all is_word [tag, FormatInt ts]"
    using assms by (simp only: list.pred_inject(2) list.pred_inject(1) stamp.print_word simp_thms)
  show "Fields (reply_with tag ts) = [tag, FormatInt ts]"
    unfolding reply_with_def by (rule Fields_Join [OF w])
  show "TrimSpace (reply_with tag ts @ [newline]) = reply_with tag ts"
    unfolding reply_with_def newline_def by (rule TrimSpace_line [OF w]) simp
qed

lemma Init_end_text:
  assumes "int64_range ts" "m \<in> {''COMMIT'', ''ABORT''}"
  shows "Init (reply_with m ts) op = Inr (op\<lparr>op_method := m, op_timestamp := ts\<rparr>)"
proof -
  have "is_word m" using assms(2) by (auto simp: keyword_words)
  then show ?thesis
    using assms
    by (auto simp: Init_def Let_def tag_words idx_def Init_timestamp_def stamp.checked_print)
qed

section \<open>Forwarding and relaying\<close>

lemma line_not_Closed: "s @ [newline] \<noteq> ''Closed''"
proof
  assume "s @ [newline] = ''Closed''"
  then have "last (s @ [newline]) = last ''Closed''" by (rule arg_cong)
  then show False by (simp add: newline_def)
qed

lemma write_method_cases:
  assumes "m \<in> {''DEPOSIT'', ''WITHDRAW''}"
  obtains "m = ''DEPOSIT''" | "m = ''WITHDRAW''"
  using assms by blast

lemma forward_write:
  assumes "plain br" "plain acc" "int64_range ts" "m \<in> {''DEPOSIT'', ''WITHDRAW''}"
    and "br \<noteq> me (env 0)" "br \<noteq> FormatInt ts" "map_of (send_conn (env 0)) br = Some c"
  shows "handleConnection env (Bytes (write_text m br acc am ts @ [newline])) rconn sconn =
    Some (Inr (False, (add_conns (FormatInt ts) rconn sconn (env 0))
      \<lparr>net := net (env 0) @ [Sent c (write_text m br acc am ts @ [newline])]\<rparr>))"
proof (rule write_method_cases [OF assms(4)])
  note msg = readClient_def line_not_Closed write_text_words [OF assms(1,2,4)] Init_write_text [OF assms(1-4)]
  show ?thesis if "m = ''DEPOSIT''"
    using assms(5-7) unfolding that
    by (simp add: handleConnection_def Let_def msg [unfolded that] add_conns_def AList.update_conv' sendtoClient_def)
  show ?thesis if "m = ''WITHDRAW''"
    using assms(5-7) unfolding that
    by (simp add: handleConnection_def Let_def msg [unfolded that] add_conns_def AList.update_conv' sendtoClient_def)
qed

definition write_op :: "string \<Rightarrow> string \<Rightarrow> string \<Rightarrow> int64 \<Rightarrow> int \<Rightarrow> Operation" where
  "write_op m br acc am ts = \<lparr>op_method = m, op_branch = br, op_account = acc,
     op_amount = (if m = ''WITHDRAW'' then - am else am), op_timestamp = ts\<rparr>"

lemma handleOperation_write:
  assumes "op_method op = m" "m \<in> {''DEPOSIT'', ''WITHDRAW''}"
  shows "handleOperation env op conn = Some (bind_res (write_sv op (env 0)) (\<lambda>(abort, sv).
    if abort then abort_reply (if m = ''WITHDRAW'' then ''NOT FOUND, ABORTED'' else ''ABORTED'') (op_timestamp op) conn sv
    else map_res (Pair False) (sendtoClient ''OK'' conn sv)))"
  using assms(2) by (rule write_method_cases) (use assms(1) in \<open>simp_all add: handleOperation_def Let_def\<close>)

lemma local_write_handled:
  assumes "plain br" "plain acc" "int64_range ts" "m \<in> {''DEPOSIT'', ''WITHDRAW''}" and "br = me (env 0)"
  shows "handleConnection env (Bytes (write_text m br acc am ts @ [newline])) rconn sconn =
    bind_go (handleOperation (\<lambda>t. add_conns (FormatInt ts) rconn sconn (env t)) (write_op m br acc am ts) (Some sconn))
      (\<lambda>(abort, sv). if abort then Some (Inr (True, sv\<lparr>net := net sv @ [Closed rconn, Closed sconn]\<rparr>))
        else return_go (False, sv))"
proof -
  have init: "Init (write_text m br acc am ts) zero_Operation = Inr (write_op m br acc am ts)"
    by (simp add: Init_write_text [OF assms(1-4)] write_op_def zero_Operation_def)
  have f: "op_timestamp (write_op m br acc am ts) = ts" "op_branch (write_op m br acc am ts) = br"
    "op_method (write_op m br acc am ts) \<noteq> ''COMMIT''"
    using assms(4) by (auto simp: write_op_def)
  have me: "me (add_conns k r c sv) = me sv" for k r c sv by (simp add: add_conns_def)
  have close: "bind_res (Close (Some rconn) sv) (\<lambda>sv. map_res (Pair True) (Close (Some sconn) sv)) =
    Inr (True, sv\<lparr>net := net sv @ [Closed rconn, Closed sconn]\<rparr>)" for sv
    by (simp add: Close_def map_res_def)
  show ?thesis
    unfolding handleConnection_def readClient_def write_text_words(2) [OF assms(1,2,4)]
    by (simp add: line_not_Closed write_text_words(2) [OF assms(1,2,4)] init f me assms(5) [symmetric] close Let_def
        cong: if_cong)
qed

lemma branch_executes_write:
  assumes "plain br" "plain acc" "int64_range ts" "m \<in> {''DEPOSIT'', ''WITHDRAW''}"
  shows "handleBranch env (Bytes (write_text m br acc am ts @ [newline])) conn =
    Some (bind_res (write_sv (write_op m br acc am ts) (env 0)) (\<lambda>(abort, sv).
            if abort then branch_abort (if m = ''WITHDRAW'' then ''NOT'' else ''ABORTED'') ts conn sv
            else sendtoClient (reply_with ''OK'' ts) conn sv))"
proof (rule write_method_cases [OF assms(4)])
  note msg = readClient_def write_text_words [OF assms(1,2,4)] Init_write_text [OF assms(1-4)]
  show ?thesis if "m = ''DEPOSIT''"
    unfolding that write_op_def
    by (simp add: handleBranch_def Let_def msg [unfolded that] branch_write_def zero_Operation_def idx_def
        cong: if_cong)
  show ?thesis if "m = ''WITHDRAW''"
    unfolding that write_op_def
    by (simp add: handleBranch_def Let_def msg [unfolded that] branch_write_def zero_Operation_def idx_def
        cong: if_cong)
qed

lemma relay_reply:
  assumes "int64_range ts" "is_word tag" "tag \<notin> {''DEPOSIT'', ''WITHDRAW'', ''BALANCE'', ''ABORT_Coordinator'',
      ''ABORTED'', ''NOT'', ''COMMIT_PREPARE'', ''COMMIT_READY'', ''COMMIT_OK''}"
    and "map_of (send_conn (env 0)) (FormatInt ts) = Some c"
  shows "handleBranch env (Bytes (reply_with tag ts @ [newline])) conn =
    Some (Inr ((env 0)\<lparr>net := net (env 0) @ [Sent c (tag @ [newline])]\<rparr>))"
  using assms
  by (simp add: handleBranch_def Let_def readClient_def tag_words relay_def idx_def slice_to_def sendtoClient_def)

section \<open>The second phase\<close>

definition others :: "Server \<Rightarrow> string list" where
  "others sv = filter (\<lambda>n. n \<noteq> me sv) (map snd (name sv))"

lemma broadcast_sends:
  assumes "\<forall>n\<in>set (others sv). map_of (send_conn sv) n \<noteq> None"
  shows "broadcast msg sv =
    Inr (sv\<lparr>net := net sv @ map (\<lambda>n. Sent (the (map_of (send_conn sv) n)) (msg @ [newline])) (others sv)\<rparr>)"
proof -
  have "for_res ns (\<lambda>n sv. if n \<noteq> me sv then sendtoClient msg (map_of (send_conn sv) n) sv else Inr sv) s =
    Inr (s\<lparr>net := net s @ map (\<lambda>n. Sent (the (map_of (send_conn s) n)) (msg @ [newline])) (filter (\<lambda>n. n \<noteq> me s) ns)\<rparr>)"
    if "\<forall>n\<in>set (filter (\<lambda>n. n \<noteq> me s) ns). map_of (send_conn s) n \<noteq> None" for ns s
    using that by (induction ns arbitrary: s) (auto simp: sendtoClient_def)
  from this [of sv "map snd (name sv)"] assms show ?thesis by (simp add: broadcast_def others_def)
qed

lemma COMMIT_READY_message:
  "handleBranch env (Bytes (reply_with ''COMMIT_READY'' ts @ [newline])) conn =
     commit_ready [''COMMIT_READY'', FormatInt ts] (env 0)"
  by (simp add: handleBranch_def Let_def readClient_def tag_words keyword_words idx_def)

lemma commit_ready_waits:
  assumes "get_or 0 (commitCount sv) (FormatInt ts) \<noteq> 3"
  shows "commit_ready [''COMMIT_READY'', FormatInt ts] sv = Some (Inr (count_ready (FormatInt ts) sv))"
  using assms by (simp add: commit_ready_def idx_def Let_def count_ready_def return_go_def)

lemma commit_ready_fourth:
  assumes "get_or 0 (commitCount sv) (FormatInt ts) = 3" "int64_range ts"
    and "DoCommit ts (count_ready (FormatInt ts) sv) = Some (Inr s1)" "bank_ok sv"
    and "\<forall>n\<in>set (others sv). map_of (send_conn sv) n \<noteq> None"
    and "map_of (send_conn sv) (FormatInt ts) = Some c" "map_of (read_conn sv) (FormatInt ts) = Some d"
  shows "commit_ready [''COMMIT_READY'', FormatInt ts] sv = Some (Inr (s1\<lparr>net := net s1 @
    map (\<lambda>n. Sent (the (map_of (send_conn sv) n)) (reply_with ''COMMIT_OK'' ts @ [newline])) (others sv) @
    [Sent c (''COMMIT OK'' @ [newline]), Closed c, Closed d]\<rparr>))"
proof -
  have "bank_ok (count_ready (FormatInt ts) sv)"
    using assms(4) by (simp add: count_ready_def bank_ok_def)
  note st = DoCommit_state(5-8) [OF this assms(3)]
  have f: "send_conn s1 = send_conn sv" "read_conn s1 = read_conn sv" "name s1 = name sv" "me s1 = me sv"
    using st by (simp_all add: count_ready_def)
  have oth: "others s1 = others sv" by (simp add: others_def f)
  have "broadcast (reply_with ''COMMIT_OK'' ts) s1 = Inr (s1\<lparr>net := net s1 @
    map (\<lambda>n. Sent (the (map_of (send_conn sv) n)) (reply_with ''COMMIT_OK'' ts @ [newline])) (others sv)\<rparr>)"
    using broadcast_sends [of s1 "reply_with ''COMMIT_OK'' ts"] assms(5) by (simp add: oth f)
  moreover have "commit_ready [''COMMIT_READY'', FormatInt ts] sv =
    Some (bind_res (broadcast (reply_with ''COMMIT_OK'' ts) s1) (reply_and_close ''COMMIT OK'' (FormatInt ts)))"
    using assms(1-3) by (simp add: commit_ready_def idx_def Let_def count_ready_def stamp.checked_print reply_with_def)
  ultimately show ?thesis
    by (simp add: reply_and_close_def sendtoClient_def Close_def f assms(6,7))
qed

text \<open>\<open>k\<close> answers in a row.\<close>

fun ready_messages :: "nat \<Rightarrow> int \<Rightarrow> Server \<Rightarrow> Server go" where
  "ready_messages 0 ts sv = return_go sv"
| "ready_messages (Suc k) ts sv =
     bind_go (handleBranch (\<lambda>_. sv) (Bytes (reply_with ''COMMIT_READY'' ts @ [newline])) None) (ready_messages k ts)"

lemma ready_messages_count:
  assumes "get_or 0 (commitCount sv) (FormatInt ts) = c" "0 \<le> c" "c + int k \<le> 3"
  shows "\<exists>counts. ready_messages k ts sv = Some (Inr (sv\<lparr>commitCount := counts\<rparr>)) \<and>
    get_or 0 counts (FormatInt ts) = c + int k"
  using assms
proof (induction k arbitrary: sv c)
  case 0
  then show ?case by (auto simp: return_go_def intro!: exI [of _ "commitCount sv"])
next
  case (Suc k)
  have "ready_messages (Suc k) ts sv = ready_messages k ts (count_ready (FormatInt ts) sv)"
    using Suc.prems by (simp add: COMMIT_READY_message commit_ready_waits)
  moreover have "get_or 0 (commitCount (count_ready (FormatInt ts) sv)) (FormatInt ts) = c + 1"
    using Suc.prems by (simp add: count_ready_def)
  ultimately show ?case
    using Suc.IH [of "count_ready (FormatInt ts) sv" "c + 1"] Suc.prems
    by (auto simp: count_ready_def add_ac)
qed

section \<open>Connecting the branches\<close>

definition branch_names :: "string list" where
  "branch_names = [''A'', ''B'', ''C'', ''D'', ''E'']"

text \<open>
  The port that branch \<open>a\<close> dials branch \<open>b\<close> from is the port from which
  \<open>b\<close> recognises \<open>a\<close>.
\<close>

lemma find_port_lookup:
  "list_all (\<lambda>a. list_all (\<lambda>b. a = b \<or>
     (case map_of lookup (a @ b) of None \<Rightarrow> False | Some p \<Rightarrow> int64_range p \<and> find_port p lookup = (False, a))) branch_names)
   branch_names"
  by code_simp

lemma judgeClient_port:
  assumes "CHR '':'' \<notin> set ip" "int64_range p"
  shows "judgeClient (ip @ CHR '':'' # FormatInt p) = Inr (find_port p lookup)"
proof -
  have "list_all is_digit (format_uint n)" for n by (rule format_uint_digits)
  then have "CHR '':'' \<notin> set (format_uint n)" for n
    by (auto simp: list_all_iff dest: is_digit_not)
  then have "CHR '':'' \<notin> set (FormatInt p)" by (simp add: FormatInt_def)
  with assms show ?thesis
    by (simp add: judgeClient_def Split_pair idx_def stamp.checked_print)
qed

end
