(* ===== verification/BankClient.thy ===== *)
theory BankClient
  imports BankMessages
begin

text \<open>
  \<open>mp3/client/client.go\<close>: the client's state, its configuration, the choice of a
  coordinator, and the loop of \<open>main\<close>, one turn per line of input. The response of the
  coordinator is an input of the turn (\<open>None\<close> if reading it failed).
\<close>

record Client =
  cl_me :: string
  cl_address :: "(string \<times> string) list"
  cl_port :: "(string \<times> string) list"
  currentTransaction :: bool
  stmsp :: string
  sent :: "string list"
  printed :: "string list"

definition new_Client :: "string \<Rightarrow> Client" where
  "new_Client self = \<lparr>cl_me = self, cl_address = [], cl_port = [], currentTransaction = False, stmsp = [],
     sent = [], printed = []\<rparr>"

definition client_readFromConfig :: "string list \<Rightarrow> Client \<Rightarrow> Client res" where
  "client_readFromConfig config_lines = for_res config_lines (\<lambda>line cl.
     let arr = Split line (CHR '' '')
     in bind_res (idx arr 0) (\<lambda>n. bind_res (idx arr 1) (\<lambda>ad. bind_res (idx arr 2) (\<lambda>pt.
        Inr (cl\<lparr>cl_address := AList.update n ad (cl_address cl), cl_port := AList.update n pt (cl_port cl)\<rparr>)))))"

text \<open>\<open>random\<close>, on the number that \<open>rand.Intn(100)\<close> gave.\<close>

definition random_branch :: "nat \<Rightarrow> string" where
  "random_branch num = [''A'', ''B'', ''C'', ''D'', ''E''] ! (num mod 5)"

definition connect_address :: "string \<Rightarrow> Client \<Rightarrow> string" where
  "connect_address coordinator cl =
     Join [get_or [] (cl_address cl) coordinator, get_or [] (cl_port cl) coordinator] '':''"

text \<open>\<open>connect_server\<close>: the address it dials until that works, and the one it listens on.\<close>

definition connect_server :: "nat \<Rightarrow> string \<Rightarrow> Client \<Rightarrow> string \<times> string" where
  "connect_server num hostaddr cl = (connect_address (random_branch num) cl, Join [hostaddr, ''10050''] '':'')"

definition final_response :: "string \<Rightarrow> bool" where
  "final_response r \<longleftrightarrow> r = ''NOT FOUND, ABORTED'' \<or> r = ''ABORTED'' \<or> r = ''COMMIT OK''"

text \<open>One line of input, the clock, and what the coordinator answers.\<close>

type_synonym turn = "string \<times> int \<times> string option"

definition client_turn :: "turn \<Rightarrow> Client \<Rightarrow> Client" where
  "client_turn t cl = (case t of (line, now, answer) \<Rightarrow>
     if line = [] then cl
     else let input = TrimSpace line
     in if input = ''BEGIN'' then cl\<lparr>stmsp := FormatInt now, printed := printed cl @ [''OK'']\<rparr>
        else if currentTransaction cl then
          let cl = cl\<lparr>sent := sent cl @ [input @ '' '' @ stmsp cl @ [newline]]\<rparr>
          in (case answer of
                None \<Rightarrow> cl\<lparr>printed := printed cl @ [''Have error when listening for '']\<rparr>
              | Some response \<Rightarrow>
                  let response = TrimSpace response; cl = cl\<lparr>printed := printed cl @ [response]\<rparr>
                  in if final_response response then cl\<lparr>currentTransaction := False\<rparr> else cl)
        else cl)"

fun client_loop :: "turn list \<Rightarrow> Client \<Rightarrow> Client" where
  "client_loop [] cl = cl"
| "client_loop (t # ts) cl = (if \<not> currentTransaction cl then cl else client_loop ts (client_turn t cl))"

definition client_main :: "string list \<Rightarrow> string list option \<Rightarrow> turn list \<Rightarrow> Client res" where
  "client_main argv config turns =
     (if len argv \<noteq> 2 then Inl (Fatal ''usage: ./Client <id> <config.txt>'')
      else case config of
        None \<Rightarrow> Inl (Fatal ''open'')
      | Some ls \<Rightarrow> bind_res (client_readFromConfig ls (new_Client (argv ! 0))) (\<lambda>cl.
          Inr (client_loop turns (cl\<lparr>currentTransaction := True\<rparr>))))"

section \<open>One transaction of the client\<close>

definition is_command :: "turn \<Rightarrow> bool" where
  "is_command t \<longleftrightarrow> fst t \<noteq> [] \<and> TrimSpace (fst t) \<noteq> ''BEGIN''"

definition ends :: "turn \<Rightarrow> bool" where
  "ends t \<longleftrightarrow> (case snd (snd t) of None \<Rightarrow> False | Some r \<Rightarrow> final_response (TrimSpace r))"

definition message :: "string \<Rightarrow> turn \<Rightarrow> string" where
  "message stamp t = TrimSpace (fst t) @ '' '' @ stamp @ [newline]"

text \<open>The commands up to and including the first whose answer ends the transaction.\<close>

fun until_end :: "turn list \<Rightarrow> turn list" where
  "until_end [] = []"
| "until_end (t # ts) = (if ends t then [t] else t # until_end ts)"

lemma client_turn_command:
  assumes "is_command t" "currentTransaction cl"
  shows "sent (client_turn t cl) = sent cl @ [message (stmsp cl) t]"
    "stmsp (client_turn t cl) = stmsp cl"
    "currentTransaction (client_turn t cl) \<longleftrightarrow> \<not> ends t"
  using assms
  by (auto simp: client_turn_def Let_def is_command_def ends_def message_def split: prod.splits option.splits)

lemma client_loop_commands:
  assumes "list_all is_command ts" "currentTransaction cl"
  shows "sent (client_loop ts cl) = sent cl @ map (message (stmsp cl)) (until_end ts)"
    "currentTransaction (client_loop ts cl) \<longleftrightarrow> \<not> list_ex ends ts"
proof -
  have stop: "client_loop ts cl = cl" if "\<not> currentTransaction cl" for ts cl
    using that by (cases ts) auto
  have "sent (client_loop ts cl) = sent cl @ map (message (stmsp cl)) (until_end ts) \<and>
    (currentTransaction (client_loop ts cl) \<longleftrightarrow> \<not> list_ex ends ts)"
    using assms
  proof (induction ts arbitrary: cl)
    case (Cons t ts)
    then have t: "is_command t" "list_all is_command ts" by simp_all
    note step = client_turn_command [OF t(1) Cons.prems(2)]
    show ?case
      using Cons.IH [OF t(2), of "client_turn t cl"] Cons.prems(2) step stop
      by (cases "ends t") simp_all
  qed simp
  then show "sent (client_loop ts cl) = sent cl @ map (message (stmsp cl)) (until_end ts)"
    "currentTransaction (client_loop ts cl) \<longleftrightarrow> \<not> list_ex ends ts" by simp_all
qed

text \<open>The line a user types for a write, and the message it becomes.\<close>

definition write_line :: "string \<Rightarrow> string \<Rightarrow> string \<Rightarrow> int64 \<Rightarrow> string" where
  "write_line m br acc am = Join [m, target br acc, Itoa am] '' '' @ [newline]"

lemma write_line_words:
  assumes "plain br" "plain acc" "m \<in> {''DEPOSIT'', ''WITHDRAW''}"
  shows "TrimSpace (write_line m br acc am) = Join [m, target br acc, Itoa am] '' ''"
    "Fields (Join [m, target br acc, Itoa am] '' '') = [m, target br acc, Itoa am]"
proof -
  have w: "list_all is_word [m, target br acc, Itoa am]"
    using assms by (simp only: list.pred_inject(2) list.pred_inject(1) write_method_word target_word
        amount.print_word simp_thms)
  show "TrimSpace (write_line m br acc am) = Join [m, target br acc, Itoa am] '' ''"
    unfolding write_line_def newline_def by (rule TrimSpace_line [OF w]) simp
  show "Fields (Join [m, target br acc, Itoa am] '' '') = [m, target br acc, Itoa am]"
    by (rule Fields_Join [OF w])
qed

lemma message_write:
  assumes "plain br" "plain acc" "m \<in> {''DEPOSIT'', ''WITHDRAW''}"
  shows "message (FormatInt ts) (write_line m br acc am, t) = write_text m br acc am ts @ [newline]"
  by (simp add: message_def write_line_words [OF assms] write_text_def)

lemma TrimSpace_tail:
  assumes "s \<noteq> []" "\<not> is_space (hd s)" "\<not> is_space (last s)" "is_space c" "is_space d"
  shows "TrimSpace (s @ [c, d]) = s"
proof -
  have "dropWhile is_space (s @ [c, d]) = s @ [c, d]" using assms by (cases s) auto
  moreover have "dropWhile is_space (rev s) = rev s" using assms by (cases s rule: rev_cases) auto
  ultimately show ?thesis using assms(4,5) by (simp add: TrimSpace_def)
qed

text \<open>Without a \<open>BEGIN\<close> the stamp is empty, and the coordinator's parser panics.\<close>

lemma message_without_begin:
  assumes "plain br" "plain acc" "m \<in> {''DEPOSIT'', ''WITHDRAW''}"
  shows "\<exists>e. handleConnection env (Bytes (message [] (write_line m br acc am, t))) rconn sconn = Some (Inl e)"
proof -
  have msg: "message [] (write_line m br acc am, t) = Join [m, target br acc, Itoa am] '' '' @ [CHR '' '', newline]"
    by (simp add: message_def write_line_words [OF assms])
  have w: "list_all is_word [m, target br acc, Itoa am]"
    using assms by (simp only: list.pred_inject(2) list.pred_inject(1) write_method_word target_word
        amount.print_word simp_thms)
  have trim: "TrimSpace (Join [m, target br acc, Itoa am] '' '' @ [CHR '' '', newline]) = Join [m, target br acc, Itoa am] '' ''"
    by (rule TrimSpace_tail) (use Join_ends [OF w] in \<open>simp_all add: newline_def is_space_def [of "CHR 0x0A"] del: Join.simps\<close>)
  have "\<exists>e. Init (Join [m, target br acc, Itoa am] '' '') zero_Operation = Inl e"
    using write_line_words(2) [OF assms, of am] assms(3)
    by (auto simp: Init_def Let_def idx_def len_def simp del: Join.simps)
  moreover have "Join [m, target br acc, Itoa am] '' '' @ [CHR '' '', newline] \<noteq> ''Closed''"
    using line_not_Closed [of "Join [m, target br acc, Itoa am] '' '' @ '' ''"] by simp
  ultimately show ?thesis
    by (auto simp: msg handleConnection_def Let_def readClient_def trim simp del: Join.simps)
qed

end
