(* ===== verification/BankProperties.thy ===== *)
theory BankProperties
  imports BankClient
begin

text \<open>
  The properties of the bank: a branch's timestamp ordering and commit, its message
  handlers, and the client, each with a concrete state at which it applies, and the schedules
  that show where the code departs from its own comments.
\<close>

section \<open>States for the witnesses\<close>

definition deposit :: "string \<Rightarrow> int64 \<Rightarrow> int \<Rightarrow> Operation" where
  "deposit acc am ts = \<lparr>op_method = ''DEPOSIT'', op_branch = ''A'', op_account = acc, op_amount = am, op_timestamp = ts\<rparr>"

definition withdraw :: "string \<Rightarrow> int64 \<Rightarrow> int \<Rightarrow> Operation" where
  "withdraw acc am ts =
     \<lparr>op_method = ''WITHDRAW'', op_branch = ''A'', op_account = acc, op_amount = - am, op_timestamp = ts\<rparr>"

definition balance :: "string \<Rightarrow> int \<Rightarrow> Operation" where
  "balance acc ts = \<lparr>op_method = ''BALANCE'', op_branch = ''A'', op_account = acc, op_amount = 0, op_timestamp = ts\<rparr>"

definition branch_A :: Server where
  "branch_A = new_Server ''A''"

text \<open>An account with a committed balance of 10, written at time 1.\<close>

definition funded :: Server where
  "funded = branch_A\<lparr>accounts := [(''x'', \<lparr>acc_name = ''x'', committedValue = 10, committedTimestamp = 1,
     amount = 10, createdTimestamp = 1\<rparr>)], TW := [(''x'', [])]\<rparr>"

lemma bank_ok_A: "bank_ok branch_A"
  by (simp add: branch_A_def bank_ok_new)

lemma bank_ok_funded: "bank_ok funded"
  by (simp add: bank_ok_def funded_def branch_A_def new_Server_def range_keys_def stamps_def get_or_def)

definition written_state :: "Operation list \<Rightarrow> Server \<Rightarrow> Server" where
  "written_state ops sv = snd (projr (write_all ops sv))"

lemma bank_ok_written:
  "bank_ok sv \<Longrightarrow> list_all is_write ops \<Longrightarrow> bank_ok (written_state ops sv)"
proof -
  have "\<exists>abort sv'. write_all ops sv = Inr (abort, sv') \<and> bank_ok sv'" if "bank_ok sv" "list_all is_write ops" for ops sv
    using that
  proof (induction ops arbitrary: sv)
    case (Cons op ops)
    then obtain abort s where "write_sv op sv = Inr (abort, s)" "bank_ok s" using write_ok [of sv op] by auto
    with Cons show ?case by (cases abort) auto
  qed auto
  then show "bank_ok sv \<Longrightarrow> list_all is_write ops \<Longrightarrow> bank_ok (written_state ops sv)"
    unfolding written_state_def by fastforce
qed

section \<open>Transactions\<close>

text \<open>C7: run on a branch without other tentative writes, a transaction of deposits and
  withdrawals, of a timestamp at which no account of the branch was created or read, always ends,
  and is atomic: when its writes are accepted and it passes the check, it commits and every balance
  becomes what the abstract bank computes by posting the operations one by one, with no touched
  account negative; otherwise it aborts and every balance is what it was; in both cases no
  tentative write remains; or it has to abort and the abort panics, which happens only where some
  account has fewer readers than there are accounts with readers.\<close>

theorem transaction_atomic:
  assumes "bank_ok sv" "quiescent sv" "transaction_ops ts ops" "fresh_stamp ts sv"
  shows "(\<exists>committed sv'. transaction ts ops sv = Some (Inr (committed, sv')) \<and> bank_ok sv' \<and> quiescent sv' \<and>
      balances sv' = (if committed then posted ops (balances sv) else balances sv) \<and>
      (committed \<longrightarrow> (\<forall>op\<in>set ops. \<not> negative (balances sv' (op_account op)))) \<and>
      committed = passes ts ops sv) \<or>
    transaction ts ops sv = Some (Inl Index_out_of_range) \<and> \<not> passes ts ops sv \<and>
      (\<exists>(acc, readers) \<in> set (RTS sv). length readers < length (RTS sv))"
  using transaction_refines [OF assms] prunable_fresh [OF assms(1,4)] by (fastforce simp: not_le)

lemma funded_facts:
  "quiescent funded" "fresh_stamp 5 funded" "RTS funded = []"
  by (simp_all add: quiescent_def fresh_stamp_def funded_def branch_A_def new_Server_def get_or_def)

theorem transaction_atomic_witness:
  "\<exists>committed sv'. transaction 5 [deposit ''x'' 3 5, withdraw ''x'' 20 5] funded = Some (Inr (committed, sv')) \<and>
     \<not> committed \<and> balances sv' ''x'' = 10"
proof -
  have ops: "transaction_ops 5 [deposit ''x'' 3 5, withdraw ''x'' 20 5]"
    by (simp add: transaction_ops_def is_write_def deposit_def withdraw_def)
  let ?ops = "[deposit ''x'' 3 5, withdraw ''x'' 20 5]"
  have "\<not> (\<exists>(acc, readers) \<in> set (RTS funded). length readers < length (RTS funded))"
    by (simp add: funded_facts(3))
  then obtain committed sv' where t: "transaction 5 ?ops funded = Some (Inr (committed, sv'))"
    "balances sv' = (if committed then posted ?ops (balances funded) else balances funded)"
    "committed \<longrightarrow> (\<forall>op\<in>set ?ops. \<not> negative (balances sv' (op_account op)))"
    using transaction_atomic [OF bank_ok_funded funded_facts(1) ops funded_facts(2)] by blast
  have x: "op_account (deposit ''x'' 3 5) = ''x''" by (simp add: deposit_def)
  have b: "balances funded ''x'' = 10"
    by (simp add: balances_def funded_def get_or_def)
  have "posted [deposit ''x'' 3 5, withdraw ''x'' 20 5] (balances funded) ''x'' = -7"
    by (simp add: posted_def post_def deposit_def withdraw_def b)
  moreover have "negative (-7)" by (simp add: negative_def)
  ultimately have no: "\<not> committed" using t(2) t(3) x by (auto split: if_splits)
  then have "balances sv' ''x'' = 10" using t(2) b by simp
  with t(1) no show ?thesis by blast
qed

text \<open>C13: the write rule. A deposit or withdrawal always returns; it is performed exactly when
  the account exists or is created by a deposit, no later transaction has read the account,
  and, if there are tentative writes, none later has committed. It then adds its amount to
  the transaction's own entry and to no other; rejected, it leaves every entry alone. A deposit
  on a missing account creates it, with nothing committed, even if it is then rejected. No
  other account, no committed balance, no read timestamp, no connection and no counter changes,
  and nothing is sent.\<close>

theorem write_rule:
  assumes "bank_ok sv" "is_write op"
  shows "\<exists>abort sv'. write_sv op sv = Inr (abort, sv') \<and> bank_ok sv' \<and> (abort \<longleftrightarrow> \<not> write_allowed op sv) \<and>
    sv' = sv\<lparr>accounts := accounts sv', TW := TW sv'\<rparr> \<and> balances sv' = balances sv \<and>
    (\<forall>acc. map_of (accounts sv') acc =
       (if acc = op_account op \<and> op_method op = ''DEPOSIT'' \<and> map_of (accounts sv) acc = None
        then Some \<lparr>acc_name = acc, committedValue = 0, committedTimestamp = 0, amount = op_amount op,
               createdTimestamp = op_timestamp op\<rparr>
        else map_of (accounts sv) acc)) \<and>
    (\<forall>acc. filter (\<lambda>w. wv_timestamp w \<noteq> op_timestamp op) (slot (TW sv') acc) =
           filter (\<lambda>w. wv_timestamp w \<noteq> op_timestamp op) (slot (TW sv) acc) \<and>
       tentative_of (op_timestamp op) (slot (TW sv') acc) = tentative_of (op_timestamp op) (slot (TW sv) acc) +
         (if \<not> abort \<and> acc = op_account op then op_amount op else 0))"
proof -
  obtain abort sv' where r: "write_sv op sv = Inr (abort, sv')" "bank_ok sv'" using write_ok [OF assms] by blast
  have bal: "balances (with_account op sv) = balances sv" by (simp add: balances_def fun_eq_iff)
  have frame: "sv' = sv\<lparr>accounts := accounts sv', TW := TW sv'\<rparr>"
    using r(1) assms(2) by (auto simp: is_write_def write_deposit write_withdraw with_account_def split: if_splits)
  have acc: "map_of (accounts sv') acc =
      (if acc = op_account op \<and> op_method op = ''DEPOSIT'' \<and> map_of (accounts sv) acc = None
       then Some \<lparr>acc_name = acc, committedValue = 0, committedTimestamp = 0, amount = op_amount op,
              createdTimestamp = op_timestamp op\<rparr> else map_of (accounts sv) acc)" for acc
    using r(1) assms(2)
    by (auto simp: is_write_def write_deposit write_withdraw with_account_def new_account_def AList.update_conv'
        split: if_splits)
  have "(abort \<longleftrightarrow> \<not> write_allowed op sv) \<and> balances sv' = balances sv \<and>
    (\<forall>acc. filter (\<lambda>w. wv_timestamp w \<noteq> op_timestamp op) (slot (TW sv') acc) =
           filter (\<lambda>w. wv_timestamp w \<noteq> op_timestamp op) (slot (TW sv) acc) \<and>
       tentative_of (op_timestamp op) (slot (TW sv') acc) = tentative_of (op_timestamp op) (slot (TW sv) acc) +
         (if \<not> abort \<and> acc = op_account op then op_amount op else 0))"
    using r assms(2) bal
    by (auto simp: is_write_def write_deposit write_withdraw tentative_write_others tentative_write_own
        split: if_splits)
  then show ?thesis using r frame acc by blast
qed

theorem write_rule_witness:
  "\<exists>sv'. write_sv (deposit ''y'' 4 7) funded = Inr (False, sv') \<and> tentative_of 7 (slot (TW sv') ''y'') = 4"
proof -
  have "is_write (deposit ''y'' 4 7)" by (simp add: is_write_def deposit_def)
  from write_rule [OF bank_ok_funded this] show ?thesis
    by (auto simp: write_allowed_def deposit_def funded_def branch_A_def new_Server_def get_or_def tentative_of_def)
qed

text \<open>C18: \<open>DoAbort\<close> returns exactly when every account's list of readers holds, besides the
  aborting transaction, at least as many entries as there are accounts with readers (its loop
  is bounded by the wrong length and otherwise indexes out of range). When it returns, no
  tentative write of the transaction and no account it created is left, and of its read
  timestamps those are gone that the loop looked at: the ones before as many entries of others as
  there are accounts with readers. The entries, readers and accounts of the others are untouched,
  and nothing but tentative writes, readers and accounts has changed.\<close>

theorem abort_returns_iff:
  assumes "bank_ok sv"
  shows "((\<exists>sv'. DoAbort ts sv = Inr sv') \<longleftrightarrow>
      (\<forall>(acc, readers)\<in>set (RTS sv). length (RTS sv) \<le> survivors ts readers)) \<and>
    (\<forall>sv'. DoAbort ts sv = Inr sv' \<longrightarrow> bank_ok sv' \<and>
      sv' = sv\<lparr>TW := TW sv', RTS := RTS sv', accounts := accounts sv'\<rparr> \<and>
      range_keys (TW sv') = range_keys (TW sv) \<and> range_keys (RTS sv') = range_keys (RTS sv) \<and>
      (\<forall>acc. slot (TW sv') acc = filter (\<lambda>w. wv_timestamp w \<noteq> ts) (slot (TW sv) acc) \<and>
         slot (RTS sv') acc = prune (length (RTS sv)) ts (slot (RTS sv) acc) \<and>
         filter (\<lambda>t. t \<noteq> ts) (slot (RTS sv') acc) = filter (\<lambda>t. t \<noteq> ts) (slot (RTS sv) acc) \<and>
         map_of (accounts sv') acc = (case map_of (accounts sv) acc of None \<Rightarrow> None
           | Some a \<Rightarrow> if createdTimestamp a \<noteq> ts then Some a else None)))"
proof -
  have iff: "(\<exists>sv'. DoAbort ts sv = Inr sv') \<longleftrightarrow> (\<forall>(acc, readers)\<in>set (RTS sv). length (RTS sv) \<le> survivors ts readers)"
    using DoAbort_ok [OF assms, of ts] by (simp add: ok_iff prunable_def list_all_iff)
  have frame: "sv' = sv\<lparr>TW := TW sv', RTS := RTS sv', accounts := accounts sv'\<rparr>" if "DoAbort ts sv = Inr sv'" for sv'
    by (rule DoAbort_result(5) [OF assms that])
  show ?thesis
    using iff frame DoAbort_result(1,2,3,4,6) [OF assms] DoAbort_keys [OF assms] by (simp add: prune_survivors)
qed

theorem abort_returns_iff_witness:
  "\<not> (\<exists>sv'. DoAbort 5 (funded\<lparr>RTS := [(''x'', [5])]\<rparr>) = Inr sv')"
proof -
  have ok: "bank_ok (funded\<lparr>RTS := [(''x'', [5])]\<rparr>)"
    using bank_ok_funded by (simp add: bank_ok_def range_keys_def)
  from abort_returns_iff [OF ok, of 5] show ?thesis by (simp add: survivors_def)
qed

text \<open>C16: \<open>DoCommit\<close> returns exactly when no account holds a tentative write of a later
  transaction (it would be neither removed nor stepped over, in a loop that holds
  \<open>mu_TW\<close>) and every account the transaction wrote still exists. It then installs in
  each of these accounts the balance that \<open>CheckCommit\<close> computed, with the transaction's
  timestamp, removes the transaction's entries, and changes no other account.\<close>

theorem commit_returns_iff:
  assumes "bank_ok sv"
  shows "((\<exists>sv'. DoCommit ts sv = Some (Inr sv')) \<longleftrightarrow>
      (\<forall>acc. no_newer ts (slot (TW sv) acc) \<and>
         (has_entry ts (slot (TW sv) acc) \<longrightarrow> map_of (accounts sv) acc \<noteq> None))) \<and>
    (\<forall>sv'. DoCommit ts sv = Some (Inr sv') \<longrightarrow>
      (\<forall>acc. slot (TW sv') acc = filter (\<lambda>w. wv_timestamp w \<noteq> ts) (slot (TW sv) acc) \<and>
         balances sv' acc = (if has_entry ts (slot (TW sv) acc) then balance_after ts sv acc else balances sv acc) \<and>
         (has_entry ts (slot (TW sv) acc) \<longrightarrow> committedTimestamp (account_of sv' acc) = ts)))"
proof -
  have "committedTimestamp (account_of sv' acc) = ts"
    if "DoCommit ts sv = Some (Inr sv')" "has_entry ts (slot (TW sv) acc)" for sv' acc
  proof -
    have "committable ts sv acc" using DoCommit_returns_iff [OF assms] that(1) by blast
    then show ?thesis
      using DoCommit_state(3) [OF assms that(1), of acc] that(2)
      by (auto simp: committable_def committed_account_def get_or_def)
  qed
  then show ?thesis
    using DoCommit_returns_iff [OF assms, of ts] DoCommit_state(2) [OF assms] DoCommit_balances [OF assms]
    by (simp add: committable_def)
qed

theorem commit_returns_iff_witness:
  "let sv = written_state [deposit ''x'' 1 5, deposit ''x'' 2 6] funded
   in \<not> (\<exists>sv'. DoCommit 5 sv = Some (Inr sv')) \<and> (\<exists>sv'. DoCommit 6 sv = Some (Inr sv'))"
proof -
  let ?sv = "written_state [deposit ''x'' 1 5, deposit ''x'' 2 6] funded"
  have ok: "bank_ok ?sv"
    by (rule bank_ok_written [OF bank_ok_funded]) (simp add: is_write_def deposit_def)
  have tw: "TW ?sv = [(''x'', [\<lparr>wv_timestamp = 5, wv_value = 1\<rparr>, \<lparr>wv_timestamp = 6, wv_value = 2\<rparr>])]"
    by code_simp
  have acc: "map_of (accounts ?sv) ''x'' \<noteq> None" by code_simp
  have slots: "slot (TW ?sv) a = (if a = ''x'' then [\<lparr>wv_timestamp = 5, wv_value = 1\<rparr>, \<lparr>wv_timestamp = 6, wv_value = 2\<rparr>] else [])" for a
    by (simp add: tw get_or_def)
  have "\<not> no_newer 5 (slot (TW ?sv) ''x'')" by (simp add: slots no_newer_def)
  then have five: "\<not> (\<exists>sv'. DoCommit 5 ?sv = Some (Inr sv'))"
    using commit_returns_iff [OF ok, of 5] by blast
  have "no_newer 6 (slot (TW ?sv) a) \<and> (has_entry 6 (slot (TW ?sv) a) \<longrightarrow> map_of (accounts ?sv) a \<noteq> None)" for a
    using acc by (simp add: slots no_newer_def)
  then have "\<exists>sv'. DoCommit 6 ?sv = Some (Inr sv')"
    using commit_returns_iff [OF ok, of 6] by blast
  with five show ?thesis unfolding Let_def by blast
qed

text \<open>C17: no overdraft at commit: if \<open>CheckCommit\<close> accepts a transaction and \<open>DoCommit\<close>
  runs in the same state, no balance becomes negative, even where the 64-bit sums wrap
  around.\<close>

theorem checked_commit_nonnegative:
  assumes "bank_ok sv" "CheckCommit ts sv = Inr (True, sv1)" "DoCommit ts sv1 = Some (Inr sv2)"
    and "\<forall>acc. \<not> negative (balances sv acc)"
  shows "\<forall>acc. \<not> negative (balances sv2 acc)"
proof
  fix acc
  have sv1: "sv1 = sv" and chk: "\<not> ((\<exists>acc. has_entry ts (slot (TW sv) acc)) \<and>
      (\<exists>acc\<in>set (range_keys (TW sv)). negative (balance_after ts sv acc)))"
    using assms(2) by (auto simp: CheckCommit_cases [OF assms(1)] map_res_Inr split: if_splits)
  show "\<not> negative (balances sv2 acc)"
    using chk absent_slot [of acc "TW sv"] assms(4) DoCommit_balances [OF assms(1) assms(3) [unfolded sv1], of acc]
    by (auto split: if_splits)
qed

theorem checked_commit_nonnegative_witness:
  "\<exists>sv2. DoCommit 5 (written_state [withdraw ''x'' 4 5] funded) = Some (Inr sv2) \<and> \<not> negative (balances sv2 ''x'')"
proof -
  let ?sv = "written_state [withdraw ''x'' 4 5] funded"
  have ok: "bank_ok ?sv" by (rule bank_ok_written [OF bank_ok_funded]) (simp add: is_write_def withdraw_def)
  have tw: "TW ?sv = [(''x'', [\<lparr>wv_timestamp = 5, wv_value = -4\<rparr>])]" by code_simp
  have acc: "accounts ?sv = accounts funded" by code_simp
  have nn: "\<forall>acc. \<not> negative (balances ?sv acc)"
    unfolding balances_def acc by (simp add: funded_def get_or_def negative_def zero_Account_def)
  have slots: "slot (TW ?sv) a = (if a = ''x'' then [\<lparr>wv_timestamp = 5, wv_value = -4\<rparr>] else [])" for a
    by (simp add: tw get_or_def)
  have x: "account_of ?sv ''x'' = \<lparr>acc_name = ''x'', committedValue = 10, committedTimestamp = 1,
     amount = 10, createdTimestamp = 1\<rparr>" "map_of (accounts ?sv) ''x'' \<noteq> None"
    unfolding acc by (simp_all add: funded_def get_or_def)
  have "\<not> negative (balance_after 5 ?sv ''x'')"
    unfolding balance_after_def slots x by (simp add: negative_def)
  moreover have "range_keys (TW ?sv) = [''x'']" unfolding tw by (simp add: range_keys_def)
  ultimately have chk: "CheckCommit 5 ?sv = Inr (True, ?sv)"
    using CheckCommit_cases [OF ok, of 5] by simp
  have "no_newer 5 (slot (TW ?sv) a) \<and> (has_entry 5 (slot (TW ?sv) a) \<longrightarrow> map_of (accounts ?sv) a \<noteq> None)" for a
    using x(2) by (simp add: slots no_newer_def)
  then obtain sv2 where "DoCommit 5 ?sv = Some (Inr sv2)"
    using DoCommit_returns_iff [OF ok, of 5] unfolding committable_def by blast
  with checked_commit_nonnegative [OF ok chk this nn] show ?thesis by blast
qed

end
