(* ===== verification/BankRules.thy ===== *)
theory BankRules
  imports BankProperties
begin

text \<open>
  Properties of the reads of a branch: the read rule and its wait, and what a recorded read
  protects.
\<close>

section \<open>Reads\<close>

lemma read_rule_known:
  assumes "map_of (accounts sv) (op_account op) = Some a"
  defines "older \<equiv> filter (\<lambda>w. wv_timestamp w \<le> op_timestamp op) (slot (TW sv) (op_account op))"
  shows "read_rule op sv =
    (if op_timestamp op \<le> committedTimestamp a then Read_abort
     else if older = [] then Read_value (committedValue a)
       (sv\<lparr>RTS := AList.update (op_account op) (slot (RTS sv) (op_account op) @ [op_timestamp op]) (RTS sv)\<rparr>)
     else if has_entry (op_timestamp op) older
     then Read_value (committedValue a + sum_list (map wv_value older)) sv
     else Read_wait (Max (insert (committedTimestamp a) (wv_timestamp ` set older))))"
proof -
  note older = older_def [folded older_entries_def]
  have sum: "balance_after (op_timestamp op) sv (op_account op) = committedValue a + sum_list (map wv_value older)"
    using assms(1) by (simp add: balance_after_def add_tentative_sum older older_entries_def get_or_def)
  have own: "has_entry (op_timestamp op) older \<longleftrightarrow> has_entry (op_timestamp op) (slot (TW sv) (op_account op))"
    by (auto simp: older older_entries_def has_entry_iff)
  have late: "op_timestamp op \<noteq> Max (insert (committedTimestamp a) (wv_timestamp ` set older))"
    if "\<not> has_entry (op_timestamp op) older" "committedTimestamp a < op_timestamp op"
    using that Max_in [of "insert (committedTimestamp a) (wv_timestamp ` set older)"] by (auto simp: has_entry_iff)
  show ?thesis
    using assms(1) read_rule_abort [of op sv] read_rule_committed [OF assms(1)] read_rule_cases [OF assms(1)]
      read_rule_own [OF assms(1)] sum own late
    by (auto simp: older not_le)
qed

text \<open>C14: the read rule. A read of an account that does not exist, or not after its committed
  version, aborts. Otherwise it takes the version of the latest transaction not after it: the
  committed balance, which is recorded in \<open>RTS\<close>; its own, with all older tentative writes
  added and nothing recorded; or that of an older transaction, for which it waits.\<close>

theorem read_rule_spec:
  "read_rule op sv =
    (case map_of (accounts sv) (op_account op) of
       None \<Rightarrow> Read_abort
     | Some a \<Rightarrow>
         let older = filter (\<lambda>w. wv_timestamp w \<le> op_timestamp op) (slot (TW sv) (op_account op))
         in if op_timestamp op \<le> committedTimestamp a then Read_abort
            else if older = [] then Read_value (committedValue a)
              (sv\<lparr>RTS := AList.update (op_account op) (slot (RTS sv) (op_account op) @ [op_timestamp op]) (RTS sv)\<rparr>)
            else if has_entry (op_timestamp op) older
            then Read_value (committedValue a + sum_list (map wv_value older)) sv
            else Read_wait (Max (insert (committedTimestamp a) (wv_timestamp ` set older))))"
proof (cases "map_of (accounts sv) (op_account op)")
  case None
  then show ?thesis using read_rule_abort [of op sv] by simp
next
  case (Some a)
  from read_rule_known [OF Some] show ?thesis by (simp only: Some option.case Let_def)
qed

text \<open>C37: a read that has to wait for the writer of an older version never returns if that
  writer's entry is still there when the loop first looks: the flag it clears is never set
  again, even after the writer has committed or aborted. Only if the entry is gone at the
  first look is the rule applied again. The branch may change between the two in any way;
  where it does not change at all, no waiting read returns.\<close>

theorem waiting_read_stuck:
  assumes "read_rule op (env t) = Read_wait TS"
  shows "read_sv env op t =
    (if has_entry TS (slot (TW (env (Suc t))) (op_account op)) then None else read_sv env op (Suc (Suc t))) \<and>
    read_sv (\<lambda>_. env t) op t = None"
  using read_sv_wait [where env = env and t = t, OF assms] read_sv_alone_wait [OF assms] by blast

theorem waiting_read_stuck_witness:
  "read_sv (\<lambda>t. if t < 2 then funded\<lparr>TW := [(''x'', [\<lparr>wv_timestamp = 4, wv_value = 1\<rparr>])]\<rparr> else funded)
     (balance ''x'' 5) 0 = None"
proof -
  let ?s = "funded\<lparr>TW := [(''x'', [\<lparr>wv_timestamp = 4, wv_value = 1\<rparr>])]\<rparr>"
  let ?env = "\<lambda>t::nat. if t < 2 then ?s else funded"
  have "read_rule (balance ''x'' 5) ?s = Read_wait 4"
    using read_rule_cases [of ?s "balance ''x'' 5"]
    by (simp add: funded_def branch_A_def new_Server_def balance_def get_or_def older_entries_def)
  then have "read_rule (balance ''x'' 5) (?env 0) = Read_wait 4" by simp
  from waiting_read_stuck [where env = ?env and t = 0, OF this] show ?thesis by (simp add: balance_def get_or_def)
qed

text \<open>C15: a recorded read is repeatable: after a transaction has read the committed balance,
  every deposit or withdrawal of an older transaction on the account is rejected and leaves
  tentative writes and readers as they are.\<close>

theorem read_blocks_older_write:
  assumes "map_of (accounts sv) (op_account op) = Some a"
    and "read_rule op sv = Read_value v sv'" "\<not> has_entry (op_timestamp op) (slot (TW sv) (op_account op))"
    and "is_write w" "op_account w = op_account op" "op_timestamp w < op_timestamp op"
  shows "v = committedValue a \<and> (\<exists>sv''. write_sv w sv' = Inr (True, sv'') \<and> TW sv'' = TW sv' \<and> RTS sv'' = RTS sv')"
proof -
  have "read_rule op sv \<noteq> Read_abort" "\<And>t. read_rule op sv \<noteq> Read_wait t" using assms(2) by simp_all
  then have v: "v = committedValue a" and rts: "op_timestamp op \<in> set (slot (RTS sv') (op_account op))"
    using read_rule_known [OF assms(1)] assms(2,3) by (auto simp: has_entry_iff split: if_splits)
  then have "\<not> write_allowed w sv'" using assms(5,6) by (force simp: write_allowed_def)
  with v assms(4) show ?thesis by (auto simp: is_write_def write_deposit write_withdraw)
qed

theorem read_blocks_older_write_witness:
  "\<exists>sv''. write_sv (withdraw ''x'' 1 4) (funded\<lparr>RTS := [(''x'', [5])]\<rparr>) = Inr (True, sv'')"
proof -
  have a: "map_of (accounts funded) (op_account (balance ''x'' 5)) = Some \<lparr>acc_name = ''x'', committedValue = 10,
      committedTimestamp = 1, amount = 10, createdTimestamp = 1\<rparr>"
    and r: "read_rule (balance ''x'' 5) funded = Read_value 10 (funded\<lparr>RTS := [(''x'', [5])]\<rparr>)"
    and n: "\<not> has_entry (op_timestamp (balance ''x'' 5)) (slot (TW funded) (op_account (balance ''x'' 5)))"
    and w: "is_write (withdraw ''x'' 1 4)" "op_account (withdraw ''x'' 1 4) = op_account (balance ''x'' 5)"
      "op_timestamp (withdraw ''x'' 1 4) < op_timestamp (balance ''x'' 5)"
    using read_rule_committed [of funded "balance ''x'' 5"]
    by (simp_all add: funded_def branch_A_def new_Server_def balance_def withdraw_def get_or_def is_write_def
        older_entries_def)
  show ?thesis using read_blocks_older_write [OF a r n w] by blast
qed

end
