(* ===== verification/BankExchange.thy ===== *)
theory BankExchange
  imports BankRules
begin

text \<open>
  Properties that span the client, the coordinating branch and the branch that owns an
  account: what a typed line becomes, who executes it, how the answers of the second phase
  are counted, how branches recognise each other, and when a client's session ends.
\<close>

section \<open>From the client's line to the owner of the account\<close>

lemma write_line_command:
  assumes "plain br" "plain acc" "m \<in> {''DEPOSIT'', ''WITHDRAW''}"
  shows "is_command (write_line m br acc am, t)"
proof -
  note words = write_line_words [OF assms]
  have "TrimSpace (write_line m br acc am) \<noteq> ''BEGIN''"
  proof
    assume "TrimSpace (write_line m br acc am) = ''BEGIN''"
    then have "Fields ''BEGIN'' = [m, target br acc, Itoa am]" using words [of am] by metis
    moreover have "Fields ''BEGIN'' = [''BEGIN'']" by (rule Fields_word) (simp add: keyword_words)
    ultimately show False by simp
  qed
  then show ?thesis by (simp add: is_command_def write_line_def)
qed

text \<open>C26: a deposit or withdrawal typed at the client is understood by every branch. The
  line, stamped and sent by the client, trimmed and parsed by \<open>Init\<close>, is the operation
  with the branch, account, amount (negated for a withdrawal, also at the ends of the 64-bit
  range) and timestamp that were meant.\<close>

theorem client_line_roundtrip:
  assumes "plain br" "plain acc" "int64_range ts" "m \<in> {''DEPOSIT'', ''WITHDRAW''}" "currentTransaction cl"
    and "stmsp cl = FormatInt ts"
  shows "\<exists>text. sent (client_turn (write_line m br acc am, now, answer) cl) = sent cl @ [text] \<and>
    Init (TrimSpace text) zero_Operation = Inr (write_op m br acc am ts)"
proof -
  have "is_command (write_line m br acc am, now, answer)" by (rule write_line_command [OF assms(1,2,4)])
  from client_turn_command(1) [OF this assms(5)] have
    "sent (client_turn (write_line m br acc am, now, answer) cl) = sent cl @ [write_text m br acc am ts @ [newline]]"
    by (simp add: message_write [OF assms(1,2,4)] assms(6))
  moreover have "Init (TrimSpace (write_text m br acc am ts @ [newline])) zero_Operation = Inr (write_op m br acc am ts)"
    by (simp add: write_text_words [OF assms(1,2,4)] Init_write_text [OF assms(1-4)] write_op_def zero_Operation_def)
  ultimately show ?thesis by blast
qed

theorem client_line_roundtrip_witness:
  "\<exists>text. sent (client_turn (write_line ''WITHDRAW'' ''B'' ''savings'' (-1), 0, None)
      ((new_Client ''c'')\<lparr>currentTransaction := True, stmsp := FormatInt 99\<rparr>)) = [text] \<and>
    Init (TrimSpace text) zero_Operation = Inr (write_op ''WITHDRAW'' ''B'' ''savings'' (-1) 99)"
  using client_line_roundtrip [of "''B''" "''savings''" 99 "''WITHDRAW''"
      "(new_Client ''c'')\<lparr>currentTransaction := True, stmsp := FormatInt 99\<rparr>" "-1" 0 None]
  by (simp add: plain_def no_space_def is_space_def int64_range_def new_Client_def)

text \<open>C25: an operation on another branch's account is forwarded to that branch, applied
  there, and its answer relayed. The coordinator sends the owner exactly the client's line
  and only registers the client's connections; the owner performs the write rule for that
  operation and answers \<open>OK\<close> with the timestamp, or answers \<open>ABORTED\<close> or
  \<open>NOT\<close> and aborts; the coordinator passes an \<open>OK\<close> to the client of that
  timestamp.\<close>

theorem forwarded_write:
  assumes "plain br" "plain acc" "int64_range ts" "m \<in> {''DEPOSIT'', ''WITHDRAW''}"
    and "br \<noteq> me (env 0)" "br \<noteq> FormatInt ts" "map_of (send_conn (env 0)) br = Some c"
  shows "\<exists>coord. handleConnection env (Bytes (write_text m br acc am ts @ [newline])) rconn sconn = Some (Inr (False, coord)) \<and>
    net coord = net (env 0) @ [Sent c (write_text m br acc am ts @ [newline])] \<and>
    coord = (add_conns (FormatInt ts) rconn sconn (env 0))\<lparr>net := net coord\<rparr> \<and>
    handleBranch owner (Bytes (write_text m br acc am ts @ [newline])) conn =
      Some (bind_res (write_sv (write_op m br acc am ts) (owner 0)) (\<lambda>(abort, sv).
        if abort then branch_abort (if m = ''WITHDRAW'' then ''NOT'' else ''ABORTED'') ts conn sv
        else sendtoClient (reply_with ''OK'' ts) conn sv)) \<and>
    handleBranch (\<lambda>_. coord) (Bytes (reply_with ''OK'' ts @ [newline])) conn' =
      Some (Inr (coord\<lparr>net := net coord @ [Sent sconn (''OK'' @ [newline])]\<rparr>))"
proof -
  let ?coord = "(add_conns (FormatInt ts) rconn sconn (env 0))
      \<lparr>net := net (env 0) @ [Sent c (write_text m br acc am ts @ [newline])]\<rparr>"
  have "map_of (send_conn ?coord) (FormatInt ts) = Some sconn" by (simp add: add_conns_def AList.update_conv')
  from relay_reply [of ts "''OK''" "\<lambda>_. ?coord", OF assms(3) _ _ this] have relayed:
    "handleBranch (\<lambda>_. ?coord) (Bytes (reply_with ''OK'' ts @ [newline])) conn' =
      Some (Inr (?coord\<lparr>net := net ?coord @ [Sent sconn (''OK'' @ [newline])]\<rparr>))"
    by (simp add: keyword_words)
  show ?thesis
    using forward_write [where env = env, OF assms, of am rconn sconn] branch_executes_write [OF assms(1-4), of owner am conn] relayed
    by (intro exI [of _ ?coord]) simp
qed

theorem forwarded_write_witness:
  "handleBranch (\<lambda>_. new_Server ''B'') (Bytes (write_text ''WITHDRAW'' ''B'' ''y'' 4 9 @ [newline])) (Some 0) =
    Some (branch_abort ''NOT'' 9 (Some 0) (new_Server ''B''))"
proof -
  let ?env = "\<lambda>_::nat. (new_Server ''A'')\<lparr>send_conn := [(''B'', 3)]\<rparr>"
  have pre: "plain ''B''" "plain ''y''" "int64_range 9" "''B'' \<noteq> me (?env 0)" "map_of (send_conn (?env 0)) ''B'' = Some 3"
    by (simp_all add: plain_def no_space_def is_space_def int64_range_def new_Server_def)
  have "''B'' \<noteq> FormatInt 9" by code_simp
  moreover have "write_sv (write_op ''WITHDRAW'' ''B'' ''y'' 4 9) (new_Server ''B'') = Inr (True, new_Server ''B'')"
    by (simp add: write_withdraw write_op_def write_allowed_def new_Server_def)
  ultimately show ?thesis
    using forwarded_write [where env = ?env and owner = "\<lambda>_. new_Server ''B''" and m = "''WITHDRAW''" and am = 4
        and rconn = 1 and sconn = 2 and conn = "Some 0" and conn' = None, OF pre(1-3) _ pre(4) _ pre(5)]
    by auto
qed

section \<open>The second phase of the commit\<close>

text \<open>A transaction is committed by the fourth \<open>COMMIT_READY\<close> and by no earlier one.
  After one, two or three answers only the count differs. With the fourth, if the commit
  itself returns, every account the transaction wrote holds the balance that
  \<open>CheckCommit\<close> computes and every other balance is unchanged, and the coordinator has
  printed its accounts, sent \<open>COMMIT_OK\<close> to each other branch and then
  \<open>COMMIT OK\<close> to the client, and closed the client's two connections, in this order.\<close>

theorem fourth_ready_commits:
  assumes "bank_ok sv" "int64_range ts" "get_or 0 (commitCount sv) (FormatInt ts) = 0"
    and "\<forall>n\<in>set (others sv). map_of (send_conn sv) n \<noteq> None"
    and "map_of (send_conn sv) (FormatInt ts) = Some c" "map_of (read_conn sv) (FormatInt ts) = Some d"
    and "\<forall>acc. committable ts sv acc"
  shows "(\<forall>k\<le>3. \<exists>counts. ready_messages k ts sv = Some (Inr (sv\<lparr>commitCount := counts\<rparr>))) \<and>
    (\<exists>s info. ready_messages 4 ts sv = Some (Inr s) \<and>
      (\<forall>acc. balances s acc = (if has_entry ts (slot (TW sv) acc) then balance_after ts sv acc else balances sv acc)) \<and>
      net s = net sv @ Printed info #
        map (\<lambda>n. Sent (the (map_of (send_conn sv) n)) (reply_with ''COMMIT_OK'' ts @ [newline])) (others sv) @
        [Sent c (''COMMIT OK'' @ [newline]), Closed c, Closed d])"
proof -
  have split: "ready_messages (k + l) ts s = bind_go (ready_messages k ts s) (ready_messages l ts)" for k l s
  proof (induction k arbitrary: s)
    case (Suc k)
    then show ?case
      by (cases "handleBranch (\<lambda>_. s) (Bytes (reply_with ''COMMIT_READY'' ts @ [newline])) None") 
         (auto simp: bind_go_def split: sum.splits)
  qed (simp add: bind_go_def return_go_def)
  have few: "\<exists>counts. ready_messages k ts sv = Some (Inr (sv\<lparr>commitCount := counts\<rparr>)) \<and>
      get_or 0 counts (FormatInt ts) = int k" if "k \<le> 3" for k
    using ready_messages_count [OF assms(3), of k] that by simp
  then obtain counts where three: "ready_messages 3 ts sv = Some (Inr (sv\<lparr>commitCount := counts\<rparr>))"
    "get_or 0 counts (FormatInt ts) = 3" by fastforce
  let ?s = "count_ready (FormatInt ts) (sv\<lparr>commitCount := counts\<rparr>)"
  have ok: "bank_ok ?s" using assms(1) by (simp add: count_ready_def bank_ok_def)
  have com: "\<forall>acc. committable ts ?s acc" using assms(7) by (simp add: committable_def count_ready_def)
  obtain s1 where s1: "DoCommit ts ?s = Some (Inr s1)"
    using DoCommit_returns_iff [OF ok] com by blast
  have "ready_messages 4 ts sv = commit_ready [''COMMIT_READY'', FormatInt ts] (sv\<lparr>commitCount := counts\<rparr>)"
    using split [of 3 1 sv] three(1) by (simp add: COMMIT_READY_message eval_nat_numeral bind_go_def return_go_def
        split: option.splits sum.splits)
  also have "\<dots> = Some (Inr (s1\<lparr>net := net s1 @
    map (\<lambda>n. Sent (the (map_of (send_conn sv) n)) (reply_with ''COMMIT_OK'' ts @ [newline])) (others sv) @
    [Sent c (''COMMIT OK'' @ [newline]), Closed c, Closed d]\<rparr>))"
    using commit_ready_fourth [of "sv\<lparr>commitCount := counts\<rparr>" ts s1 c d] three(2) assms(1,2,4-6) s1
    by (simp add: bank_ok_def others_def)
  finally show ?thesis
    using few DoCommit_balances [OF ok s1] DoCommit_state(10) [OF ok s1]
    by (auto simp: balances_def balance_after_def count_ready_def)
qed

text \<open>A coordinator with one other branch, about to commit a deposit of 4 made at time 7.\<close>

definition coordinator :: Server where
  "coordinator = funded\<lparr>name := [(\<lparr>ip_X = ''h'', ip_Y = ''1''\<rparr>, ''A''), (\<lparr>ip_X = ''h'', ip_Y = ''2''\<rparr>, ''B'')],
     send_conn := [(''B'', 3), (FormatInt 7, 1)], read_conn := [(FormatInt 7, 2)],
     TW := [(''x'', [\<lparr>wv_timestamp = 7, wv_value = 4\<rparr>])]\<rparr>"

theorem fourth_ready_commits_witness:
  "\<exists>s info. ready_messages 4 7 coordinator = Some (Inr s) \<and> balances s ''x'' = 14 \<and>
    net s = [Printed info, Sent 3 (reply_with ''COMMIT_OK'' 7 @ [newline]), Sent 1 (''COMMIT OK'' @ [newline]),
      Closed 1, Closed 2]"
proof -
  have B: "''B'' \<noteq> FormatInt 7" by code_simp
  note state = coordinator_def funded_def branch_A_def new_Server_def
  have slots: "slot (TW coordinator) a = (if a = ''x'' then [\<lparr>wv_timestamp = 7, wv_value = 4\<rparr>] else [])" for a
    by (simp add: coordinator_def get_or_def)
  have oth: "others coordinator = [''B'']" by (simp add: others_def state)
  have pre: "bank_ok coordinator" "int64_range 7" "get_or 0 (commitCount coordinator) (FormatInt 7) = 0"
    "\<forall>n\<in>set (others coordinator). map_of (send_conn coordinator) n \<noteq> None"
    "map_of (send_conn coordinator) (FormatInt 7) = Some 1" "map_of (read_conn coordinator) (FormatInt 7) = Some 2"
    "\<forall>acc. committable 7 coordinator acc"
    using B bank_ok_funded
    by (simp_all add: oth bank_ok_def slots stamps_def committable_def no_newer_def int64_range_def get_or_def)
       (simp_all add: state range_keys_def)
  have "balance_after 7 coordinator ''x'' = 14"
    by (simp add: balance_after_def slots) (simp add: state get_or_def)
  moreover have "net coordinator = []" by (simp add: state)
  ultimately show ?thesis
    using fourth_ready_commits [OF pre] B by (auto simp: slots oth) (auto simp: coordinator_def)
qed

section \<open>Sessions of a client\<close>

lemma client_readFromConfig_frame:
  "client_readFromConfig ls cl = Inr cl' \<Longrightarrow> sent cl' = sent cl \<and> printed cl' = printed cl"
proof (induction ls arbitrary: cl)
  case (Cons l ls)
  then show ?case by (fastforce simp: client_readFromConfig_def Let_def bind_res_Inr)
qed (simp add: client_readFromConfig_def)

text \<open>C27: a session of one transaction. Started with a readable configuration and given
  \<open>BEGIN\<close> and then commands, the client sends each command with the timestamp it took at
  \<open>BEGIN\<close>, in order, up to and including the first that is answered with
  \<open>COMMIT OK\<close>, \<open>ABORTED\<close> or \<open>NOT FOUND, ABORTED\<close>, nothing after it, and
  it stops exactly when such an answer came.\<close>

theorem client_session:
  assumes "client_main [self, file] (Some ls) ((''BEGIN'' @ [newline], now, answer) # ts) = Inr cl" "list_all is_command ts"
  shows "sent cl = map (message (FormatInt now)) (until_end ts) \<and> (currentTransaction cl \<longleftrightarrow> \<not> list_ex ends ts)"
proof -
  have trim: "TrimSpace (''BEGIN'' @ [newline]) = ''BEGIN''" by code_simp
  obtain cl0 where r: "client_readFromConfig ls (new_Client self) = Inr cl0"
    "cl = client_loop ((''BEGIN'' @ [newline], now, answer) # ts) (cl0\<lparr>currentTransaction := True\<rparr>)"
    using assms(1) by (auto simp: client_main_def bind_res_Inr len_def)
  have turn: "client_turn (''BEGIN'' @ [newline], now, answer) (cl0\<lparr>currentTransaction := True\<rparr>) =
    cl0\<lparr>currentTransaction := True, stmsp := FormatInt now, printed := printed cl0 @ [''OK'']\<rparr>"
    unfolding client_turn_def by (simp add: trim [simplified])
  have "cl = client_loop ts (cl0\<lparr>currentTransaction := True, stmsp := FormatInt now, printed := printed cl0 @ [''OK'']\<rparr>)"
    using r(2) turn by simp
  then show ?thesis
    using client_loop_commands [OF assms(2), of "cl0\<lparr>currentTransaction := True, stmsp := FormatInt now, printed := printed cl0 @ [''OK'']\<rparr>"]
      client_readFromConfig_frame [OF r(1)]
    by (simp add: new_Client_def)
qed

theorem client_session_witness:
  "\<exists>cl. client_main [''c'', ''config''] (Some [''A host 1234'']) [(''BEGIN'' @ [newline], 5, None),
      (write_line ''WITHDRAW'' ''A'' ''x'' 3, 6, Some (''NOT FOUND, ABORTED'' @ [newline])),
      (write_line ''DEPOSIT'' ''A'' ''x'' 3, 7, Some (''OK'' @ [newline]))] = Inr cl \<and>
    sent cl = [write_text ''WITHDRAW'' ''A'' ''x'' 3 5 @ [newline]] \<and> \<not> currentTransaction cl"
proof -
  let ?ts = "[(write_line ''WITHDRAW'' ''A'' ''x'' 3, 6::int, Some (''NOT FOUND, ABORTED'' @ [newline])),
      (write_line ''DEPOSIT'' ''A'' ''x'' 3, 7, Some (''OK'' @ [newline]))]"
  have pl: "plain ''A''" "plain ''x''" by (simp_all add: plain_def no_space_def is_space_def)
  have "\<exists>cl0. client_readFromConfig [''A host 1234''] (new_Client ''c'') = Inr cl0"
    unfolding client_readFromConfig_def by (simp add: Let_def Split_def idx_def len_def)
  then obtain cl where main: "client_main [''c'', ''config''] (Some [''A host 1234'']) ((''BEGIN'' @ [newline], 5, None) # ?ts) = Inr cl"
    by (auto simp: client_main_def len_def)
  have cmds: "list_all is_command ?ts" by (simp add: write_line_command [OF pl])
  have "TrimSpace (''NOT FOUND, ABORTED'' @ [newline]) = ''NOT FOUND, ABORTED''" by code_simp
  then have e: "ends (hd ?ts)" by (simp add: ends_def final_response_def)
  then have "until_end ?ts = [hd ?ts]" "list_ex ends ?ts" by simp_all
  with client_session [OF main cmds] main show ?thesis
    by (auto simp: message_write [OF pl])
qed

text \<open>A deposit or withdrawal sent before \<open>BEGIN\<close> crashes the coordinator: the
  client sends it with an empty timestamp, and \<open>Init\<close> panics on the missing word.\<close>

lemma write_before_begin_panics:
  assumes "plain br" "plain acc" "m \<in> {''DEPOSIT'', ''WITHDRAW''}" "currentTransaction cl" "stmsp cl = []"
  shows "\<exists>text e. sent (client_turn (write_line m br acc am, now, answer) cl) = sent cl @ [text] \<and>
    handleConnection env (Bytes text) rconn sconn = Some (Inl e)"
proof -
  from client_turn_command(1) [OF write_line_command [OF assms(1-3)] assms(4)]
  have "sent (client_turn (write_line m br acc am, now, answer) cl) = sent cl @ [message [] (write_line m br acc am, now, answer)]"
    by (simp add: assms(5))
  with message_without_begin [OF assms(1-3)] show ?thesis by metis
qed

section \<open>Who is at the other end of a connection\<close>

text \<open>Branches recognise each other by port. For two different branches \<open>a\<close> and
  \<open>b\<close> the table has the port from which \<open>a\<close> dials \<open>b\<close>, and \<open>b\<close> takes a
  connection from this port for branch \<open>a\<close>; from a port that is not in the table it is
  a client's. The host part of the address must not contain a colon.\<close>

theorem branch_recognised:
  assumes "CHR '':'' \<notin> set ip"
  shows "(\<forall>a\<in>set branch_names. \<forall>b\<in>set branch_names. a \<noteq> b \<longrightarrow>
      (\<exists>p. map_of lookup (a @ b) = Some p \<and> judgeClient (ip @ '':'' @ FormatInt p) = Inr (False, a))) \<and>
    (\<forall>p. int64_range p \<and> p \<notin> snd ` set lookup \<longrightarrow> judgeClient (ip @ '':'' @ FormatInt p) = Inr (True, []))"
proof -
  have "\<exists>p. map_of lookup (a @ b) = Some p \<and> int64_range p \<and> find_port p lookup = (False, a)"
    if "a \<in> set branch_names" "b \<in> set branch_names" "a \<noteq> b" for a b
    using find_port_lookup that by (fastforce simp: list_all_iff split: option.splits)
  moreover have "find_port p m = (True, [])" if "p \<notin> snd ` set m" for p m
    using that by (induction p m rule: find_port.induct) auto
  ultimately show ?thesis
    using judgeClient_port [OF assms] by (metis append_Cons append_Nil)
qed

theorem branch_recognised_witness:
  "\<exists>p. map_of lookup ''CA'' = Some p \<and> judgeClient (''10.0.0.3'' @ '':'' @ FormatInt p) = Inr (False, ''C'')"
  using branch_recognised [of "''10.0.0.3''"] by (simp add: branch_names_def)

end
