(* ===== verification/BankSchedules.thy ===== *)
theory BankSchedules
  imports BankExchange
begin

text \<open>
  Schedules in which a branch does not do what its comments promise: sequences of operations of
  a few transactions, some evaluated on a funded account, the overdraft for every account it can
  happen to. The last theorem shows the same for two messages that arrive together.
\<close>

text \<open>The loop of a commit, in closed form, to evaluate it.\<close>

lemma commit_account_code [code]:
  "commit_account ts acc sv =
     (if \<not> no_newer ts (slot (TW sv) acc) then None
      else let sv1 = sv\<lparr>TW := AList.update acc (filter (\<lambda>w. wv_timestamp w \<noteq> ts) (slot (TW sv) acc)) (TW sv)\<rparr>
           in if has_entry ts (slot (TW sv) acc) then
                bind_go (Some (account_mu sv1 acc)) (\<lambda>a.
                  return_go (sv1\<lparr>accounts := AList.update acc
                    (a\<lparr>committedValue := balance_after ts sv acc, committedTimestamp := ts\<rparr>) (accounts sv1)\<rparr>))
              else return_go sv1)"
  by (simp add: commit_account_def commit_loop_eq balance_after_def Let_def)

text \<open>
  What the handlers of a branch perform for its transactions, and whether it went well: the
  write was accepted, the check passed.
\<close>

datatype branch_op = Tx_write Operation | Tx_check int | Tx_commit int | Tx_abort int

fun perform :: "branch_op \<Rightarrow> Server \<Rightarrow> (bool \<times> Server) go" where
  "perform (Tx_write op) sv = Some (map_res (\<lambda>(abort, sv). (\<not> abort, sv)) (write_sv op sv))"
| "perform (Tx_check ts) sv = Some (CheckCommit ts sv)"
| "perform (Tx_commit ts) sv = bind_go (DoCommit ts sv) (\<lambda>sv. return_go (True, sv))"
| "perform (Tx_abort ts) sv = Some (map_res (Pair True) (DoAbort ts sv))"

fun performs :: "branch_op list \<Rightarrow> Server \<Rightarrow> (bool list \<times> Server) go" where
  "performs [] sv = return_go ([], sv)"
| "performs (a # as) sv =
     bind_go (perform a sv) (\<lambda>(b, sv). bind_go (performs as sv) (\<lambda>(bs, sv). return_go (b # bs, sv)))"

text \<open>The answers of a schedule, and an account at its end.\<close>

definition outcome :: "string \<Rightarrow> branch_op list \<Rightarrow> (bool list \<times> Account option) go" where
  "outcome acc as = bind_go (performs as funded) (\<lambda>(bs, sv). return_go (bs, map_of (accounts sv) acc))"

lemma funded_nonnegative: "\<forall>k. \<not> negative (balances funded k)"
  by (simp add: balances_def funded_def get_or_def negative_def zero_Account_def)

text \<open>A branch on which only one account has tentative writes.\<close>

lemma tentative_only:
  assumes "bank_ok sv" "quiescent sv" "distinct (stamps xs)"
  shows "bank_ok (sv\<lparr>TW := AList.update acc xs (TW sv)\<rparr>)"
    "slot (TW (sv\<lparr>TW := AList.update acc xs (TW sv)\<rparr>)) k = (if k = acc then xs else [])"
    "balance_after ts (sv\<lparr>TW := AList.update acc xs (TW sv)\<rparr>) k =
       (if k = acc then add_tentative ts (balances sv acc) xs else balances sv k)"
  using assms by (simp_all add: bank_ok_TW_update balance_after_def balances_def quiescent_def)

lemma tentative_checked:
  assumes "bank_ok sv" "quiescent sv" "distinct (stamps xs)" "\<forall>k. \<not> negative (balances sv k)"
    and "\<not> negative (add_tentative ts (balances sv acc) xs)"
  shows "CheckCommit ts (sv\<lparr>TW := AList.update acc xs (TW sv)\<rparr>) = Inr (True, sv\<lparr>TW := AList.update acc xs (TW sv)\<rparr>)"
  using CheckCommit_cases [OF tentative_only(1) [OF assms(1-3)]] tentative_only(3) [OF assms(1-3)] assms(4,5) by simp

text \<open>C34: a committed deposit can be counted twice. On any branch without tentative writes or negative
  balances, let two transactions each deposit on the same account, the older one, not outdated by a
  read or a commit, first. When the younger one commits
  first, its commit adds the tentative deposit of the older one too, without removing it, and the
  commit of the older one adds it again: as long as no sum is negative, the account
  ends with the older amount twice, while the abstract bank posts it once.\<close>

theorem older_deposit_counted_twice:
  assumes "bank_ok sv" "quiescent sv" "\<forall>k. \<not> negative (balances sv k)"
    and "map_of (accounts sv) acc = Some a" "committedTimestamp a < t1" "t1 < t2"
    and "\<forall>t \<in> set (slot (RTS sv) acc). t \<le> t1"
    and "\<not> negative (committedValue a + x + y)" "\<not> negative (committedValue a + x + y + x)"
  shows "\<exists>sv'. performs [Tx_write (deposit acc x t1), Tx_write (deposit acc y t2), Tx_check t2, Tx_commit t2,
      Tx_check t1, Tx_commit t1] sv = Some (Inr (replicate 6 True, sv')) \<and>
    balances sv' acc = committedValue a + x + y + x \<and>
    posted [deposit acc x t1, deposit acc y t2] (balances sv) acc = committedValue a + x + y"
proof -
  let ?w1 = "\<lparr>wv_timestamp = t1, wv_value = x\<rparr>" and ?w2 = "\<lparr>wv_timestamp = t2, wv_value = y\<rparr>"
  let ?s = "\<lambda>xs. sv\<lparr>TW := AList.update acc xs (TW sv)\<rparr>"
  have d: "distinct (stamps [?w1, ?w2])" using assms(6) by (simp add: stamps_def)
  note two = tentative_only [OF assms(1,2) d]
  have bal: "balances sv acc = committedValue a" using assms(4) by (simp add: balances_def get_or_def)
  have "write_allowed (deposit acc x t1) sv" "slot (TW sv) acc = []"
    using assms(2,4,5,7) by (auto simp: write_allowed_def deposit_def quiescent_def)
  then have w1: "write_sv (deposit acc x t1) sv = Inr (False, ?s [?w1])"
    using assms(4) by (simp add: write_deposit deposit_def tentative_write_def with_account_def)
  have "write_allowed (deposit acc y t2) (?s [?w1])"
    using assms(4-7) by (force simp: write_allowed_def deposit_def get_or_def)
  then have w2: "write_sv (deposit acc y t2) (?s [?w1]) = Inr (False, ?s [?w1, ?w2])"
    using assms(4,6) by (simp add: write_deposit deposit_def tentative_write_def with_account_def)
  have c2: "CheckCommit t2 (?s [?w1, ?w2]) = Inr (True, ?s [?w1, ?w2])"
    using assms(6,8) by (intro tentative_checked assms(1-3) d) (simp add: bal)
  have "committable t2 (?s [?w1, ?w2]) k" for k
    using assms(4,6) two(2) [where k = k] by (simp add: committable_def no_newer_def)
  then obtain s2 where d2: "DoCommit t2 (?s [?w1, ?w2]) = Some (Inr s2)"
    using DoCommit_returns_iff [OF two(1)] by blast
  note st = DoCommit_state [OF two(1) d2]
  have b2: "balances s2 k = (if k = acc then committedValue a + x + y else balances sv k)" for k
    using assms(6) unfolding DoCommit_balances [OF two(1) d2] two(2,3) by (simp add: bal)
  have slots: "slot (TW s2) k = (if k = acc then [?w1] else [])" for k
    using st(2) [of k] two(2) [where k = k] assms(6) by simp
  have after: "balance_after t1 s2 k = (if k = acc then committedValue a + x + y + x else balances sv k)" for k
    unfolding balance_after_def balances_def [symmetric] slots b2 by simp
  have c1: "CheckCommit t1 s2 = Inr (True, s2)"
    using CheckCommit_cases [OF st(1)] after assms(3,9) by simp
  have "map_of (accounts s2) acc \<noteq> None"
    using st(3) [of acc] assms(4) two(2) [where k = acc] by (simp add: committed_account_def)
  then have "committable t1 s2 k" for k using slots [of k] by (simp add: committable_def no_newer_def)
  then obtain s1 where d1: "DoCommit t1 s2 = Some (Inr s1)" using DoCommit_returns_iff [OF st(1)] by blast
  have "balances s1 acc = committedValue a + x + y + x"
    using DoCommit_balances [OF st(1) d1, of acc] slots [of acc] after [of acc] by simp
  moreover have "posted [deposit acc x t1, deposit acc y t2] (balances sv) acc = committedValue a + x + y"
    by (simp add: posted_def post_def deposit_def bal)
  ultimately show ?thesis
    using w1 w2 c2 d2 c1 d1 by (intro exI [of _ s1]) (simp add: return_go_def numeral_eq_Suc)
qed

theorem older_deposit_counted_twice_witness:
  "\<exists>sv'. performs [Tx_write (deposit ''x'' 5 5), Tx_write (deposit ''x'' 3 6), Tx_check 6, Tx_commit 6,
      Tx_check 5, Tx_commit 5] funded = Some (Inr (replicate 6 True, sv')) \<and> balances sv' ''x'' = 23"
proof -
  let ?a = "\<lparr>acc_name = ''x'', committedValue = 10, committedTimestamp = 1, amount = 10, createdTimestamp = 1\<rparr>"
  have "map_of (accounts funded) ''x'' = Some ?a" "slot (RTS funded) ''x'' = []"
    by (simp_all add: funded_def branch_A_def new_Server_def get_or_def)
  then show ?thesis
    using older_deposit_counted_twice [OF bank_ok_funded funded_facts(1) funded_nonnegative, of "''x''" ?a 5 6 5 3]
    by (simp add: negative_def del: performs.simps) blast
qed

text \<open>Aborting the transaction that created an account destroys what others committed.
  Transaction 5 creates \<open>y\<close>, transaction 6 deposits 3 on it and commits; when 5 aborts,
  the account is deleted with the committed balance.\<close>

theorem creator_abort_destroys_commit:
  "\<exists>a. outcome ''y'' [Tx_write (deposit ''y'' 5 5), Tx_write (deposit ''y'' 3 6), Tx_check 6, Tx_commit 6] =
      Some (Inr (replicate 4 True, Some a)) \<and> committedTimestamp a = 6 \<and> \<not> negative (committedValue a - 3) \<and>
    outcome ''y'' [Tx_write (deposit ''y'' 5 5), Tx_write (deposit ''y'' 3 6), Tx_check 6, Tx_commit 6, Tx_abort 5] =
      Some (Inr (replicate 5 True, None))"
proof -
  have "outcome ''y'' [Tx_write (deposit ''y'' 5 5), Tx_write (deposit ''y'' 3 6), Tx_check 6, Tx_commit 6] =
      Some (Inr (replicate 4 True, Some \<lparr>acc_name = ''y'', committedValue = 8, committedTimestamp = 6,
        amount = 5, createdTimestamp = 5\<rparr>))"
    by code_simp
  moreover have "outcome ''y'' [Tx_write (deposit ''y'' 5 5), Tx_write (deposit ''y'' 3 6), Tx_check 6, Tx_commit 6,
      Tx_abort 5] = Some (Inr (replicate 5 True, None))"
    by code_simp
  ultimately show ?thesis by (simp add: negative_def)
qed

text \<open>The timestamp of a committed version can move backwards, here from 9 to 5.\<close>

lemma version_moves_back:
  "\<exists>b. outcome ''x'' [Tx_write (deposit ''x'' 1 9), Tx_check 9, Tx_commit 9, Tx_write (deposit ''x'' 1 5), Tx_check 5, Tx_commit 5] =
      Some (Inr (replicate 6 True, Some b)) \<and> committedTimestamp b = 5"
proof -
  have "outcome ''x'' [Tx_write (deposit ''x'' 1 9), Tx_check 9, Tx_commit 9, Tx_write (deposit ''x'' 1 5),
      Tx_check 5, Tx_commit 5] = Some (Inr (replicate 6 True, Some \<lparr>acc_name = ''x'', committedValue = 12,
        committedTimestamp = 5, amount = 10, createdTimestamp = 1\<rparr>))"
    by code_simp
  then show ?thesis by simp
qed

text \<open>C40: the check of the first phase does not protect the commit. On any branch without
  tentative writes or negative balances, take an account with a balance that covers each of two withdrawals but not
  both. The younger transaction withdraws and passes \<open>CheckCommit\<close>; the older one, not yet
  outdated by a read or a commit, still withdraws and passes it as well, because it does not see the
  younger entry; then the commit of the younger one goes through and leaves a negative balance.\<close>

theorem overdraft_after_check:
  assumes "bank_ok sv" "quiescent sv" "\<forall>k. \<not> negative (balances sv k)"
    and "map_of (accounts sv) acc = Some a" "committedTimestamp a < t1" "t1 < t2"
    and "\<forall>t \<in> set (slot (RTS sv) acc). t \<le> t1"
    and "\<not> negative (committedValue a - x)" "\<not> negative (committedValue a - y)" "negative (committedValue a - x - y)"
  shows "\<exists>sv'. performs [Tx_write (withdraw acc x t2), Tx_check t2, Tx_write (withdraw acc y t1), Tx_check t1, Tx_commit t2] sv =
      Some (Inr (replicate 5 True, sv')) \<and> balances sv' acc = committedValue a - x - y \<and> negative (balances sv' acc)"
proof -
  let ?w2 = "\<lparr>wv_timestamp = t2, wv_value = - x\<rparr>" and ?w1 = "\<lparr>wv_timestamp = t1, wv_value = - y\<rparr>"
  let ?s = "\<lambda>xs. sv\<lparr>TW := AList.update acc xs (TW sv)\<rparr>"
  have d: "distinct (stamps [?w2])" "distinct (stamps [?w2, ?w1])" using assms(6) by (simp_all add: stamps_def)
  note one = tentative_only [OF assms(1,2) d(1)] and two = tentative_only [OF assms(1,2) d(2)]
  have bal: "balances sv acc = committedValue a" using assms(4) by (simp add: balances_def get_or_def)
  have "write_allowed (withdraw acc x t2) sv" "slot (TW sv) acc = []"
    using assms(2,4-7) by (force simp: write_allowed_def withdraw_def quiescent_def)+
  then have w2: "write_sv (withdraw acc x t2) sv = Inr (False, ?s [?w2])"
    by (simp add: write_withdraw withdraw_def tentative_write_def)
  have "write_allowed (withdraw acc y t1) (?s [?w2])"
    using assms(4,5,7) by (simp add: write_allowed_def withdraw_def get_or_def)
  then have w1: "write_sv (withdraw acc y t1) (?s [?w2]) = Inr (False, ?s [?w2, ?w1])"
    using assms(6) by (simp add: write_withdraw withdraw_def tentative_write_def AList.update_conv')
  have c2: "CheckCommit t2 (?s [?w2]) = Inr (True, ?s [?w2])"
    using assms(8) by (intro tentative_checked assms(1-3) d) (simp add: bal)
  have c1: "CheckCommit t1 (?s [?w2, ?w1]) = Inr (True, ?s [?w2, ?w1])"
    using assms(6,9) by (intro tentative_checked assms(1-3) d) (simp add: bal)
  have "committable t2 (?s [?w2, ?w1]) k" for k
    using assms(4,6) two(2) [where k = k] by (simp add: committable_def no_newer_def)
  then obtain sv' where dc: "DoCommit t2 (?s [?w2, ?w1]) = Some (Inr sv')"
    using DoCommit_returns_iff [OF two(1)] by blast
  have "balances sv' acc = committedValue a - x - y"
    using DoCommit_balances [OF two(1) dc, of acc] two(2,3) [where k = acc] assms(6) by (simp add: bal)
  then show ?thesis
    using w2 c2 w1 c1 dc assms(10) by (intro exI [of _ sv']) (simp add: return_go_def numeral_eq_Suc)
qed

theorem overdraft_after_check_witness:
  "\<exists>sv'. performs [Tx_write (withdraw ''x'' 8 6), Tx_check 6, Tx_write (withdraw ''x'' 8 5), Tx_check 5, Tx_commit 6] funded =
      Some (Inr (replicate 5 True, sv')) \<and> balances sv' ''x'' = -6"
proof -
  let ?a = "\<lparr>acc_name = ''x'', committedValue = 10, committedTimestamp = 1, amount = 10, createdTimestamp = 1\<rparr>"
  have "map_of (accounts funded) ''x'' = Some ?a" "slot (RTS funded) ''x'' = []"
    by (simp_all add: funded_def branch_A_def new_Server_def get_or_def)
  then show ?thesis
    using overdraft_after_check [OF bank_ok_funded funded_facts(1) funded_nonnegative, of "''x''" ?a 5 6 8 8]
    by (simp add: negative_def del: performs.simps) blast
qed

text \<open>Of several messages that one \<open>Read\<close> returns only the first is handled. Whatever
  follows a \<open>COMMIT_READY\<close> in the same bytes, a second \<open>COMMIT_READY\<close> included, is
  ignored.\<close>

theorem coalesced_message_lost:
  "handleBranch env (Bytes (reply_with ''COMMIT_READY'' ts @ [newline] @ rest)) conn =
   handleBranch env (Bytes (reply_with ''COMMIT_READY'' ts @ [newline])) conn"
proof -
  have tag: "is_word ''COMMIT_READY''" by (simp add: keyword_words)
  have nl: "is_space newline" by (simp add: newline_def is_space_def)
  have words: "Fields (TrimSpace (reply_with ''COMMIT_READY'' ts @ newline # r)) = [''COMMIT_READY'', FormatInt ts] @ Fields r" for r
    unfolding Fields_TrimSpace using nl by (simp add: Fields_sep tag_words [OF tag])
  have handled: "handleBranch env (Bytes (reply_with ''COMMIT_READY'' ts @ newline # r)) conn =
      commit_ready ([''COMMIT_READY'', FormatInt ts] @ Fields r) (env 0)" for r
    by (simp add: handleBranch_def Let_def readClient_def words idx_def len_def)
  have "commit_ready ([''COMMIT_READY'', FormatInt ts] @ ws) sv = commit_ready [''COMMIT_READY'', FormatInt ts] sv" for ws sv
    by (simp add: commit_ready_def idx_def len_def)
  then show ?thesis using handled [of rest] handled [of "[]"] by simp
qed

end
