(* ===== verification/BankVotes.thy ===== *)
theory BankVotes
  imports BankMessages
begin

text \<open>
  The part of a branch (\<open>mp3/server/server.go\<close>) that the two-phase commit consists of: the
  messages \<open>COMMIT_PREPARE\<close>, \<open>COMMIT_READY\<close> and \<open>COMMIT_OK\<close> it sends, and the count of
  answers. Every other step is shown to send none of them and to leave the count alone.
\<close>

section \<open>Messages of the commit protocol\<close>

definition phase_word :: "string \<Rightarrow> bool" where
  "phase_word w \<longleftrightarrow> w \<in> {''COMMIT_PREPARE'', ''COMMIT_READY'', ''COMMIT_OK''}"

definition quiet_words :: "string list \<Rightarrow> bool" where
  "quiet_words ws \<longleftrightarrow> (case ws of [] \<Rightarrow> True | w # _ \<Rightarrow> \<not> phase_word w)"

fun ordinary :: "net_event \<Rightarrow> bool" where
  "ordinary (Sent c text) = quiet_words (Fields text)"
| "ordinary _ = True"

lemma quiet_words_simps [simp]: "quiet_words []" "quiet_words (w # ws) \<longleftrightarrow> \<not> phase_word w"
  by (simp_all add: quiet_words_def)

lemma quiet_words_idx: "idx ws 0 = Inr w \<Longrightarrow> quiet_words ws \<longleftrightarrow> \<not> phase_word w"
  by (cases ws) (simp_all add: idx_def len_def)

lemma Fields_newline [simp]: "Fields (msg @ [newline]) = Fields msg"
  using Fields_sep [of newline msg "[]"] by (simp add: newline_def is_space_def)

text \<open>The names of the connections to branches are no timestamps.\<close>

definition stamp_key :: "string \<Rightarrow> bool" where
  "stamp_key k \<longleftrightarrow> (\<exists>ts. k = FormatInt ts)"

lemma branch_name_no_stamp: "n \<in> set branch_names \<Longrightarrow> \<not> stamp_key n"
proof
  assume n: "n \<in> set branch_names" and "stamp_key n"
  then obtain ts where ts: "n = FormatInt ts" by (auto simp: stamp_key_def)
  have "is_digit (hd (FormatInt ts)) \<or> hd (FormatInt ts) = CHR ''-''"
    using format_uint_hd by (simp add: FormatInt_def)
  moreover have "list_all (\<lambda>n. \<not> is_digit (hd n) \<and> hd n \<noteq> CHR ''-'') branch_names" by code_simp
  ultimately show False using n ts by (auto simp: list_all_iff)
qed

section \<open>Steps without a message of the protocol\<close>

definition quiet_step :: "Server \<Rightarrow> Server \<Rightarrow> bool" where
  "quiet_step sv sv' \<longleftrightarrow>
     me sv' = me sv \<and> name sv' = name sv \<and> commitCount sv' = commitCount sv \<and>
     (\<forall>k. \<not> stamp_key k \<longrightarrow> map_of (send_conn sv') k = map_of (send_conn sv) k) \<and>
     (\<exists>os. net sv' = net sv @ os \<and> list_all ordinary os)"

lemma quiet_refl [simp, intro]: "quiet_step sv sv"
  by (simp add: quiet_step_def)

lemma quiet_trans: "quiet_step sv s1 \<Longrightarrow> quiet_step s1 s2 \<Longrightarrow> quiet_step sv s2"
  by (auto simp: quiet_step_def)

lemma quiet_net: "sv' = sv\<lparr>net := net sv @ os\<rparr> \<Longrightarrow> list_all ordinary os \<Longrightarrow> quiet_step sv sv'"
  by (simp add: quiet_step_def)

lemma quiet_same:
  "me sv' = me sv \<Longrightarrow> name sv' = name sv \<Longrightarrow> commitCount sv' = commitCount sv \<Longrightarrow>
   send_conn sv' = send_conn sv \<Longrightarrow> net sv' = net sv \<Longrightarrow> quiet_step sv sv'"
  by (simp add: quiet_step_def)

lemma sendtoClient_quiet:
  "sendtoClient text conn sv = Inr sv' \<Longrightarrow> quiet_words (Fields text) \<longrightarrow> quiet_step sv sv'"
  by (auto simp: sendtoClient_def intro!: quiet_net split: option.splits)

lemma Close_quiet: "Close conn sv = Inr sv' \<Longrightarrow> quiet_step sv sv'"
  by (auto simp: Close_def intro!: quiet_net split: option.splits)

lemma broadcast_quiet:
  assumes "broadcast msg sv = Inr sv'" "quiet_words (Fields msg)"
  shows "quiet_step sv sv'"
proof -
  have "quiet_step s s'"
    if "for_res ns (\<lambda>n sv. if n \<noteq> me sv then sendtoClient msg (map_of (send_conn sv) n) sv else Inr sv) s = Inr s'"
    for ns s s'
    using that
  proof (induction ns arbitrary: s)
    case (Cons n ns)
    then obtain s1 where s1: "(if n \<noteq> me s then sendtoClient msg (map_of (send_conn s) n) s else Inr s) = Inr s1"
      "quiet_step s1 s'"
      by (auto simp: bind_res_Inr simp del: if_split)
    have "quiet_step s s1" using s1(1) sendtoClient_quiet assms(2) by (auto split: if_splits)
    then show ?case using s1(2) by (rule quiet_trans)
  qed simp
  then show ?thesis using assms(1) by (simp add: broadcast_def)
qed

lemma DoAbort_quiet: "DoAbort ts sv = Inr sv' \<Longrightarrow> quiet_step sv sv'"
  by (auto simp: DoAbort_def bind_res_Inr quiet_step_def)

lemma CheckCommit_quiet: "CheckCommit ts sv = Inr (can, sv') \<Longrightarrow> quiet_step sv sv'"
  by (auto simp: CheckCommit_def map_res_Inr dest!: DoAbort_quiet split: if_splits)

lemma write_quiet: "write_sv op sv = Inr (abort, sv') \<Longrightarrow> quiet_step sv sv'"
  by (auto simp: write_sv_def Let_def bind_res_Inr quiet_step_def split: if_splits)

lemma read_quiet: "read_sv (\<lambda>_. sv) op t = Some (v, aborted, sv') \<Longrightarrow> quiet_step sv sv'"
proof -
  have "quiet_step sv s" if "read_rule op sv = Read_value v s" for v s
  proof -
    from read_rule_RTS [OF that] obtain rts where "s = sv\<lparr>RTS := rts\<rparr>" ..
    then show ?thesis by (simp add: quiet_same)
  qed
  then show "read_sv (\<lambda>_. sv) op t = Some (v, aborted, sv') \<Longrightarrow> quiet_step sv sv'"
    by (auto simp: read_sv_alone split: read_outcome.splits)
qed

lemma DoCommit_quiet: "bank_ok sv \<Longrightarrow> DoCommit ts sv = Some (Inr sv') \<Longrightarrow> quiet_step sv sv'"
  using DoCommit_state(5,7-10) [of sv ts sv'] by (simp add: quiet_step_def)

lemma add_conns_quiet: "quiet_step sv (add_conns (FormatInt ts) rconn sconn sv)"
  by (auto simp: quiet_step_def add_conns_def AList.update_conv' stamp_key_def)

lemma quiet_keywords [simp]:
  "quiet_words (Fields ''OK'')" "quiet_words (Fields ''ABORTED'')" "quiet_words (Fields ''NOT FOUND, ABORTED'')"
  "quiet_words (Fields ''COMMIT OK'')"
  by code_simp+

lemma reply_with_words: "is_word tag \<Longrightarrow> Fields (Join [tag, FormatInt ts] '' '') = [tag, FormatInt ts]"
  by (metis reply_with_def tag_words(1))

lemma quiet_reply [simp]:
  assumes "is_word tag"
  shows "quiet_words (Fields (reply_with tag ts)) \<longleftrightarrow> \<not> phase_word tag"
  by (simp add: tag_words(1) [OF assms])

lemma quiet_keyword_replies [simp]:
  "\<not> phase_word ''OK''" "\<not> phase_word ''ABORTED''" "\<not> phase_word ''NOT''" "\<not> phase_word ''ABORT_Coordinator''"
  "is_word ''OK''" "is_word ''ABORTED''" "is_word ''NOT''" "is_word ''ABORT_Coordinator''"
  by (simp_all add: phase_word_def keyword_words)

lemma quiet_abort_coordinator [simp]:
  "quiet_words (Fields (''ABORT_Coordinator '' @ FormatInt ts))"
  using quiet_reply [of "''ABORT_Coordinator''" ts] by (simp add: reply_with_def)

section \<open>Texts built from an operation\<close>

lemma split_by_subset: "x \<in> set (split_by p w) \<Longrightarrow> set x \<subseteq> set w"
proof (induction w arbitrary: x)
  case (Cons c w)
  then show ?case by (fastforce split: if_splits list.splits)
qed simp

lemma idx_mem: "idx xs i = Inr x \<Longrightarrow> x \<in> set xs"
  by (auto simp: idx_Inr len_def)

lemma checked_ParseInt_range: "checked (ParseInt w) = Inr ts \<Longrightarrow> int64_range ts"
  using ParseInt_range [of w] by (cases "ParseInt w") (auto simp: checked_def split: option.splits)

lemma Init_timestamp_parts:
  "Init_timestamp ws i o1 = Inr op \<Longrightarrow> op_method op = op_method o1 \<and> op_branch op = op_branch o1 \<and>
     op_account op = op_account o1 \<and> int64_range (op_timestamp op)"
  by (auto simp: Init_timestamp_def bind_res_Inr dest: checked_ParseInt_range)

lemma Init_amount_parts:
  "Init_amount ws neg o1 = Inr op \<Longrightarrow> op_method op = op_method o1 \<and> op_branch op = op_branch o1 \<and>
     op_account op = op_account o1"
  by (auto simp: Init_amount_def bind_res_Inr)

lemma Init_target_parts:
  assumes "Init_target w o1 = Inr op" "no_space w"
  shows "op_method op = op_method o1 \<and> no_space (op_branch op) \<and> no_space (op_account op)"
proof -
  obtain b a where "b \<in> set (Split w (CHR ''.''))" "a \<in> set (Split w (CHR ''.''))"
    "op = o1\<lparr>op_branch := b, op_account := a\<rparr>"
    using assms(1) by (auto simp: Init_target_def bind_res_Inr dest!: idx_mem)
  moreover have "no_space x" if "x \<in> set (Split w (CHR ''.''))" for x
    using split_by_subset [of x _ w] that assms(2) by (auto simp: Split_def no_space_def list_all_iff)
  ultimately show ?thesis by simp
qed

lemma Fields_no_space: "idx (Fields s) i = Inr w \<Longrightarrow> no_space w"
  using Fields_words [of s] by (auto simp: list_all_iff is_word_def dest!: idx_mem)

lemma Init_parts:
  assumes "Init s zero_Operation = Inr op"
  shows "idx (Fields s) 0 = Inr (op_method op) \<and>
    op_method op \<in> {''DEPOSIT'', ''WITHDRAW'', ''BALANCE'', ''COMMIT'', ''ABORT''} \<and>
    no_space (op_branch op) \<and> no_space (op_account op) \<and> int64_range (op_timestamp op)"
proof -
  obtain m where m: "idx (Fields s) 0 = Inr m" using assms by (auto simp: Init_def Let_def bind_res_Inr)
  have z: "op_method (zero_Operation\<lparr>op_method := m\<rparr>) = m" "no_space (op_branch (zero_Operation\<lparr>op_method := m\<rparr>))"
      "no_space (op_account (zero_Operation\<lparr>op_method := m\<rparr>))"
    by (simp_all add: zero_Operation_def no_space_def)
  consider (writes) "m \<in> {''DEPOSIT'', ''WITHDRAW''}" | (balance) "m = ''BALANCE''" | (fin) "m \<in> {''COMMIT'', ''ABORT''}"
    using assms m by (auto simp: Init_def Let_def split: if_splits)
  then show ?thesis
  proof cases
    case writes
    then obtain w o1 o2 neg where "idx (Fields s) 1 = Inr w" "Init_target w (zero_Operation\<lparr>op_method := m\<rparr>) = Inr o1"
      "Init_amount (Fields s) neg o1 = Inr o2" "Init_timestamp (Fields s) 3 o2 = Inr op"
      using assms m by (auto simp: Init_def Let_def bind_res_Inr split: if_splits)
    then show ?thesis
      using writes z m Init_target_parts [OF _ Fields_no_space, of w _ o1 s 1] Init_amount_parts [of _ neg o1 o2]
        Init_timestamp_parts [of _ 3 o2 op] by auto
  next
    case balance
    then obtain w o1 where "idx (Fields s) 1 = Inr w" "Init_target w (zero_Operation\<lparr>op_method := m\<rparr>) = Inr o1"
      "Init_timestamp (Fields s) 2 o1 = Inr op"
      using assms m by (auto simp: Init_def Let_def bind_res_Inr split: if_splits)
    then show ?thesis
      using balance z m Init_target_parts [OF _ Fields_no_space, of w _ o1 s 1] Init_timestamp_parts [of _ 2 o1 op]
      by auto
  next
    case fin
    then have "Init_timestamp (Fields s) 1 (zero_Operation\<lparr>op_method := m\<rparr>) = Inr op"
      using assms m by (auto simp: Init_def Let_def split: if_splits)
    from Init_timestamp_parts [OF this] show ?thesis using fin z m by auto
  qed
qed

lemma quiet_dotted:
  assumes "no_space b" "no_space a"
  shows "quiet_words (Fields (b @ ''.'' @ a @ '' = '' @ s))"
proof -
  have "is_word (b @ ''.'' @ a)" using assms by (simp add: is_word_def no_space_def is_space_def)
  from Fields_cons [OF this, of "''= '' @ s"]
  have "Fields (b @ ''.'' @ a @ '' = '' @ s) = (b @ ''.'' @ a) # Fields (''= '' @ s)" by simp
  moreover have "\<not> phase_word (b @ ''.'' @ a)"
  proof
    assume "phase_word (b @ ''.'' @ a)"
    moreover have "CHR ''.'' \<in> set (b @ ''.'' @ a)" by simp
    ultimately show False by (auto simp: phase_word_def simp del: set_append)
  qed
  ultimately show ?thesis by simp
qed

section \<open>The handlers\<close>

lemma reply_and_close_quiet:
  "reply_and_close msg key sv = Inr sv' \<Longrightarrow> quiet_words (Fields msg) \<Longrightarrow> quiet_step sv sv'"
  by (auto simp: reply_and_close_def bind_res_Inr dest!: sendtoClient_quiet Close_quiet intro: quiet_trans)

lemma abort_reply_quiet:
  "abort_reply msg ts conn sv = Inr (b, sv') \<Longrightarrow> quiet_words (Fields msg) \<Longrightarrow> quiet_step sv sv'"
  by (auto simp: abort_reply_def bind_res_Inr map_res_Inr dest!: sendtoClient_quiet DoAbort_quiet intro: quiet_trans)

lemma branch_abort_quiet:
  "branch_abort tag ts conn sv = Inr sv' \<Longrightarrow> quiet_words (Fields (reply_with tag ts)) \<Longrightarrow> quiet_step sv sv'"
  by (auto simp: branch_abort_def bind_res_Inr dest!: sendtoClient_quiet DoAbort_quiet intro: quiet_trans)

lemma handleOperation_quiet:
  assumes "handleOperation (\<lambda>_. sv) op conn = Some (Inr (b, sv'))" "op_method op \<noteq> ''COMMIT''"
    and "no_space (op_branch op)" "no_space (op_account op)"
  shows "quiet_step sv sv'"
proof (cases "op_method op \<in> {''DEPOSIT'', ''WITHDRAW''}")
  case True
  from assms(1) obtain abort s where w: "write_sv op sv = Inr (abort, s)"
    and r: "(if abort then abort_reply (if op_method op = ''WITHDRAW'' then ''NOT FOUND, ABORTED'' else ''ABORTED'')
        (op_timestamp op) conn s else map_res (Pair False) (sendtoClient ''OK'' conn s)) = Inr (b, sv')"
    unfolding handleOperation_write [OF refl True] option.inject bind_res_Inr by auto
  have "quiet_step s sv'"
  proof (cases abort)
    case True
    then show ?thesis using r abort_reply_quiet [of _ _ conn s b sv'] by (auto split: if_splits)
  next
    case False
    then show ?thesis using r by (auto simp: map_res_Inr dest!: sendtoClient_quiet)
  qed
  then show ?thesis using write_quiet [OF w] quiet_trans by blast
next
  case False
  show ?thesis
  proof (cases "op_method op = ''BALANCE''")
    case True
    then obtain v aborted s where rd: "read_sv (\<lambda>_. sv) op 0 = Some (v, aborted, s)"
      and r: "(if aborted then abort_reply ''NOT FOUND, ABORTED'' (op_timestamp op) conn s
        else map_res (Pair False)
          (sendtoClient (op_branch op @ ''.'' @ op_account op @ '' = '' @ Itoa v) conn s)) = Inr (b, sv')"
      using assms(1) by (auto simp: handleOperation_def Let_def split: option.splits)
    have "quiet_step s sv'"
    proof (cases aborted)
      case True
      then show ?thesis using r abort_reply_quiet [of _ _ conn s b sv'] by auto
    next
      case False
      then show ?thesis
        using r quiet_dotted [OF assms(3,4), of "Itoa v"] by (auto simp: map_res_Inr dest!: sendtoClient_quiet)
    qed
    then show ?thesis using read_quiet [OF rd] quiet_trans by blast
  qed (use False assms(1,2) in \<open>simp add: handleOperation_def Let_def return_go_def\<close>)
qed

text \<open>The check of a transaction before a branch votes for it.\<close>

definition can_commit :: "int \<Rightarrow> Server \<Rightarrow> bool" where
  "can_commit ts sv \<longleftrightarrow> (case CheckCommit ts sv of Inl _ \<Rightarrow> False | Inr (can, _) \<Rightarrow> can)"

lemma can_commit_iff: "can_commit ts sv \<longleftrightarrow> \<not> (TxRelated ts sv \<and> overdrawn ts sv)"
  by (auto simp: can_commit_def CheckCommit_def map_res_def bind_res_def split: sum.splits)

lemma CheckCommit_True: "CheckCommit ts sv = Inr (True, sv') \<longleftrightarrow> can_commit ts sv \<and> sv' = sv"
  by (auto simp: can_commit_iff CheckCommit_def map_res_Inr)

definition reset_count :: "string \<Rightarrow> Server \<Rightarrow> Server" where
  "reset_count key sv = sv\<lparr>commitCount := AList.update key 0 (commitCount sv)\<rparr>"

lemma can_commit_reset [simp]: "can_commit ts (reset_count key sv) = can_commit ts sv"
  by (simp add: can_commit_iff reset_count_def TxRelated_def overdrawn_def)

lemma handleOperation_commit:
  assumes "handleOperation (\<lambda>_. sv) op conn = Some (Inr (b, sv'))" "op_method op = ''COMMIT''"
  defines "ts \<equiv> op_timestamp op"
  shows "quiet_step (reset_count (FormatInt ts) sv) sv' \<or>
    \<not> b \<and> can_commit ts sv \<and> broadcast (reply_with ''COMMIT_PREPARE'' ts) (reset_count (FormatInt ts) sv) = Inr sv'"
proof -
  let ?s = "reset_count (FormatInt ts) sv"
  obtain can s where c: "CheckCommit ts ?s = Inr (can, s)"
    and r: "if can then \<not> b \<and> broadcast (reply_with ''COMMIT_PREPARE'' ts) s = Inr sv'
      else \<exists>s1 s2. sendtoClient ''ABORTED'' conn s = Inr s1 \<and>
        broadcast (reply_with ''ABORT_Coordinator'' ts) s1 = Inr s2 \<and> DoAbort ts s2 = Inr sv'"
    using assms by (auto simp: handleOperation_def Let_def reset_count_def bind_res_Inr map_res_Inr reply_with_def
        split: if_splits)
  show ?thesis
  proof (cases can)
    case True
    then have "can_commit ts sv" "s = ?s" using c by (simp_all add: CheckCommit_True)
    with r True show ?thesis by simp
  next
    case False
    then obtain s1 s2 where f: "sendtoClient ''ABORTED'' conn s = Inr s1"
      "broadcast (reply_with ''ABORT_Coordinator'' ts) s1 = Inr s2" "DoAbort ts s2 = Inr sv'"
      using r by auto
    have "quiet_step s1 s2" using broadcast_quiet [OF f(2)] by simp
    then have "quiet_step s sv'"
      using sendtoClient_quiet [OF f(1)] DoAbort_quiet [OF f(3)] by (auto intro: quiet_trans)
    then show ?thesis using CheckCommit_quiet [OF c] quiet_trans by blast
  qed
qed

text \<open>A client's bytes: a request to commit, or nothing that concerns the protocol.\<close>

definition commit_request :: "read_result \<Rightarrow> int \<Rightarrow> bool" where
  "commit_request r ts \<longleftrightarrow> readClient r \<noteq> ''Closed'' \<and>
     (case Init (TrimSpace (readClient r)) zero_Operation of
        Inl _ \<Rightarrow> False
      | Inr op \<Rightarrow> op_method op = ''COMMIT'' \<and> op_timestamp op = ts)"

lemma quiet_step_reset: "quiet_step sv s \<Longrightarrow> quiet_step (reset_count key sv) (reset_count key s)"
  by (auto simp: quiet_step_def reset_count_def)

lemma can_commit_conns [simp]: "can_commit ts (add_conns key rconn sconn sv) = can_commit ts sv"
  by (simp add: can_commit_iff add_conns_def TxRelated_def overdrawn_def)

lemma close_pair_quiet:
  assumes "(if abort then Some (bind_res (Close (Some rconn) s) (\<lambda>sv. map_res (Pair True) (Close (Some sconn) sv)))
    else return_go (x, s)) = Some (Inr (b, sv'))"
  shows "quiet_step s sv'"
  using assms by (auto simp: bind_res_Inr map_res_Inr return_go_def dest!: Close_quiet intro: quiet_trans split: if_splits)

text \<open>What \<open>handleConnection\<close> does with the operation it parsed.\<close>

definition dispatched :: "Operation \<Rightarrow> string \<Rightarrow> nat \<Rightarrow> nat \<Rightarrow> Server \<Rightarrow> (bool \<times> Server) go" where
  "dispatched op line rconn sconn s =
     (if op_branch op = me s \<or> op_method op = ''COMMIT'' then
        bind_go (handleOperation (\<lambda>_. s) op (Some sconn)) (\<lambda>(abort, sv).
          if abort then Some (bind_res (Close (Some rconn) sv) (\<lambda>sv. map_res (Pair True) (Close (Some sconn) sv)))
          else return_go (op_method op = ''COMMIT'', sv))
      else if op_method op = ''ABORT'' then
        Some (bind_res (DoAbort (op_timestamp op) s) (\<lambda>sv.
          bind_res (broadcast (reply_with ''ABORT_Coordinator'' (op_timestamp op)) sv) (\<lambda>sv.
          map_res (Pair True) (reply_and_close ''ABORTED'' (FormatInt (op_timestamp op)) sv))))
      else Some (map_res (Pair False) (sendtoClient line (map_of (send_conn s) (op_branch op)) s)))"

lemma handleConnection_dispatched:
  assumes "handleConnection (\<lambda>_. sv) r rconn sconn = Some (Inr (b, sv'))" "readClient r \<noteq> ''Closed''"
  obtains op where "Init (TrimSpace (readClient r)) zero_Operation = Inr op"
    "dispatched op (TrimSpace (readClient r)) rconn sconn (add_conns (FormatInt (op_timestamp op)) rconn sconn sv) =
      Some (Inr (b, sv'))"
proof -
  from assms obtain op where op: "Init (TrimSpace (readClient r)) zero_Operation = Inr op"
    by (auto simp: handleConnection_def Let_def bind_go_return)
  then have "dispatched op (TrimSpace (readClient r)) rconn sconn (add_conns (FormatInt (op_timestamp op)) rconn sconn sv) =
      Some (Inr (b, sv'))"
    using assms unfolding handleConnection_def dispatched_def Let_def reply_with_def by simp
  with op show thesis by (rule that)
qed

lemma dispatched_handled:
  assumes "dispatched op line rconn sconn s = Some (Inr (b, sv'))" "op_branch op = me s \<or> op_method op = ''COMMIT''"
  obtains abort s' where "handleOperation (\<lambda>_. s) op (Some sconn) = Some (Inr (abort, s'))"
    "quiet_step s' sv'" "\<not> abort \<Longrightarrow> sv' = s'"
proof -
  obtain abort s' where h: "handleOperation (\<lambda>_. s) op (Some sconn) = Some (Inr (abort, s'))"
    and rest: "(if abort
      then Some (bind_res (Close (Some rconn) s') (\<lambda>sv. map_res (Pair True) (Close (Some sconn) sv)))
      else return_go (op_method op = ''COMMIT'', s')) = Some (Inr (b, sv'))"
    using assms by (auto simp: dispatched_def bind_go_return split del: if_split)
  moreover have "\<not> abort \<Longrightarrow> sv' = s'" using rest by (simp add: return_go_def)
  ultimately show thesis using close_pair_quiet [OF rest] by (intro that)
qed

lemma dispatched_quiet:
  assumes body: "dispatched op line rconn sconn s = Some (Inr (b, sv'))" and no: "op_method op \<noteq> ''COMMIT''"
    and parts: "idx (Fields line) 0 = Inr (op_method op)" "no_space (op_branch op)" "no_space (op_account op)"
      "op_method op \<in> {''DEPOSIT'', ''WITHDRAW'', ''BALANCE'', ''COMMIT'', ''ABORT''}"
  shows "quiet_step s sv'"
proof -
  consider (own) "op_branch op = me s" | (abort) "op_branch op \<noteq> me s" "op_method op = ''ABORT''"
    | (forward) "op_branch op \<noteq> me s" "op_method op \<noteq> ''ABORT''" by blast
  then show ?thesis
  proof cases
    case own
    obtain x s' where h: "handleOperation (\<lambda>_. s) op (Some sconn) = Some (Inr (x, s'))" "quiet_step s' sv'"
      using dispatched_handled [OF body] own by metis
    have "quiet_step s s'" using no parts(2,3) by (intro handleOperation_quiet [OF h(1)])
    then show ?thesis using h(2) by (rule quiet_trans)
  next
    case abort
    with body obtain s1 s2 where f: "DoAbort (op_timestamp op) s = Inr s1"
      "broadcast (reply_with ''ABORT_Coordinator'' (op_timestamp op)) s1 = Inr s2"
      "reply_and_close ''ABORTED'' (FormatInt (op_timestamp op)) s2 = Inr sv'"
      by (auto simp: dispatched_def bind_res_Inr map_res_Inr)
    have "quiet_step s1 s2" using broadcast_quiet [OF f(2)] by simp
    then show ?thesis
      using DoAbort_quiet [OF f(1)] reply_and_close_quiet [OF f(3)] by (auto intro: quiet_trans)
  next
    case forward
    with body no have "sendtoClient line (map_of (send_conn s) (op_branch op)) s = Inr sv'"
      by (auto simp: dispatched_def map_res_Inr)
    moreover have "quiet_words (Fields line)" using parts(1,4) by (auto simp: quiet_words_idx phase_word_def)
    ultimately show ?thesis using sendtoClient_quiet by blast
  qed
qed

lemma handleConnection_votes:
  assumes "handleConnection (\<lambda>_. sv) r rconn sconn = Some (Inr (b, sv'))"
  obtains (quiet) "quiet_step sv sv'" "\<And>ts. \<not> commit_request r ts"
  | (aborted) ts where "commit_request r ts" "int64_range ts" "quiet_step (reset_count (FormatInt ts) sv) sv'"
  | (asked) ts s where "commit_request r ts" "int64_range ts" "can_commit ts sv" "quiet_step sv s"
      "broadcast (reply_with ''COMMIT_PREPARE'' ts) (reset_count (FormatInt ts) s) = Inr sv'"
proof (cases "readClient r = ''Closed''")
  case True
  then have "sv' = sv" using assms by (simp add: handleConnection_def return_go_def)
  then show ?thesis using True quiet by (simp add: commit_request_def)
next
  case alive: False
  obtain op where op: "Init (TrimSpace (readClient r)) zero_Operation = Inr op"
    and body: "dispatched op (TrimSpace (readClient r)) rconn sconn (add_conns (FormatInt (op_timestamp op)) rconn sconn sv) =
      Some (Inr (b, sv'))"
    by (rule handleConnection_dispatched [OF assms alive])
  note parts = Init_parts [OF op]
  let ?ts = "op_timestamp op" let ?s = "add_conns (FormatInt ?ts) rconn sconn sv"
  have conns: "quiet_step sv ?s" by (rule add_conns_quiet)
  show ?thesis
  proof (cases "op_method op = ''COMMIT''")
    case commit: True
    then have req: "commit_request r ?ts" "int64_range ?ts" using alive op parts by (simp_all add: commit_request_def)
    obtain abort s where h: "handleOperation (\<lambda>_. ?s) op (Some sconn) = Some (Inr (abort, s))"
      and c: "quiet_step s sv'" "\<not> abort \<Longrightarrow> sv' = s"
      using dispatched_handled [OF body] commit by blast
    from handleOperation_commit [OF h commit] show ?thesis
    proof
      assume "quiet_step (reset_count (FormatInt ?ts) ?s) s"
      then have "quiet_step (reset_count (FormatInt ?ts) sv) sv'"
        using quiet_step_reset [OF conns] c(1) by (blast intro: quiet_trans)
      then show ?thesis using aborted req by blast
    qed (use req conns c(2) asked [of ?ts ?s] in simp)
  next
    case False
    then have "\<not> commit_request r ts" for ts using op by (simp add: commit_request_def)
    moreover have "quiet_step ?s sv'" using parts by (intro dispatched_quiet [OF body False]) simp_all
    ultimately show ?thesis using quiet conns by (blast intro: quiet_trans)
  qed
qed

lemma branch_write_quiet:
  assumes "branch_write tag operation conn sv = Inr sv'" "is_word tag" "\<not> phase_word tag"
  shows "quiet_step sv sv'"
proof -
  obtain op abort s where w: "write_sv op sv = Inr (abort, s)"
    and r: "(if abort then branch_abort tag (op_timestamp op) conn s
      else sendtoClient (reply_with ''OK'' (op_timestamp op)) conn s) = Inr sv'"
    using assms(1) by (auto simp: branch_write_def bind_res_Inr split del: if_split)
  have "quiet_step s sv'"
    using r assms(2,3) branch_abort_quiet [of tag] sendtoClient_quiet [of "reply_with ''OK'' (op_timestamp op)"]
    by (auto split: if_splits)
  then show ?thesis using write_quiet [OF w] quiet_trans by blast
qed

lemma branch_balance_quiet:
  assumes "branch_balance (\<lambda>_. sv) operation conn = Some (Inr sv')"
  shows "quiet_step sv sv'"
proof -
  obtain op v aborted s where op: "Init operation zero_Operation = Inr op"
    and rd: "read_sv (\<lambda>_. sv) op 0 = Some (v, aborted, s)"
    and r: "(if aborted then branch_abort ''NOT'' (op_timestamp op) conn s
      else sendtoClient (reply_with (op_branch op @ ''.'' @ op_account op @ '' = '' @ Itoa v) (op_timestamp op)) conn s)
      = Inr sv'"
    using assms by (auto simp: branch_balance_def bind_go_return split: option.splits)
  have "quiet_words (Fields (reply_with (op_branch op @ ''.'' @ op_account op @ '' = '' @ Itoa v) (op_timestamp op)))"
    using quiet_dotted [of "op_branch op" "op_account op" "Itoa v @ '' '' @ FormatInt (op_timestamp op)"] Init_parts [OF op]
    by (simp add: reply_with_def)
  then have "quiet_step s sv'"
    using r branch_abort_quiet [of "''NOT''"] sendtoClient_quiet by (auto split: if_splits)
  then show ?thesis using read_quiet [OF rd] quiet_trans by blast
qed

lemma coordinator_abort_quiet:
  assumes "coordinator_abort words sv = Inr sv'" "idx words 0 \<in> {Inr ''ABORTED'', Inr ''NOT''}"
  shows "quiet_step sv sv'"
proof -
  obtain w0 key ts s1 s2 where w0: "idx words 0 = Inr w0" and f: "DoAbort ts sv = Inr s1"
    "broadcast (reply_with ''ABORT_Coordinator'' ts) s1 = Inr s2"
    "reply_and_close (if w0 = ''NOT'' then ''NOT FOUND, ABORTED'' else w0) key s2 = Inr sv'"
    using assms(1) by (auto simp: coordinator_abort_def bind_res_Inr split del: if_split)
  have "quiet_step s1 s2" using broadcast_quiet [OF f(2)] by simp
  moreover have "quiet_step s2 sv'" using reply_and_close_quiet [OF f(3)] assms(2) w0 by auto
  ultimately show ?thesis using DoAbort_quiet [OF f(1)] quiet_trans by blast
qed

lemma relay_quiet:
  assumes "relay words sv = Inr sv'" "list_all is_word words" "quiet_words words"
  shows "quiet_step sv sv'"
proof -
  obtain ws key where ws: "slice_to words (len words - 1) = Inr ws"
    and r: "sendtoClient (Join ws '' '') (map_of (send_conn sv) key) sv = Inr sv'"
    using assms(1) by (auto simp: relay_def bind_res_Inr)
  have w: "ws = take (nat (len words - 1)) words" using ws by (simp add: slice_to_Inr)
  then have "list_all is_word ws" using assms(2) by (auto simp: list_all_iff dest: in_set_takeD)
  moreover have "quiet_words ws" using assms(3) w by (cases words; cases "nat (len words - 1)") auto
  ultimately show ?thesis using sendtoClient_quiet [OF r] by (simp add: Fields_Join)
qed

lemma prepare_votes:
  assumes "prepare words conn sv = Inr sv'" "idx words 1 = Inr w"
  defines "ts \<equiv> fst (ParseInt w)"
  shows "quiet_step sv sv' \<or>
    can_commit ts sv \<and> sendtoClient (reply_with ''COMMIT_READY'' ts) conn sv = Inr sv'"
proof -
  obtain can s where c: "CheckCommit ts sv = Inr (can, s)"
    and r: "if can then sendtoClient (reply_with ''COMMIT_READY'' ts) conn s = Inr sv'
      else branch_abort ''ABORTED'' ts conn s = Inr sv'"
    using assms by (auto simp: prepare_def Let_def bind_res_Inr split: if_splits)
  show ?thesis
  proof (cases can)
    case True
    then show ?thesis using c r by (simp add: CheckCommit_True)
  next
    case False
    then show ?thesis
      using r CheckCommit_quiet [OF c] branch_abort_quiet [of "''ABORTED''" ts conn s sv'] by (auto intro: quiet_trans)
  qed
qed

lemma commit_ready_votes:
  assumes "commit_ready words sv = Some (Inr sv')" "bank_ok sv" "idx words 1 = Inr key"
  shows "if get_or 0 (commitCount sv) key = 3
    then \<exists>s1 s2. quiet_step (count_ready key sv) s1 \<and> broadcast (Join [''COMMIT_OK'', key] '' '') s1 = Inr s2 \<and> quiet_step s2 sv'
    else sv' = count_ready key sv"
proof -
  have "if get_or 0 (commitCount sv) key = 3
      then bind_go (Some (checked (ParseInt key))) (\<lambda>ts.
            bind_go (DoCommit ts (count_ready key sv)) (\<lambda>sv. Some (
              bind_res (broadcast (Join [''COMMIT_OK'', key] '' '') sv) (reply_and_close ''COMMIT OK'' key)))) = Some (Inr sv')
      else sv' = count_ready key sv"
    using assms(1,3)
    by (auto simp: commit_ready_def bind_go_return [of "Some (idx words 1)"] Let_def count_ready_def return_go_def
        simp del: Join.simps split: if_splits)
  moreover have "bank_ok (count_ready key sv)" using assms(2) by (simp add: count_ready_def bank_ok_def)
  ultimately show ?thesis
    by (auto simp: bind_go_return bind_res_Inr simp del: Join.simps split: if_splits
        dest!: DoCommit_quiet reply_and_close_quiet)
qed

text \<open>A message of another branch.\<close>

lemma other_message_quiet:
  assumes h: "handleBranch (\<lambda>_. sv) r conn = Some (Inr sv')" and w0: "idx (message_words r) 0 = Inr w0"
    and other: "\<not> phase_word w0"
  shows "quiet_step sv sv'"
proof -
  let ?ws = "message_words r"
  have words: "list_all is_word ?ws" by (simp add: message_words_def Fields_words)
  note body = h [unfolded handleBranch_def Let_def message_words_def [symmetric] w0 bind_go_simps]
  consider "w0 = ''DEPOSIT''" | "w0 = ''WITHDRAW''" | "w0 = ''BALANCE''" | "w0 = ''ABORT_Coordinator''"
    | "w0 = ''ABORTED'' \<or> w0 = ''NOT''"
    | "w0 \<noteq> ''DEPOSIT''" "w0 \<noteq> ''WITHDRAW''" "w0 \<noteq> ''BALANCE''" "w0 \<noteq> ''ABORT_Coordinator''"
        "w0 \<noteq> ''ABORTED''" "w0 \<noteq> ''NOT''" by argo
  then show ?thesis
  proof cases
    case 1
    then show ?thesis using body branch_write_quiet [of "''ABORTED''"] by simp
  next
    case 2
    then show ?thesis using body branch_write_quiet [of "''NOT''"] by simp
  next
    case 3
    then show ?thesis using body branch_balance_quiet by simp
  next
    case 4
    then obtain ts where "DoAbort ts sv = Inr sv'" using body by (auto simp: bind_res_Inr)
    then show ?thesis by (rule DoAbort_quiet)
  next
    case 5
    then have "coordinator_abort ?ws sv = Inr sv'" using body by auto
    then show ?thesis using w0 5 by (intro coordinator_abort_quiet) auto
  next
    case 6
    then have "relay ?ws sv = Inr sv'" using body other by (simp add: phase_word_def)
    then show ?thesis using words other quiet_words_idx [OF w0] by (intro relay_quiet) simp_all
  qed
qed

lemma handleBranch_votes:
  assumes h: "handleBranch (\<lambda>_. sv) r conn = Some (Inr sv')" and ok: "bank_ok sv"
  obtains (quiet) "quiet_step sv sv'"
  | (voted) w where "idx (message_words r) 0 = Inr ''COMMIT_PREPARE''" "idx (message_words r) 1 = Inr w"
      "can_commit (fst (ParseInt w)) sv"
      "sendtoClient (reply_with ''COMMIT_READY'' (fst (ParseInt w))) conn sv = Inr sv'"
  | (counted) key where "idx (message_words r) 0 = Inr ''COMMIT_READY''" "idx (message_words r) 1 = Inr key"
      "sv' = count_ready key sv"
  | (fourth) key s1 s2 where "idx (message_words r) 0 = Inr ''COMMIT_READY''" "idx (message_words r) 1 = Inr key"
      "get_or 0 (commitCount sv) key = 3" "quiet_step (count_ready key sv) s1"
      "broadcast (Join [''COMMIT_OK'', key] '' '') s1 = Inr s2" "quiet_step s2 sv'"
proof -
  let ?ws = "message_words r"
  obtain w0 where w0: "idx ?ws 0 = Inr w0"
    using h by (auto simp: handleBranch_def Let_def message_words_def bind_go_return)
  note body = h [unfolded handleBranch_def Let_def message_words_def [symmetric] w0 bind_go_simps]
  consider (prep) "w0 = ''COMMIT_PREPARE''" | (ready) "w0 = ''COMMIT_READY''" | (commit) "w0 = ''COMMIT_OK''"
    | (other) "\<not> phase_word w0" by (auto simp: phase_word_def)
  then show ?thesis
  proof cases
    case prep
    then have p: "prepare ?ws conn sv = Inr sv'" using body by simp
    then obtain w where w: "idx ?ws 1 = Inr w" by (auto simp: prepare_def bind_res_Inr)
    then show ?thesis using prepare_votes [OF p w] w0 prep quiet voted by auto
  next
    case ready
    then have c: "commit_ready ?ws sv = Some (Inr sv')" using body by simp
    then obtain key where k: "idx ?ws 1 = Inr key" by (auto simp: commit_ready_def bind_go_return)
    show ?thesis
      using commit_ready_votes [OF c ok k] w0 ready k counted fourth by (auto split: if_splits)
  next
    case commit
    then obtain ts where "DoCommit ts sv = Some (Inr sv')" using body by (auto simp: bind_go_return)
    then show ?thesis using quiet DoCommit_quiet [OF ok] by blast
  next
    case other
    show ?thesis by (rule quiet [OF other_message_quiet [OF h w0 other]])
  qed
qed

end
