(* ===== verification/BankSystem.thy ===== *)
theory BankSystem
  imports BankVotes
begin

text \<open>
  The five branches of \<open>mp3/server/server.go\<close> together: each pair is joined by a connection in
  each direction, which carries what its sender wrote, in order, one message per \<open>Read\<close>.
  Clients talk to any branch. Handlers run one after the other, so that a read that waits takes
  effect at the moment it ends. The two-phase commit is correct across them: nothing is committed
  that not all five branches have checked.
\<close>

section \<open>The system\<close>

text \<open>What a branch has written to branch \<open>n\<close>, oldest first.\<close>

fun sent_on :: "Conn \<Rightarrow> net_event list \<Rightarrow> string list" where
  "sent_on conn [] = []"
| "sent_on conn (Sent c msg # es) = (if conn = Some c then msg # sent_on conn es else sent_on conn es)"
| "sent_on conn (_ # es) = sent_on conn es"

definition stream :: "Server \<Rightarrow> string \<Rightarrow> string list" where
  "stream sv n = sent_on (map_of (send_conn sv) n) (net sv)"

record System =
  branch :: "string \<Rightarrow> Server"
  seen :: "string \<Rightarrow> string \<Rightarrow> nat" \<comment> \<open>how much of what one branch wrote the other has read\<close>

datatype sys_event =
    Client_says string nat nat read_result
  | Deliver string string \<comment> \<open>the next message from one branch to another\<close>

abbreviation next_message :: "System \<Rightarrow> string \<Rightarrow> string \<Rightarrow> string" where
  "next_message S m n \<equiv> stream (branch S m) n ! seen S m n"

fun sys_step :: "sys_event \<Rightarrow> System \<Rightarrow> (bool \<times> System) res option" where
  "sys_step (Client_says b rconn sconn r) S =
     (if b \<in> set branch_names
      then bind_go (bank_step (From_client rconn sconn r) (branch S b)) (\<lambda>(stop, sv).
             return_go (stop, S\<lparr>branch := (branch S)(b := sv)\<rparr>))
      else None)"
| "sys_step (Deliver m n) S =
     (if m \<in> set branch_names \<and> n \<in> set branch_names \<and> m \<noteq> n \<and> seen S m n < length (stream (branch S m) n)
      then bind_go (bank_step (From_branch m (Bytes (next_message S m n))) (branch S n)) (\<lambda>(stop, sv).
             return_go (stop, S\<lparr>branch := (branch S)(n := sv),
               seen := (seen S)(m := (seen S m)(n := Suc (seen S m n)))\<rparr>))
      else None)"

definition any_sys_event :: "sys_event \<Rightarrow> System \<Rightarrow> bool" where
  "any_sys_event e S = True"

text \<open>A branch that is connected to the four others, each by a connection of its own.\<close>

definition wired :: "string \<Rightarrow> Server \<Rightarrow> bool" where
  "wired b sv \<longleftrightarrow> me sv = b \<and> distinct (map snd (name sv)) \<and> set (map snd (name sv)) = set branch_names \<and>
     (\<forall>n \<in> set branch_names - {b}. map_of (send_conn sv) n \<noteq> None) \<and>
     inj_on (map_of (send_conn sv)) (set branch_names - {b})"

text \<open>
  The system when all branches are connected, none has written to another yet, and no commit
  has been asked for; their accounts and tentative writes may be any.
\<close>

definition connected_system :: "System \<Rightarrow> bool" where
  "connected_system S \<longleftrightarrow> (\<forall>b \<in> set branch_names. wired b (branch S b) \<and> bank_ok (branch S b) \<and>
     commitCount (branch S b) = [] \<and> (\<forall>n \<in> set branch_names. seen S b n = 0) \<and>
     (\<forall>n \<in> set branch_names - {b}. stream (branch S b) n = []))"

section \<open>Messages of the commit protocol in a stream\<close>

definition asks_text :: "int \<Rightarrow> string \<Rightarrow> bool" where
  "asks_text ts msg \<longleftrightarrow> idx (Fields msg) 0 = Inr ''COMMIT_PREPARE'' \<and>
     (case idx (Fields msg) 1 of Inl _ \<Rightarrow> False | Inr w \<Rightarrow> fst (ParseInt w) = ts)"

definition votes_text :: "string \<Rightarrow> string \<Rightarrow> bool" where
  "votes_text key msg \<longleftrightarrow> idx (Fields msg) 0 = Inr ''COMMIT_READY'' \<and> idx (Fields msg) 1 = Inr key"

definition decides_text :: "string \<Rightarrow> string \<Rightarrow> bool" where
  "decides_text key msg \<longleftrightarrow> idx (Fields msg) 0 = Inr ''COMMIT_OK'' \<and> idx (Fields msg) 1 = Inr key"

abbreviation tally :: "('a \<Rightarrow> bool) \<Rightarrow> 'a list \<Rightarrow> nat" where
  "tally P xs \<equiv> length (filter P xs)"

lemma tally_take: "tally P (take k xs) \<le> tally P xs"
  by (metis append_take_drop_id filter_append le_add1 length_append)

lemma quiet_no_phase:
  assumes "quiet_words (Fields msg)"
  shows "\<not> asks_text ts msg" "\<not> votes_text key msg" "\<not> decides_text key msg"
  using assms by (auto simp: asks_text_def votes_text_def decides_text_def phase_word_def quiet_words_idx)

lemma phase_disjoint:
  "asks_text ts msg \<Longrightarrow> \<not> votes_text key msg" "asks_text ts msg \<Longrightarrow> \<not> decides_text key msg"
  "votes_text key msg \<Longrightarrow> \<not> asks_text ts msg" "votes_text key msg \<Longrightarrow> \<not> decides_text key' msg"
  "decides_text key msg \<Longrightarrow> \<not> asks_text ts msg" "decides_text key msg \<Longrightarrow> \<not> votes_text key' msg"
  by (auto simp: asks_text_def votes_text_def decides_text_def)

lemma phase_words_word: "is_word ''COMMIT_PREPARE''" "is_word ''COMMIT_READY''" "is_word ''COMMIT_OK''"
  by (simp_all add: keyword_words)

lemma asks_reply [simp]: "int64_range ts \<Longrightarrow> asks_text ts' (reply_with ''COMMIT_PREPARE'' ts @ [newline]) \<longleftrightarrow> ts' = ts"
  by (auto simp: asks_text_def tag_words(1) phase_words_word idx_def ParseInt_FormatInt)

lemma votes_reply [simp]: "votes_text key (reply_with ''COMMIT_READY'' ts @ [newline]) \<longleftrightarrow> key = FormatInt ts"
  by (auto simp: votes_text_def tag_words(1) phase_words_word idx_def)

lemma ParseInt_in_range: "int64_range (fst (ParseInt s))"
  by (auto simp: ParseInt_def Let_def int64_range_def split: option.splits)

section \<open>What a step adds to the streams\<close>

lemma sent_on_append [simp]: "sent_on conn (xs @ ys) = sent_on conn xs @ sent_on conn ys"
  by (induction conn xs rule: sent_on.induct) auto

lemma sent_on_ordinary: "list_all ordinary os \<Longrightarrow> msg \<in> set (sent_on conn os) \<Longrightarrow> quiet_words (Fields msg)"
  by (induction conn os rule: sent_on.induct) (auto split: if_splits)

lemma quiet_stream:
  assumes "quiet_step sv sv'" "n \<in> set branch_names"
  shows "\<exists>xs. stream sv' n = stream sv n @ xs \<and> list_all (\<lambda>msg. quiet_words (Fields msg)) xs"
proof -
  obtain os where os: "net sv' = net sv @ os" "list_all ordinary os" using assms(1) by (auto simp: quiet_step_def)
  have "map_of (send_conn sv') n = map_of (send_conn sv) n"
    using assms branch_name_no_stamp by (simp add: quiet_step_def)
  then show ?thesis
    using os sent_on_ordinary [OF os(2)] by (auto simp: stream_def list_all_iff)
qed

lemma wired_quiet: "quiet_step sv sv' \<Longrightarrow> wired b sv \<Longrightarrow> wired b sv'"
proof -
  assume q: "quiet_step sv sv'" and w: "wired b sv"
  have "map_of (send_conn sv') n = map_of (send_conn sv) n" if "n \<in> set branch_names" for n
    using q that branch_name_no_stamp by (simp add: quiet_step_def)
  then show ?thesis using q w by (auto simp: wired_def quiet_step_def inj_on_def)
qed

lemma wired_counts [simp]:
  "wired b (reset_count key sv) = wired b sv" "wired b (count_ready key sv) = wired b sv"
  "stream (reset_count key sv) n = stream sv n" "stream (count_ready key sv) n = stream sv n"
  by (simp_all add: wired_def stream_def reset_count_def count_ready_def)

text \<open>A message to every other branch.\<close>

lemma sent_on_each:
  assumes "inj_on f A" "set ns \<subseteq> A" "distinct ns" "n \<in> A" "\<And>m. m \<in> set ns \<Longrightarrow> f m \<noteq> None"
  shows "sent_on (f n) (map (\<lambda>m. Sent (the (f m)) msg) ns) = (if n \<in> set ns then [msg] else [])"
  using assms(2,3,5)
proof (induction ns)
  case (Cons m ns)
  then obtain c where c: "f m = Some c" by auto
  have "f n = Some c \<longleftrightarrow> n = m" using assms(1,4) Cons.prems(1) c by (auto simp: inj_on_def)
  then show ?case using Cons c by auto
qed simp

lemma broadcast_stream:
  assumes "wired b sv" "broadcast msg sv = Inr sv'"
  shows "wired b sv'" "commitCount sv' = commitCount sv"
    "n \<in> set branch_names - {b} \<Longrightarrow> stream sv' n = stream sv n @ [msg @ [newline]]"
proof -
  have o: "set (others sv) = set branch_names - {b}" "distinct (others sv)"
    using assms(1) by (auto simp: others_def wired_def)
  have conns: "map_of (send_conn sv) m \<noteq> None" if "m \<in> set (others sv)" for m
    using assms(1) that o(1) by (simp add: wired_def)
  then have sv': "sv' = sv\<lparr>net := net sv @ map (\<lambda>n. Sent (the (map_of (send_conn sv) n)) (msg @ [newline])) (others sv)\<rparr>"
    using broadcast_sends [of sv msg] assms(2) by simp
  then show "wired b sv'" "commitCount sv' = commitCount sv" using assms(1) by (simp_all add: wired_def)
  assume n: "n \<in> set branch_names - {b}"
  have "inj_on (map_of (send_conn sv)) (set branch_names - {b})" using assms(1) by (simp add: wired_def)
  from sent_on_each [OF this _ o(2) n conns] n o(1)
  show "stream sv' n = stream sv n @ [msg @ [newline]]" by (simp add: sv' stream_def)
qed

lemma broadcast_net:
  assumes "wired b sv" "broadcast msg sv = Inr sv'"
  shows "\<exists>sent. net sv' = net sv @ sent"
proof -
  have "\<forall>m \<in> set (others sv). map_of (send_conn sv) m \<noteq> None"
    using assms(1) by (auto simp: wired_def others_def)
  then show ?thesis using broadcast_sends [of sv msg] assms(2) by auto
qed

text \<open>A message to one branch.\<close>

lemma send_stream:
  assumes "wired b sv" "m \<in> set branch_names - {b}" "sendtoClient msg (map_of (send_conn sv) m) sv = Inr sv'"
  shows "wired b sv'" "commitCount sv' = commitCount sv"
    "n \<in> set branch_names - {b} \<Longrightarrow> stream sv' n = stream sv n @ (if n = m then [msg @ [newline]] else [])"
proof -
  obtain c where c: "map_of (send_conn sv) m = Some c" "sv' = sv\<lparr>net := net sv @ [Sent c (msg @ [newline])]\<rparr>"
    using assms(3) by (auto simp: sendtoClient_def split: option.splits)
  then show "wired b sv'" "commitCount sv' = commitCount sv" using assms(1) by (simp_all add: wired_def)
  assume n: "n \<in> set branch_names - {b}"
  have "inj_on (map_of (send_conn sv)) (set branch_names - {b})" using assms(1) by (simp add: wired_def)
  then have "map_of (send_conn sv) n = Some c \<longleftrightarrow> n = m" using c(1) n assms(2) by (metis inj_onD)
  then show "stream sv' n = stream sv n @ (if n = m then [msg @ [newline]] else [])"
    by (simp add: c(2) stream_def)
qed

section \<open>What one event does to a branch\<close>

definition grows :: "string \<Rightarrow> Server \<Rightarrow> Server \<Rightarrow> (string \<Rightarrow> string list) \<Rightarrow> bool" where
  "grows b sv sv' xs \<longleftrightarrow> wired b sv' \<and> (\<forall>p \<in> set branch_names - {b}. stream sv' p = stream sv p @ xs p)"

definition all_quiet :: "string list \<Rightarrow> bool" where
  "all_quiet xs \<longleftrightarrow> list_all (\<lambda>msg. quiet_words (Fields msg)) xs"

lemma all_quiet_none:
  assumes "all_quiet xs"
  shows "tally (asks_text ts) xs = 0" "tally (votes_text key) xs = 0"
    "msg \<in> set xs \<Longrightarrow> \<not> asks_text ts msg" "msg \<in> set xs \<Longrightarrow> \<not> votes_text key msg"
    "msg \<in> set xs \<Longrightarrow> \<not> decides_text key msg"
  using assms quiet_no_phase by (auto simp: all_quiet_def list_all_iff filter_empty_conv)

lemma quiet_grows:
  assumes "quiet_step sv sv'" "wired b sv"
  shows "\<exists>xs. grows b sv sv' xs \<and> (\<forall>p. all_quiet (xs p)) \<and> commitCount sv' = commitCount sv"
proof -
  have "\<exists>xs. n \<in> set branch_names \<longrightarrow> stream sv' n = stream sv n @ xs \<and> all_quiet xs" for n
    using quiet_stream [OF assms(1), of n] unfolding all_quiet_def by blast
  then obtain xs where xs: "\<And>n. n \<in> set branch_names \<Longrightarrow> stream sv' n = stream sv n @ xs n \<and> all_quiet (xs n)"
    by metis
  let ?xs = "\<lambda>p. if p \<in> set branch_names then xs p else []"
  have "grows b sv sv' ?xs" using xs wired_quiet [OF assms] by (simp add: grows_def)
  moreover have "all_quiet (?xs p)" for p using xs by (simp add: all_quiet_def)
  moreover have "commitCount sv' = commitCount sv" using assms(1) by (simp add: quiet_step_def)
  ultimately show ?thesis by blast
qed

lemma grows_trans: "grows b sv s1 xs \<Longrightarrow> grows b s1 s2 ys \<Longrightarrow> grows b sv s2 (\<lambda>p. xs p @ ys p)"
  by (simp add: grows_def)

lemma grows_counts [simp]:
  "grows b (reset_count key sv) sv' xs = grows b sv sv' xs" "grows b sv (reset_count key sv') xs = grows b sv sv' xs"
  "grows b (count_ready key sv) sv' xs = grows b sv sv' xs"
  by (simp_all add: grows_def)

lemma client_event_effect:
  assumes st: "bank_step (From_client rconn sconn r) sv = Some (Inr (x, sv'))" and w: "wired b sv"
  obtains xs where "grows b sv sv' xs"
    "\<And>p key msg. msg \<in> set (xs p) \<Longrightarrow> \<not> votes_text key msg \<and> \<not> decides_text key msg"
    "\<And>p ts. tally (asks_text ts) (xs p) \<le> (if commit_request r ts then 1 else 0)"
    "\<And>p ts msg. msg \<in> set (xs p) \<Longrightarrow> asks_text ts msg \<Longrightarrow> commit_request r ts \<and> can_commit ts sv"
    "\<And>key. get_or 0 (commitCount sv') key \<le> max 0 (get_or 0 (commitCount sv) key)"
proof -
  have h: "handleConnection (\<lambda>_. sv) r rconn sconn = Some (Inr (x, sv'))" using st by (simp add: bank_step_def)
  show ?thesis
  proof (rule handleConnection_votes [OF h])
    assume q: "quiet_step sv sv'"
    obtain xs where xs: "grows b sv sv' xs" "\<And>p. all_quiet (xs p)" "commitCount sv' = commitCount sv"
      using quiet_grows [OF q w] by blast
    show ?thesis by (rule that [OF xs(1)]) (use all_quiet_none [OF xs(2)] xs(3) in auto)
  next
    fix ts assume q: "quiet_step (reset_count (FormatInt ts) sv) sv'"
    obtain xs where xs: "grows b (reset_count (FormatInt ts) sv) sv' xs" "\<And>p. all_quiet (xs p)"
      "commitCount sv' = commitCount (reset_count (FormatInt ts) sv)"
      using quiet_grows [OF q, of b] w by auto
    show ?thesis
      by (rule that [OF xs(1) [unfolded grows_counts]])
         (use xs(3) all_quiet_none [OF xs(2)] in \<open>auto simp: reset_count_def\<close>)
  next
    fix ts s assume req: "commit_request r ts" "int64_range ts" "can_commit ts sv"
      and q: "quiet_step sv s"
      and br: "broadcast (reply_with ''COMMIT_PREPARE'' ts) (reset_count (FormatInt ts) s) = Inr sv'"
    obtain xs where xs: "grows b sv s xs" "\<And>p. all_quiet (xs p)" "commitCount s = commitCount sv"
      using quiet_grows [OF q w] by blast
    have ws: "wired b (reset_count (FormatInt ts) s)" using xs(1) by (simp add: grows_def)
    let ?msg = "reply_with ''COMMIT_PREPARE'' ts @ [newline]"
    have "grows b s sv' (\<lambda>p. [?msg])"
      using broadcast_stream [OF ws br] by (simp add: grows_def)
    from grows_trans [OF xs(1) this] show ?thesis
    proof (rule that)
      fix p key msg
      have "\<not> votes_text key ?msg" "\<not> decides_text key ?msg"
        using phase_disjoint(1,2) [of ts ?msg] req(2) by simp_all
      then show "msg \<in> set (xs p @ [?msg]) \<Longrightarrow> \<not> votes_text key msg \<and> \<not> decides_text key msg"
        using all_quiet_none [OF xs(2)] by auto
    next
      fix p ts' show "tally (asks_text ts') (xs p @ [?msg]) \<le> (if commit_request r ts' then 1 else 0)"
        using all_quiet_none(1) [OF xs(2)] req by simp
    next
      fix p ts' msg assume "msg \<in> set (xs p @ [?msg])" "asks_text ts' msg"
      then show "commit_request r ts' \<and> can_commit ts' sv"
        using all_quiet_none(3) [OF xs(2)] req by auto
    next
      fix key show "get_or 0 (commitCount sv') key \<le> max 0 (get_or 0 (commitCount sv) key)"
        using broadcast_stream(2) [OF ws br] xs(3) by (simp add: reset_count_def)
    qed
  qed
qed

text \<open>
  What branch \<open>b\<close>, having read \<open>t\<close> from \<open>m\<close>, may have written to the others: no question, an answer
  only to a question it read, a decision only on the fourth answer.
\<close>

definition wrote :: "string \<Rightarrow> string \<Rightarrow> string \<Rightarrow> Server \<Rightarrow> Server \<Rightarrow> (string \<Rightarrow> string list) \<Rightarrow> bool" where
  "wrote b m t sv sv' xs \<longleftrightarrow> grows b sv sv' xs \<and>
     (\<forall>p ts msg. msg \<in> set (xs p) \<longrightarrow> \<not> asks_text ts msg) \<and>
     (\<forall>p ts. int64_range ts \<longrightarrow>
        tally (votes_text (FormatInt ts)) (xs p) \<le> tally (asks_text ts) (if p = m then [t] else [])) \<and>
     (\<forall>p key msg. msg \<in> set (xs p) \<and> votes_text key msg \<longrightarrow>
        (\<exists>ts. int64_range ts \<and> key = FormatInt ts \<and> asks_text ts t \<and> can_commit ts sv)) \<and>
     (\<forall>p key msg. msg \<in> set (xs p) \<and> decides_text key msg \<longrightarrow>
        votes_text key t \<and> get_or 0 (commitCount sv) key = 3) \<and>
     (\<forall>key. get_or 0 (commitCount sv') key \<le>
        max 0 (get_or 0 (commitCount sv) key) + (if votes_text key t then 1 else 0))"

lemma wroteD:
  assumes "wrote b m t sv sv' xs"
  shows "grows b sv sv' xs" "msg \<in> set (xs p) \<Longrightarrow> \<not> asks_text ts msg"
    "int64_range ts \<Longrightarrow> tally (votes_text (FormatInt ts)) (xs p) \<le> tally (asks_text ts) (if p = m then [t] else [])"
    "msg \<in> set (xs p) \<Longrightarrow> votes_text key msg \<Longrightarrow>
       \<exists>ts. int64_range ts \<and> key = FormatInt ts \<and> asks_text ts t \<and> can_commit ts sv"
    "msg \<in> set (xs p) \<Longrightarrow> decides_text key msg \<Longrightarrow> votes_text key t \<and> get_or 0 (commitCount sv) key = 3"
    "get_or 0 (commitCount sv') key \<le> max 0 (get_or 0 (commitCount sv) key) + (if votes_text key t then 1 else 0)"
  using assms unfolding wrote_def by blast+

lemma wrote_no_vote:
  assumes "grows b sv sv' xs" and no: "\<And>p ts key msg. msg \<in> set (xs p) \<Longrightarrow> \<not> asks_text ts msg \<and> \<not> votes_text key msg"
    and "\<And>p key msg. msg \<in> set (xs p) \<Longrightarrow> decides_text key msg \<Longrightarrow> votes_text key t \<and> get_or 0 (commitCount sv) key = 3"
    and "\<And>key. get_or 0 (commitCount sv') key \<le>
      max 0 (get_or 0 (commitCount sv) key) + (if votes_text key t then 1 else 0)"
  shows "\<exists>xs. wrote b m t sv sv' xs"
proof -
  have "tally (votes_text key) (xs p) = 0" for key p using no by (auto simp: filter_empty_conv)
  then have "wrote b m t sv sv' xs" unfolding wrote_def using assms by (metis le0)
  then show ?thesis by blast
qed

lemma wrote_quiet:
  assumes "quiet_step sv sv'" "wired b sv"
  shows "\<exists>xs. wrote b m t sv sv' xs"
proof -
  obtain xs where xs: "grows b sv sv' xs" "\<And>p. all_quiet (xs p)" "commitCount sv' = commitCount sv"
    using quiet_grows [OF assms] by blast
  show ?thesis by (rule wrote_no_vote [OF xs(1)]) (use all_quiet_none(3-5) [OF xs(2)] xs(3) in auto)
qed

lemma wrote_vote:
  assumes t: "idx (Fields t) 0 = Inr ''COMMIT_PREPARE''" "idx (Fields t) 1 = Inr word"
    and can: "can_commit (fst (ParseInt word)) sv" and w: "wired b sv" and m: "m \<in> set branch_names - {b}"
    and snd: "sendtoClient (reply_with ''COMMIT_READY'' (fst (ParseInt word))) (map_of (send_conn sv) m) sv = Inr sv'"
  shows "\<exists>xs. wrote b m t sv sv' xs"
proof -
  let ?ts = "fst (ParseInt word)"
  let ?msg = "reply_with ''COMMIT_READY'' ?ts @ [newline]"
  let ?xs = "\<lambda>p. if p = m then [?msg] else []"
  have asks: "asks_text ts t \<longleftrightarrow> ts = ?ts" for ts using t by (auto simp: asks_text_def)
  have v: "votes_text (FormatInt ?ts) ?msg" by simp
  have range: "int64_range ?ts" by (rule ParseInt_in_range)
  have "grows b sv sv' ?xs" using send_stream [OF w m snd] by (simp add: grows_def)
  moreover have "tally (votes_text (FormatInt ts)) (?xs p) \<le> tally (asks_text ts) (if p = m then [t] else [])"
    if "int64_range ts" for p ts
    using that FormatInt_inj [of ts ?ts] range by (simp add: asks)
  moreover have "\<exists>ts. int64_range ts \<and> key = FormatInt ts \<and> asks_text ts t \<and> can_commit ts sv"
    if "msg \<in> set (?xs p)" "votes_text key msg" for p key msg
    using that can range by (auto simp: asks split: if_splits)
  ultimately have "wrote b m t sv sv' ?xs"
    unfolding wrote_def using phase_disjoint(3,4) [OF v] send_stream(2) [OF w m snd] by (auto split: if_splits)
  then show ?thesis by blast
qed

lemma wrote_decision:
  assumes t: "idx (Fields t) 0 = Inr ''COMMIT_READY''" "idx (Fields t) 1 = Inr key"
    and c: "get_or 0 (commitCount sv) key = 3" and w: "wired b sv" and q1: "quiet_step (count_ready key sv) s1"
    and br: "broadcast (Join [''COMMIT_OK'', key] '' '') s1 = Inr s2" and q2: "quiet_step s2 sv'"
  shows "\<exists>xs. wrote b m t sv sv' xs"
proof -
  have v: "votes_text key' t \<longleftrightarrow> key' = key" for key' using t by (auto simp: votes_text_def)
  have "is_word key" using idx_mem [OF t(2)] Fields_words [of t] by (auto simp: list_all_iff)
  then have f: "Fields (Join [''COMMIT_OK'', key] '' '') = [''COMMIT_OK'', key]"
    by (intro Fields_Join) (simp add: phase_words_word)
  let ?msg = "Join [''COMMIT_OK'', key] '' '' @ [newline]"
  have d: "decides_text key' ?msg \<longleftrightarrow> key' = key" for key'
    by (auto simp: decides_text_def f idx_def simp del: Join.simps)
  note none = phase_disjoint(5,6) [OF d [THEN iffD2, OF refl]]
  obtain xs where xs: "grows b (count_ready key sv) s1 xs" "\<And>p. all_quiet (xs p)"
    "commitCount s1 = commitCount (count_ready key sv)"
    using quiet_grows [OF q1, of b] w by auto
  have "wired b s1" using xs(1) by (simp add: grows_def)
  note bs = broadcast_stream [OF this br]
  obtain ys where ys: "grows b s2 sv' ys" "\<And>p. all_quiet (ys p)" "commitCount sv' = commitCount s2"
    using quiet_grows [OF q2 bs(1)] by blast
  let ?xs = "\<lambda>p. xs p @ [?msg] @ ys p"
  have "grows b s1 s2 (\<lambda>p. [?msg])" using bs(1,3) by (simp add: grows_def)
  then have "grows b sv sv' ?xs"
    using grows_trans [OF xs(1) [unfolded grows_counts] grows_trans [OF _ ys(1)]] by blast
  moreover have "votes_text key' t \<and> get_or 0 (commitCount sv) key' = 3"
    if "msg \<in> set (?xs p)" "decides_text key' msg" for p key' msg
    using that all_quiet_none(5) [OF xs(2)] all_quiet_none(5) [OF ys(2)] d v c by (auto simp del: Join.simps)
  moreover have "get_or 0 (commitCount sv') key' \<le>
      max 0 (get_or 0 (commitCount sv) key') + (if votes_text key' t then 1 else 0)" for key'
    using ys(3) bs(2) xs(3) v by (auto simp: count_ready_def)
  moreover have "msg \<in> set (?xs p) \<Longrightarrow> \<not> asks_text ts msg \<and> \<not> votes_text key' msg" for p ts key' msg
    using none all_quiet_none(3,4) [OF xs(2)] all_quiet_none(3,4) [OF ys(2)] by (auto simp del: Join.simps)
  ultimately show ?thesis by (intro wrote_no_vote [of b sv sv' ?xs]) blast+
qed

lemma branch_event_effect:
  assumes st: "bank_step (From_branch m (Bytes t)) sv = Some (Inr (x, sv'))" and w: "wired b sv"
    and m: "m \<in> set branch_names - {b}" and ok: "bank_ok sv"
  shows "\<exists>xs. wrote b m t sv sv' xs"
proof -
  have h: "handleBranch (\<lambda>_. sv) (Bytes t) (map_of (send_conn sv) m) = Some (Inr sv')"
    using st by (auto simp: bank_step_def bind_go_return return_go_def)
  have words: "message_words (Bytes t) = Fields t"
    by (simp add: message_words_def readClient_def Fields_TrimSpace)
  show ?thesis
  proof (rule handleBranch_votes [OF h ok, unfolded words])
    fix key assume t: "idx (Fields t) 0 = Inr ''COMMIT_READY''" "idx (Fields t) 1 = Inr key"
      and sv': "sv' = count_ready key sv"
    have "votes_text key' t \<longleftrightarrow> key' = key" for key' using t by (auto simp: votes_text_def)
    then have "get_or 0 (commitCount sv') k \<le> max 0 (get_or 0 (commitCount sv) k) + (if votes_text k t then 1 else 0)" for k
      by (simp add: sv' count_ready_def)
    moreover have "grows b sv sv' (\<lambda>_. [])" using w by (simp add: grows_def sv')
    ultimately show ?thesis by (intro wrote_no_vote [of b sv sv' "\<lambda>_. []"]) simp_all
  qed (use w m wrote_quiet wrote_vote wrote_decision in blast)+
qed

section \<open>The invariant of the system\<close>

abbreviation peers_of :: "string \<Rightarrow> string set" where
  "peers_of b \<equiv> set branch_names - {b}"

text \<open>What \<open>n\<close> has read of what \<open>m\<close> wrote to it.\<close>

definition consumed :: "System \<Rightarrow> string \<Rightarrow> string \<Rightarrow> string list" where
  "consumed S m n = take (seen S m n) (stream (branch S m) n)"

text \<open>
  \<open>K b ts\<close> bounds how often a client has asked \<open>b\<close> to commit \<open>ts\<close>; \<open>V\<close> holds who has
  checked which transaction. Each answer was asked for, each question has one request behind it,
  the counter of a coordinator counts answers, and a decision rests on the checks of all.
\<close>

definition sys_inv :: "(string \<Rightarrow> int \<Rightarrow> nat) \<Rightarrow> (string \<times> int) set \<Rightarrow> System \<Rightarrow> bool" where
  "sys_inv K V S \<longleftrightarrow>
     (\<forall>b \<in> set branch_names. wired b (branch S b) \<and> bank_ok (branch S b) \<and>
        (\<forall>key. get_or 0 (commitCount (branch S b)) key \<le>
           int (\<Sum>m \<in> peers_of b. tally (votes_text key) (consumed S m b)))) \<and>
     (\<forall>m \<in> set branch_names. \<forall>n \<in> peers_of m.
        seen S m n \<le> length (stream (branch S m) n) \<and>
        (\<forall>ts. int64_range ts \<longrightarrow>
           tally (votes_text (FormatInt ts)) (stream (branch S m) n) \<le> tally (asks_text ts) (consumed S n m)) \<and>
        (\<forall>ts. tally (asks_text ts) (stream (branch S m) n) \<le> K m ts) \<and>
        (\<forall>msg \<in> set (stream (branch S m) n). \<forall>key. votes_text key msg \<longrightarrow>
           (\<exists>ts. int64_range ts \<and> key = FormatInt ts \<and> (m, ts) \<in> V)) \<and>
        (\<forall>msg \<in> set (stream (branch S m) n). \<forall>ts. asks_text ts msg \<longrightarrow> (m, ts) \<in> V) \<and>
        (\<forall>msg \<in> set (stream (branch S m) n). \<forall>key. decides_text key msg \<longrightarrow>
           (\<exists>ts. int64_range ts \<and> key = FormatInt ts \<and>
             (K m ts \<le> 1 \<longrightarrow> (\<forall>b \<in> set branch_names. (b, ts) \<in> V)))))"

lemma sys_invD:
  assumes "sys_inv K V S" "m \<in> set branch_names"
  shows "wired m (branch S m)" "bank_ok (branch S m)"
    "get_or 0 (commitCount (branch S m)) key \<le> int (\<Sum>n \<in> peers_of m. tally (votes_text key) (consumed S n m))"
    "n \<in> peers_of m \<Longrightarrow> seen S m n \<le> length (stream (branch S m) n)"
    "n \<in> peers_of m \<Longrightarrow> int64_range ts \<Longrightarrow>
       tally (votes_text (FormatInt ts)) (stream (branch S m) n) \<le> tally (asks_text ts) (consumed S n m)"
    "n \<in> peers_of m \<Longrightarrow> tally (asks_text ts) (stream (branch S m) n) \<le> K m ts"
    "n \<in> peers_of m \<Longrightarrow> msg \<in> set (stream (branch S m) n) \<Longrightarrow> votes_text key msg \<Longrightarrow>
       \<exists>ts. int64_range ts \<and> key = FormatInt ts \<and> (m, ts) \<in> V"
    "n \<in> peers_of m \<Longrightarrow> msg \<in> set (stream (branch S m) n) \<Longrightarrow> asks_text ts msg \<Longrightarrow> (m, ts) \<in> V"
    "n \<in> peers_of m \<Longrightarrow> msg \<in> set (stream (branch S m) n) \<Longrightarrow> decides_text key msg \<Longrightarrow>
       \<exists>ts. int64_range ts \<and> key = FormatInt ts \<and> (K m ts \<le> 1 \<longrightarrow> (\<forall>b \<in> set branch_names. (b, ts) \<in> V))"
  using assms unfolding sys_inv_def by blast+

text \<open>A step of branch \<open>n\<close>, which reads \<open>inp m\<close> of \<open>m\<close> and writes \<open>xs p\<close> to \<open>p\<close>.\<close>

definition moves :: "string \<Rightarrow> (string \<Rightarrow> string list) \<Rightarrow> (string \<Rightarrow> string list) \<Rightarrow> System \<Rightarrow> System \<Rightarrow> bool" where
  "moves n inp xs S S' \<longleftrightarrow> n \<in> set branch_names \<and> grows n (branch S n) (branch S' n) xs \<and>
     (\<forall>p. p \<noteq> n \<longrightarrow> branch S' p = branch S p) \<and> (\<forall>m p. p \<noteq> n \<longrightarrow> seen S' m p = seen S m p) \<and>
     (\<forall>m \<in> peers_of n. seen S' m n \<le> length (stream (branch S m) n) \<and>
        take (seen S' m n) (stream (branch S m) n) = consumed S m n @ inp m)"

lemma moves_stream:
  assumes "moves n inp xs S S'" "m \<in> set branch_names" "p \<in> peers_of m"
  shows "stream (branch S' m) p = stream (branch S m) p @ (if m = n then xs p else [])"
  using assms by (cases "m = n") (auto simp: moves_def grows_def)

lemma moves_written:
  assumes "moves n inp xs S S'" "m \<in> set branch_names" "p \<in> peers_of m" "msg \<in> set (stream (branch S' m) p)"
  obtains (old) "msg \<in> set (stream (branch S m) p)" | (new) "m = n" "msg \<in> set (xs p)"
  using assms(4) moves_stream [OF assms(1-3)] by (auto split: if_splits)

lemma moves_consumed:
  assumes mv: "moves n inp xs S S'" and m: "m \<in> set branch_names" "p \<in> peers_of m"
    and seen: "seen S m p \<le> length (stream (branch S m) p)"
  shows "consumed S' m p = consumed S m p @ (if p = n then inp m else [])"
    and "seen S' m p \<le> length (stream (branch S' m) p)"
proof -
  have "m \<in> peers_of n" "m \<noteq> n" if "p = n" using m that by auto
  then show "consumed S' m p = consumed S m p @ (if p = n then inp m else [])"
    and "seen S' m p \<le> length (stream (branch S' m) p)"
    using mv seen moves_stream [OF mv m] by (cases "p = n"; force simp: moves_def consumed_def)+
qed

lemma sum_if_same: "(\<Sum>m \<in> A. f m + (if c then g m else 0)) = (\<Sum>m \<in> A. f m) + (if c then \<Sum>m \<in> A. g m else 0)"
  for f g :: "'b \<Rightarrow> nat"
  by (simp add: sum.distrib)

lemma moves_counted:
  assumes inv: "sys_inv K V S" and mv: "moves n inp xs S S'" and b: "b \<in> set branch_names"
    and cnt: "get_or 0 (commitCount (branch S' n)) key \<le> max 0 (get_or 0 (commitCount (branch S n)) key) +
        int (\<Sum>m \<in> peers_of n. tally (votes_text key) (inp m))"
  shows "get_or 0 (commitCount (branch S' b)) key \<le> int (\<Sum>m \<in> peers_of b. tally (votes_text key) (consumed S' m b))"
proof -
  have "consumed S' m b = consumed S m b @ (if b = n then inp m else [])" if "m \<in> peers_of b" for m
    using that b sys_invD(4) [OF inv, of m b] by (intro moves_consumed(1) [OF mv]) auto
  then have "(\<Sum>m \<in> peers_of b. tally (votes_text key) (consumed S' m b)) =
      (\<Sum>m \<in> peers_of b. tally (votes_text key) (consumed S m b) + (if b = n then tally (votes_text key) (inp m) else 0))"
    by (intro sum.cong) auto
  then show ?thesis
    unfolding sum_if_same using sys_invD(3) [OF inv b, of key] cnt mv
    by (cases "b = n") (simp_all add: moves_def del: of_nat_sum)
qed

lemma sys_inv_change:
  assumes inv: "sys_inv K V S" and mv: "moves n inp xs S S'" and ok: "bank_ok (branch S' n)"
    and K: "\<And>b ts. K b ts \<le> K' b ts" and V: "V \<subseteq> V'"
    and cnt: "\<And>key. get_or 0 (commitCount (branch S' n)) key \<le> max 0 (get_or 0 (commitCount (branch S n)) key) +
        int (\<Sum>m \<in> peers_of n. tally (votes_text key) (inp m))"
    and vo: "\<And>p ts. p \<in> peers_of n \<Longrightarrow> int64_range ts \<Longrightarrow>
        tally (votes_text (FormatInt ts)) (xs p) \<le> tally (asks_text ts) (inp p)"
    and as: "\<And>p ts. p \<in> peers_of n \<Longrightarrow> K n ts + tally (asks_text ts) (xs p) \<le> K' n ts"
    and vV: "\<And>p key msg. p \<in> peers_of n \<Longrightarrow> msg \<in> set (xs p) \<Longrightarrow> votes_text key msg \<Longrightarrow>
        \<exists>ts. int64_range ts \<and> key = FormatInt ts \<and> (n, ts) \<in> V'"
    and aV: "\<And>p ts msg. p \<in> peers_of n \<Longrightarrow> msg \<in> set (xs p) \<Longrightarrow> asks_text ts msg \<Longrightarrow> (n, ts) \<in> V'"
    and dV: "\<And>p key msg. p \<in> peers_of n \<Longrightarrow> msg \<in> set (xs p) \<Longrightarrow> decides_text key msg \<Longrightarrow>
        \<exists>ts. int64_range ts \<and> key = FormatInt ts \<and> (K' n ts \<le> 1 \<longrightarrow> (\<forall>b \<in> set branch_names. (b, ts) \<in> V'))"
  shows "sys_inv K' V' S'"
  unfolding sys_inv_def
proof (intro conjI ballI allI impI)
  fix b key assume b: "b \<in> set branch_names"
  show "wired b (branch S' b)" "bank_ok (branch S' b)"
    using sys_invD(1,2) [OF inv b] mv ok by (cases "b = n"; simp add: moves_def grows_def)+
  show "get_or 0 (commitCount (branch S' b)) key \<le> int (\<Sum>m \<in> peers_of b. tally (votes_text key) (consumed S' m b))"
    by (rule moves_counted [OF inv mv b cnt])
next
  fix m p assume m: "m \<in> set branch_names" "p \<in> peers_of m"
  then have p: "p \<in> set branch_names" "m \<in> peers_of p" by auto
  note str = moves_stream [OF mv m]
  show "seen S' m p \<le> length (stream (branch S' m) p)"
    by (rule moves_consumed(2) [OF mv m sys_invD(4) [OF inv m]])
  show "tally (votes_text (FormatInt ts)) (stream (branch S' m) p) \<le> tally (asks_text ts) (consumed S' p m)"
    if "int64_range ts" for ts
    using sys_invD(5) [OF inv m that] str moves_consumed(1) [OF mv p sys_invD(4) [OF inv p]] vo [of p ts] m that
    by (cases "m = n") auto
  show "tally (asks_text ts) (stream (branch S' m) p) \<le> K' m ts" for ts
    using sys_invD(6) [OF inv m, of ts] str as [of p ts] K [of m ts] m by (cases "m = n") auto
  fix msg assume msg: "msg \<in> set (stream (branch S' m) p)"
  show "\<exists>ts. int64_range ts \<and> key = FormatInt ts \<and> (m, ts) \<in> V'" if "votes_text key msg" for key
    using mv m msg by (cases rule: moves_written) (use sys_invD(7) [OF inv m _ that] vV m that V in blast)+
  show "(m, ts) \<in> V'" if "asks_text ts msg" for ts
    using mv m msg by (cases rule: moves_written) (use sys_invD(8) [OF inv m _ that] aV m that V in blast)+
  show "\<exists>ts. int64_range ts \<and> key = FormatInt ts \<and> (K' m ts \<le> 1 \<longrightarrow> (\<forall>b \<in> set branch_names. (b, ts) \<in> V'))"
    if d: "decides_text key msg" for key
    using mv m msg
  proof (cases rule: moves_written)
    case old
    then obtain ts where "int64_range ts" "key = FormatInt ts" "K m ts \<le> 1 \<longrightarrow> (\<forall>b \<in> set branch_names. (b, ts) \<in> V)"
      using sys_invD(9) [OF inv m _ d] by blast
    then show ?thesis using V K [of m ts] by (intro exI [of _ ts]) auto
  qed (use dV m d in blast)
qed

section \<open>Every step keeps the invariant\<close>

text \<open>A client's request, and a branch's successful check, of transaction \<open>ts\<close>.\<close>

fun requests :: "string \<Rightarrow> int \<Rightarrow> sys_event \<Rightarrow> bool" where
  "requests b ts (Client_says b' rconn sconn r) \<longleftrightarrow> b' = b \<and> commit_request r ts"
| "requests b ts (Deliver m n) \<longleftrightarrow> False"

fun checks :: "string \<Rightarrow> int \<Rightarrow> sys_event \<Rightarrow> System \<Rightarrow> bool" where
  "checks b ts (Client_says b' rconn sconn r) S \<longleftrightarrow> b' = b \<and> commit_request r ts \<and> can_commit ts (branch S b)"
| "checks b ts (Deliver m n) S \<longleftrightarrow> n = b \<and> asks_text ts (next_message S m n) \<and> can_commit ts (branch S b)"

fun has_checked :: "string \<Rightarrow> int \<Rightarrow> sys_event list \<Rightarrow> System \<Rightarrow> bool" where
  "has_checked b ts [] S \<longleftrightarrow> False"
| "has_checked b ts (e # es) S \<longleftrightarrow> checks b ts e S \<or>
     (case sys_step e S of Some (Inr (_, S')) \<Rightarrow> has_checked b ts es S' | _ \<Rightarrow> False)"

definition count_requests :: "string \<Rightarrow> int \<Rightarrow> sys_event \<Rightarrow> nat" where
  "count_requests b ts e = (if requests b ts e then 1 else 0)"

text \<open>Four answers that nobody gave twice are answers of all four.\<close>

lemma all_answered:
  fixes f :: "string \<Rightarrow> nat"
  assumes "n \<in> set branch_names" "4 \<le> (\<Sum>m \<in> peers_of n. f m)" "\<And>m. m \<in> peers_of n \<Longrightarrow> f m \<le> 1" "m \<in> peers_of n"
  shows "f m = 1"
proof (rule ccontr)
  assume "f m \<noteq> 1"
  then have m: "f m = 0" using assms(3) [OF assms(4)] by simp
  have card: "card (peers_of n - {m}) = 3"
    using assms(1,4) by (auto simp: branch_names_def card_insert_if)
  have "(\<Sum>m \<in> peers_of n. f m) = f m + (\<Sum>m \<in> peers_of n - {m}. f m)"
    using assms(4) by (intro sum.remove) auto
  also have "(\<Sum>m \<in> peers_of n - {m}. f m) \<le> (\<Sum>m \<in> peers_of n - {m}. 1)"
    using assms(3) by (intro sum_mono) auto
  finally show False using assms(2) m card by simp
qed

text \<open>A peer has voted at most as often as it was asked, and asked as often as the client did.\<close>

lemma votes_behind_requests:
  assumes inv: "sys_inv K V S" and n: "n \<in> set branch_names" and p: "p \<in> peers_of n" and ts: "int64_range ts"
  shows "tally (votes_text (FormatInt ts)) (stream (branch S p) n) \<le> tally (asks_text ts) (stream (branch S n) p)"
    and "tally (asks_text ts) (stream (branch S n) p) \<le> K n ts"
proof -
  have pp: "p \<in> set branch_names" "n \<in> peers_of p" using n p by auto
  have "tally (asks_text ts) (consumed S n p) \<le> tally (asks_text ts) (stream (branch S n) p)"
    unfolding consumed_def by (rule tally_take)
  then show "tally (votes_text (FormatInt ts)) (stream (branch S p) n) \<le> tally (asks_text ts) (stream (branch S n) p)"
    using sys_invD(5) [OF inv pp ts] by simp
  show "tally (asks_text ts) (stream (branch S n) p) \<le> K n ts" using sys_invD(6) [OF inv n p] .
qed

text \<open>The votes read so far and the next one are in the stream.\<close>

lemma votes_read:
  assumes "seen S m n < length (stream (branch S m) n)" "P (next_message S m n)"
  shows "tally P (consumed S p n) + (if p = m then 1 else 0) \<le> tally P (stream (branch S p) n)"
proof (cases "p = m")
  case True
  have "take (Suc (seen S m n)) (stream (branch S m) n) = consumed S m n @ [next_message S m n]"
    using assms(1) by (simp add: consumed_def take_Suc_conv_app_nth)
  then have "tally P (consumed S m n) + 1 = tally P (take (Suc (seen S m n)) (stream (branch S m) n))"
    using assms(2) by simp
  also have "\<dots> \<le> tally P (stream (branch S m) n)" by (rule tally_take)
  finally show ?thesis using True by simp
qed (simp add: consumed_def tally_take)

lemma decision_checked:
  assumes inv: "sys_inv K V S" and n: "n \<in> set branch_names" and m: "m \<in> peers_of n"
    and len: "seen S m n < length (stream (branch S m) n)"
    and v: "votes_text key (next_message S m n)" and c: "get_or 0 (commitCount (branch S n)) key = 3"
  shows "\<exists>ts. int64_range ts \<and> key = FormatInt ts \<and> (K n ts \<le> 1 \<longrightarrow> (\<forall>b \<in> set branch_names. (b, ts) \<in> V))"
proof -
  have mm: "m \<in> set branch_names" "n \<in> peers_of m" using n m by auto
  have mem: "next_message S m n \<in> set (stream (branch S m) n)" using len by simp
  obtain ts where ts: "int64_range ts" "key = FormatInt ts" using sys_invD(7) [OF inv mm mem v] by blast
  have "(b, ts) \<in> V" if K: "K n ts \<le> 1" and b: "b \<in> set branch_names" for b
  proof -
    let ?f = "\<lambda>p. tally (votes_text key) (consumed S p n) + (if p = m then 1 else 0)"
    note le = votes_read [where P = "votes_text key", OF len v]
    note one = votes_behind_requests [OF inv n _ ts(1), folded ts(2)]
    have "(\<Sum>p \<in> peers_of n. ?f p) = (\<Sum>p \<in> peers_of n. tally (votes_text key) (consumed S p n)) + 1"
      using m by (simp add: sum.distrib)
    moreover have "3 \<le> int (\<Sum>p \<in> peers_of n. tally (votes_text key) (consumed S p n))"
      using sys_invD(3) [OF inv n, of key] c by simp
    ultimately have four: "4 \<le> (\<Sum>p \<in> peers_of n. ?f p)" by linarith
    have "?f p \<le> 1" if "p \<in> peers_of n" for p
      using le [of p] one [OF that] K by linarith
    then have f1: "?f p = 1" if "p \<in> peers_of n" for p
      by (intro all_answered [OF n four _ that])
    have voted: "(p, ts) \<in> V" if p: "p \<in> peers_of n" for p
    proof -
      have "0 < tally (votes_text key) (stream (branch S p) n)" using le [of p] f1 [OF p] by linarith
      then obtain msg where "msg \<in> set (stream (branch S p) n)" "votes_text key msg" by (auto simp: filter_empty_conv)
      moreover have "p \<in> set branch_names" "n \<in> peers_of p" using n p by auto
      ultimately obtain ts' where "int64_range ts'" "key = FormatInt ts'" "(p, ts') \<in> V"
        using sys_invD(7) [OF inv] by metis
      then show ?thesis using ts FormatInt_inj by auto
    qed
    have "0 < tally (asks_text ts) (stream (branch S n) m)" using one(1) [OF m] le [of m] f1 [OF m] by linarith
    then obtain msg where "msg \<in> set (stream (branch S n) m)" "asks_text ts msg" by (auto simp: filter_empty_conv)
    then have "(n, ts) \<in> V" using sys_invD(8) [OF inv n m] by blast
    then show ?thesis using voted b by (cases "b = n") auto
  qed
  then show ?thesis using ts by blast
qed

lemma sys_inv_client:
  assumes inv: "sys_inv K V S" and st: "sys_step (Client_says n rconn sconn r) S = Some (Inr (x, S'))"
  defines "e \<equiv> Client_says n rconn sconn r"
  shows "sys_inv (\<lambda>b ts. K b ts + count_requests b ts e) (V \<union> {(b, ts). checks b ts e S}) S'"
proof -
  obtain sv' where n: "n \<in> set branch_names" and S': "S' = S\<lparr>branch := (branch S)(n := sv')\<rparr>"
    and b: "bank_step (From_client rconn sconn r) (branch S n) = Some (Inr (x, sv'))"
    using st by (auto simp: bind_go_return return_go_def split: if_splits)
  obtain xs where g: "grows n (branch S n) sv' xs"
    and none: "\<And>p key msg. msg \<in> set (xs p) \<Longrightarrow> \<not> votes_text key msg \<and> \<not> decides_text key msg"
    and asks: "\<And>p ts. tally (asks_text ts) (xs p) \<le> (if commit_request r ts then 1 else 0)"
      "\<And>p ts msg. msg \<in> set (xs p) \<Longrightarrow> asks_text ts msg \<Longrightarrow> commit_request r ts \<and> can_commit ts (branch S n)"
    and cnt: "\<And>key. get_or 0 (commitCount sv') key \<le> max 0 (get_or 0 (commitCount (branch S n)) key)"
    by (rule client_event_effect [OF b sys_invD(1) [OF inv n]]) blast
  have mv: "moves n (\<lambda>_. []) xs S S'"
    using n g sys_invD(4) [OF inv] by (auto simp: moves_def S' consumed_def)
  show ?thesis
  proof (rule sys_inv_change [OF inv mv])
    show "bank_ok (branch S' n)" using bank_step_ok [OF sys_invD(2) [OF inv n] b] by (simp add: S')
    show "tally (votes_text (FormatInt ts)) (xs p) \<le> tally (asks_text ts) []" for p ts
      using none [of _ p] by (simp add: filter_empty_conv)
    show "K n ts + tally (asks_text ts) (xs p) \<le> K n ts + count_requests n ts e" for p ts
      using asks(1) [of ts p] by (simp add: e_def count_requests_def split: if_splits)
    show "msg \<in> set (xs p) \<Longrightarrow> asks_text ts msg \<Longrightarrow> (n, ts) \<in> V \<union> {(b, ts). checks b ts e S}" for p ts msg
      using asks(2) [of msg p ts] by (simp add: e_def)
  qed (use S' cnt none in auto)
qed

lemma sys_inv_deliver:
  assumes inv: "sys_inv K V S" and st: "sys_step (Deliver m n) S = Some (Inr (x, S'))"
  defines "e \<equiv> Deliver m n"
  shows "sys_inv (\<lambda>b ts. K b ts + count_requests b ts e) (V \<union> {(b, ts). checks b ts e S}) S'"
proof -
  let ?t = "next_message S m n"
  obtain sv' where mn: "m \<in> peers_of n" "n \<in> set branch_names"
    and len: "seen S m n < length (stream (branch S m) n)"
    and S': "S' = S\<lparr>branch := (branch S)(n := sv'), seen := (seen S)(m := (seen S m)(n := Suc (seen S m n)))\<rparr>"
    and b: "bank_step (From_branch m (Bytes ?t)) (branch S n) = Some (Inr (x, sv'))"
    using st by (auto simp: bind_go_return return_go_def split: if_splits)
  obtain xs where w: "wrote n m ?t (branch S n) sv' xs"
    using branch_event_effect [OF b sys_invD(1) [OF inv mn(2)] mn(1) sys_invD(2) [OF inv mn(2)]] by blast
  let ?inp = "\<lambda>p. if p = m then [?t] else []"
  have mv: "moves n ?inp xs S S'"
    using mn wroteD(1) [OF w] sys_invD(4) [OF inv] len by (auto simp: moves_def S' consumed_def take_Suc_conv_app_nth)
  have "tally (votes_text key) (?inp p) = (if p = m then if votes_text key ?t then 1 else 0 else 0)" for key p by simp
  then have one: "(\<Sum>p \<in> peers_of n. tally (votes_text key) (?inp p)) = (if votes_text key ?t then 1 else 0)" for key
    using mn(1) by simp
  show ?thesis
  proof (rule sys_inv_change [OF inv mv])
    show "bank_ok (branch S' n)" using bank_step_ok [OF sys_invD(2) [OF inv mn(2)] b] by (simp add: S')
    show "get_or 0 (commitCount (branch S' n)) key \<le> max 0 (get_or 0 (commitCount (branch S n)) key) +
        int (\<Sum>p \<in> peers_of n. tally (votes_text key) (?inp p))" for key
      using wroteD(6) [OF w, of key] unfolding one by (simp add: S' split: if_splits)
    show "K n ts + tally (asks_text ts) (xs p) \<le> K n ts + count_requests n ts e" for p ts
      using wroteD(2) [OF w, of _ p] by (simp add: filter_empty_conv)
    show "\<exists>ts. int64_range ts \<and> key = FormatInt ts \<and> (n, ts) \<in> V \<union> {(b, ts). checks b ts e S}"
      if "msg \<in> set (xs p)" "votes_text key msg" for p key msg
      using wroteD(4) [OF w that] by (auto simp: e_def)
    show "\<exists>ts. int64_range ts \<and> key = FormatInt ts \<and> (K n ts + count_requests n ts e \<le> 1 \<longrightarrow>
        (\<forall>b \<in> set branch_names. (b, ts) \<in> V \<union> {(b, ts). checks b ts e S}))"
      if d: "msg \<in> set (xs p)" "decides_text key msg" for p key msg
      using decision_checked [OF inv mn(2,1) len, of key] wroteD(5) [OF w d] by (meson UnI1 add_leD1)
  qed (use wroteD(2,3) [OF w] in auto)
qed

lemma sys_inv_step:
  assumes "sys_inv K V S" "sys_step e S = Some (Inr (x, S'))"
  shows "sys_inv (\<lambda>b ts. K b ts + count_requests b ts e) (V \<union> {(b, ts). checks b ts e S}) S'"
  using assms by (cases e) (simp_all only: sys_inv_client sys_inv_deliver)

lemma sys_inv_run:
  "sys_inv K V S \<Longrightarrow> runs sys_step any_sys_event es S = Some (Inr S') \<Longrightarrow>
     sys_inv (\<lambda>b ts. K b ts + tally (requests b ts) es) (V \<union> {(b, ts). has_checked b ts es S}) S'"
proof (induction es arbitrary: K V S)
  case (Cons e es)
  from Cons.prems(2) obtain x S1 where s1: "sys_step e S = Some (Inr (x, S1))"
    "runs sys_step any_sys_event es S1 = Some (Inr S')"
    unfolding runs_Cons by blast
  from Cons.IH [OF sys_inv_step [OF Cons.prems(1) s1(1)] s1(2)]
  have "sys_inv (\<lambda>b ts. K b ts + count_requests b ts e + tally (requests b ts) es)
    (V \<union> {(b, ts). checks b ts e S} \<union> {(b, ts). has_checked b ts es S1}) S'" .
  moreover have "(\<lambda>b ts. K b ts + count_requests b ts e + tally (requests b ts) es) =
      (\<lambda>b ts. K b ts + tally (requests b ts) (e # es))"
    by (simp add: fun_eq_iff count_requests_def)
  moreover have "V \<union> {(b, ts). checks b ts e S} \<union> {(b, ts). has_checked b ts es S1} =
      V \<union> {(b, ts). has_checked b ts (e # es) S}"
    using s1(1) by auto
  ultimately show ?case by simp
qed simp

lemma sys_inv_connected:
  assumes "connected_system S"
  shows "sys_inv (\<lambda>_ _. 0) {} S"
proof -
  have "stream (branch S m) n = []" if "m \<in> set branch_names" "n \<in> peers_of m" for m n
    using assms that by (simp add: connected_system_def)
  then show ?thesis
    unfolding sys_inv_def using assms by (simp add: connected_system_def consumed_def)
qed

section \<open>What a commit does\<close>

lemma commit_event:
  assumes h: "handleBranch (\<lambda>_. sv) r conn = Some (Inr sv')" and ok: "bank_ok sv" and c: "commits r sv"
  shows "\<exists>key ts. idx (message_words r) 1 = Inr key \<and> checked (ParseInt key) = Inr ts \<and>
    (\<forall>acc. balances sv' acc = (if has_entry ts (slot (TW sv) acc) then balance_after ts sv acc else balances sv acc))"
proof (cases "idx (message_words r) 0 = Inr ''COMMIT_OK''")
  case True
  then obtain key ts where "idx (message_words r) 1 = Inr key" "checked (ParseInt key) = Inr ts"
    "DoCommit ts sv = Some (Inr sv')"
    using h by (auto simp: handleBranch_def Let_def message_words_def bind_go_return timestamp_of_def bind_res_Inr)
  then show ?thesis using DoCommit_balances [OF ok] by blast
next
  case False
  then obtain key where k: "idx (message_words r) 0 = Inr ''COMMIT_READY''" "idx (message_words r) 1 = Inr key"
    "get_or 0 (commitCount sv) key = 3"
    using c by (auto simp: commits_def)
  then have "commit_ready (message_words r) sv = Some (Inr sv')"
    using h by (simp add: handleBranch_def Let_def message_words_def)
  then obtain ts s1 s2 where f: "checked (ParseInt key) = Inr ts" "DoCommit ts (count_ready key sv) = Some (Inr s1)"
    "broadcast (Join [''COMMIT_OK'', key] '' '') s1 = Inr s2" "reply_and_close ''COMMIT OK'' key s2 = Inr sv'"
    using k by (auto simp: commit_ready_def Let_def count_ready_def bind_go_return bind_res_Inr simp del: Join.simps)
  have ok': "bank_ok (count_ready key sv)" using ok by (simp add: count_ready_def bank_ok_def)
  have "accounts sv' = accounts s2"
    using f(4) by (auto simp: reply_and_close_def bind_res_Inr sendtoClient_def Close_def split: option.splits)
  moreover have "accounts s2 = accounts s1"
    using arg_cong [OF broadcast_frame [OF f(3)], of accounts] by simp
  ultimately have "accounts sv' = accounts s1" by simp
  then have "balances sv' acc = balances s1 acc" for acc by (simp add: balances_def)
  then show ?thesis
    using DoCommit_balances [OF ok' f(2)] k(2) f(1)
    by (auto simp: count_ready_def balances_def balance_after_def)
qed

end
