(* ===== verification/BankCommit.thy ===== *)
theory BankCommit
  imports BankSystem
begin

text \<open>
  The two-phase commit of the five branches: a committed balance changes only on a decision
  that all five branches have agreed to.
\<close>

lemma next_in_stream: "seen S m n < length (stream (branch S m) n) \<Longrightarrow> next_message S m n \<in> set (stream (branch S m) n)"
  by simp

lemma commits_text:
  "commits (Bytes t) sv \<Longrightarrow> (\<exists>key. decides_text key t) \<or>
     (\<exists>key. votes_text key t \<and> get_or 0 (commitCount sv) key = 3)"
  if "idx (Fields t) 1 = Inr k"
  using that by (auto simp: commits_def message_words_def readClient_def Fields_TrimSpace decides_text_def votes_text_def)

text \<open>A message that makes a branch commit is a decision, or the last answer the coordinator waits for.\<close>

lemma committing_message:
  assumes inv: "sys_inv K V S" and mn: "m \<in> set branch_names" "n \<in> set branch_names" "m \<noteq> n"
    and len: "seen S m n < length (stream (branch S m) n)"
    and c: "commits (Bytes (next_message S m n)) (branch S n)" and k: "idx (Fields (next_message S m n)) 1 = Inr key"
  shows "\<exists>ts. int64_range ts \<and> key = FormatInt ts \<and> (K m ts \<le> 1 \<longrightarrow> (\<forall>b \<in> set branch_names. (b, ts) \<in> V)) \<or>
      int64_range ts \<and> key = FormatInt ts \<and> (K n ts \<le> 1 \<longrightarrow> (\<forall>b \<in> set branch_names. (b, ts) \<in> V))"
  using commits_text [OF k c]
proof
  let ?t = "next_message S m n"
  have peer: "n \<in> peers_of m" "m \<in> peers_of n" using mn by auto
  {
    assume "\<exists>key. decides_text key ?t"
    then have "decides_text key ?t" using k by (auto simp: decides_text_def)
    then show ?thesis using sys_invD(9) [OF inv mn(1) peer(1) next_in_stream [OF len]] by blast
  next
    assume "\<exists>key. votes_text key ?t \<and> get_or 0 (commitCount (branch S n)) key = 3"
    then have "votes_text key ?t" "get_or 0 (commitCount (branch S n)) key = 3" using k by (auto simp: votes_text_def)
    then show ?thesis using decision_checked [OF inv mn(2) peer(2) len] by blast
  }
qed

text \<open>C3: nothing is committed that not all five branches have agreed to. In any run of the five
  connected branches, with any clients, in which no branch is asked twice to commit the same
  transaction: if a step changes a committed balance (to zero, too), then either it removes the
  account and is not the delivery of a message that commits, or it delivers a message about some
  transaction, the new balance is the old one plus the tentative writes up to this transaction,
  and every one of the five branches has checked before that the transaction overdraws none of
  its accounts. The run starts when the branches are connected and have sent nothing yet.\<close>

theorem commit_needs_all_checks:
  assumes "connected_system S0" "runs sys_step any_sys_event es S0 = Some (Inr S)"
    and "\<forall>b \<in> set branch_names. \<forall>ts. length (filter (requests b ts) es) \<le> 1"
    and "sys_step e S = Some (Inr (x, S'))" "b \<in> set branch_names"
    and "balances (branch S' b) acc \<noteq> balances (branch S b) acc"
  shows "map_of (accounts (branch S' b)) acc = None \<and>
     (\<forall>m. e = Deliver m b \<longrightarrow> \<not> commits (Bytes (next_message S m b)) (branch S b)) \<or>
   (\<exists>m ts. e = Deliver m b \<and> int64_range ts \<and> idx (Fields (next_message S m b)) 1 = Inr (FormatInt ts) \<and>
    balances (branch S' b) acc = balance_after ts (branch S b) acc \<and>
    (\<forall>p \<in> set branch_names. has_checked p ts es S0))"
proof (cases "map_of (accounts (branch S' b)) acc = None \<and>
     (\<forall>m. e = Deliver m b \<longrightarrow> \<not> commits (Bytes (next_message S m b)) (branch S b))")
  case False
  let ?K = "\<lambda>b ts. 0 + tally (requests b ts) es" let ?V = "{} \<union> {(b, ts). has_checked b ts es S0}"
  have inv: "sys_inv ?K ?V S" by (rule sys_inv_run [OF sys_inv_connected [OF assms(1)] assms(2)])
  have K: "?K b ts \<le> 1" if "b \<in> set branch_names" for b ts using assms(3) that by simp
  have ok: "bank_ok (branch S b)" by (rule sys_invD(2) [OF inv assms(5)])
  show ?thesis
  proof (cases e)
    case (Client_says b' rconn sconn r)
    then have "keeps (branch S b) (branch S' b)"
      using assms(4) by (auto simp: bind_go_return return_go_def bank_step_def split: if_splits dest!: handleConnection_keeps)
    then show ?thesis using keeps_balances [OF _ ok] Client_says False assms(6) by blast
  next
    case (Deliver m n)
    let ?t = "next_message S m n" let ?sv = "branch S n"
    obtain sv' where mn: "m \<in> set branch_names" "n \<in> set branch_names" "m \<noteq> n"
      and len: "seen S m n < length (stream (branch S m) n)"
      and S': "branch S' = (branch S)(n := sv')"
      and h: "handleBranch (\<lambda>_. ?sv) (Bytes ?t) (map_of (send_conn ?sv) m) = Some (Inr sv')"
      using assms(4) Deliver by (auto simp: bind_go_return return_go_def bank_step_def split: if_splits)
    have n: "n = b" using S' assms(6) by (cases "n = b") auto
    have c: "commits (Bytes ?t) ?sv"
      using handleBranch_cases [OF h] keeps_balances [of ?sv sv' acc] ok False assms(6) S' n Deliver by auto
    obtain key ts where k: "idx (Fields ?t) 1 = Inr key" "checked (ParseInt key) = Inr ts"
      and bal: "\<forall>acc. balances sv' acc =
        (if has_entry ts (slot (TW ?sv) acc) then balance_after ts ?sv acc else balances ?sv acc)"
      using commit_event [OF h ok [folded n] c]
      by (auto simp: message_words_def readClient_def Fields_TrimSpace)
    have "\<exists>ts. int64_range ts \<and> key = FormatInt ts \<and> (?K m ts \<le> 1 \<longrightarrow> (\<forall>b \<in> set branch_names. (b, ts) \<in> ?V)) \<or>
      int64_range ts \<and> key = FormatInt ts \<and> (?K n ts \<le> 1 \<longrightarrow> (\<forall>b \<in> set branch_names. (b, ts) \<in> ?V))"
      using inv mn len c k(1) by (rule committing_message)
    then obtain ts' where ts': "int64_range ts'" "key = FormatInt ts'" "\<forall>p \<in> set branch_names. has_checked p ts' es S0"
      using K mn(1,2) by auto
    then have "ts' = ts" using k(2) by (simp add: stamp.checked_print)
    then show ?thesis
      using k(1) ts' bal S' assms(6) n Deliver by (intro disjI2 exI [of _ m] exI [of _ ts]) (auto split: if_splits)
  qed
qed simp

section \<open>A commit that all branches agree to\<close>

lemma COMMIT_message:
  fixes rconn sconn :: nat
  assumes "int64_range ts" "can_commit ts sv"
    and "\<forall>n \<in> set (others sv). n \<noteq> FormatInt ts \<and> map_of (send_conn sv) n \<noteq> None"
  defines "s \<equiv> reset_count (FormatInt ts) (add_conns (FormatInt ts) rconn sconn sv)"
  shows "\<exists>c. handleConnection (\<lambda>_. sv) (Bytes (reply_with ''COMMIT'' ts @ [newline])) rconn sconn = Some (Inr (True, c)) \<and>
    broadcast (reply_with ''COMMIT_PREPARE'' ts) s = Inr c"
proof -
  have w: "is_word ''COMMIT''" by (simp add: keyword_words)
  have init: "Init (reply_with ''COMMIT'' ts) zero_Operation =
      Inr (zero_Operation\<lparr>op_method := ''COMMIT'', op_timestamp := ts\<rparr>)"
    using assms(1) by (intro Init_end_text) auto
  have "others s = others sv" by (simp add: s_def others_def reset_count_def add_conns_def)
  then have "\<forall>n \<in> set (others s). map_of (send_conn s) n \<noteq> None"
    using assms(3) by (simp add: s_def reset_count_def add_conns_def AList.update_conv')
  then obtain c where c: "broadcast (reply_with ''COMMIT_PREPARE'' ts) s = Inr c" using broadcast_sends by blast
  moreover have "CheckCommit ts s = Inr (True, s)" using assms(2) by (simp add: s_def CheckCommit_True)
  ultimately have h: "handleOperation (\<lambda>_. add_conns (FormatInt ts) rconn sconn sv)
      (zero_Operation\<lparr>op_method := ''COMMIT'', op_timestamp := ts\<rparr>) (Some sconn) = Some (Inr (False, c))"
    by (simp add: handleOperation_def Let_def reset_count_def [symmetric] s_def [symmetric] reply_with_def [symmetric]
        del: Join.simps)
  show ?thesis
    using c
    by (simp add: handleConnection_def Let_def readClient_def line_not_Closed tag_words(2) [OF w] init h return_go_def)
qed

lemma COMMIT_PREPARE_message:
  assumes "int64_range ts" "can_commit ts sv" "map_of (send_conn sv) m = Some c"
  shows "bank_step (From_branch m (Bytes (reply_with ''COMMIT_PREPARE'' ts @ [newline]))) sv =
    Some (Inr (False, sv\<lparr>net := net sv @ [Sent c (reply_with ''COMMIT_READY'' ts @ [newline])]\<rparr>))"
proof -
  have "CheckCommit ts sv = Inr (True, sv)" using assms(2) by (simp add: CheckCommit_True)
  then have "prepare [''COMMIT_PREPARE'', FormatInt ts] (Some c) sv =
      Inr (sv\<lparr>net := net sv @ [Sent c (reply_with ''COMMIT_READY'' ts @ [newline])]\<rparr>)"
    using assms(1) by (simp add: prepare_def idx_def Let_def ParseInt_FormatInt sendtoClient_def)
  then show ?thesis
    using assms(3) tag_words [OF phase_words_word(1), of ts]
    by (simp add: bank_step_def handleBranch_def Let_def readClient_def idx_def return_go_def)
qed

text \<open>The questions of the first phase are answered.\<close>

lemma deliver_prepares:
  assumes "int64_range ts" "b \<in> set branch_names" "distinct ns" "set ns \<subseteq> peers_of b"
    and "\<forall>n \<in> set ns. seen S b n < length (stream (branch S b) n) \<and>
      next_message S b n = reply_with ''COMMIT_PREPARE'' ts @ [newline] \<and>
      can_commit ts (branch S n) \<and> map_of (send_conn (branch S n)) b = Some (c n)"
  shows "\<exists>S'. runs sys_step any_sys_event (map (Deliver b) ns) S = Some (Inr S') \<and>
    (\<forall>m. branch S' m = (if m \<in> set ns then (branch S m)\<lparr>net := net (branch S m) @
      [Sent (c m) (reply_with ''COMMIT_READY'' ts @ [newline])]\<rparr> else branch S m)) \<and>
    (\<forall>m n. seen S' m n = (if m = b \<and> n \<in> set ns then Suc (seen S m n) else seen S m n))"
  using assms(3-)
proof (induction ns arbitrary: S)
  case Nil
  then show ?case by simp
next
  case (Cons n ns)
  let ?sv = "(branch S n)\<lparr>net := net (branch S n) @ [Sent (c n) (reply_with ''COMMIT_READY'' ts @ [newline])]\<rparr>"
  let ?S = "S\<lparr>branch := (branch S)(n := ?sv), seen := (seen S)(b := (seen S b)(n := Suc (seen S b n)))\<rparr>"
  have n: "n \<in> set branch_names" "b \<noteq> n" "n \<notin> set ns" using Cons.prems(1,2) by auto
  have step: "sys_step (Deliver b n) S = Some (Inr (False, ?S))"
    using Cons.prems(3) assms(2) n
    by (simp add: COMMIT_PREPARE_message [OF assms(1)] return_go_def)
  have at: "branch ?S m = (if m = n then ?sv else branch S m)"
    "seen ?S m k = (if m = b \<and> k = n then Suc (seen S m k) else seen S m k)" for m k by auto
  have "\<forall>k \<in> set ns. seen ?S b k < length (stream (branch ?S b) k) \<and>
      next_message ?S b k = reply_with ''COMMIT_PREPARE'' ts @ [newline] \<and>
      can_commit ts (branch ?S k) \<and> map_of (send_conn (branch ?S k)) b = Some (c k)"
    using Cons.prems(3) n unfolding at by auto
  from Cons.IH [OF _ _ this] Cons.prems(1,2) obtain S' where
    "runs sys_step any_sys_event (map (Deliver b) ns) ?S = Some (Inr S')"
    "\<forall>m. branch S' m = (if m \<in> set ns then (branch ?S m)\<lparr>net := net (branch ?S m) @
      [Sent (c m) (reply_with ''COMMIT_READY'' ts @ [newline])]\<rparr> else branch ?S m)"
    "\<forall>m k. seen S' m k = (if m = b \<and> k \<in> set ns then Suc (seen ?S m k) else seen ?S m k)"
    by auto
  moreover have "any_sys_event (Deliver b n) S" by (simp add: any_sys_event_def)
  ultimately show ?case
    using step n(3) unfolding list.map runs_Cons at by (intro exI [of _ S']) auto
qed

text \<open>The answers are counted, up to three.\<close>

lemma deliver_votes:
  assumes "b \<in> set branch_names" "distinct ms" "set ms \<subseteq> peers_of b"
    and "\<forall>m \<in> set ms. seen S m b < length (stream (branch S m) b) \<and>
      next_message S m b = reply_with ''COMMIT_READY'' ts @ [newline]"
    and "get_or 0 (commitCount (branch S b)) (FormatInt ts) = k" "0 \<le> k" "k + len ms \<le> 3"
  shows "\<exists>S' counts. runs sys_step any_sys_event (map (\<lambda>m. Deliver m b) ms) S = Some (Inr S') \<and>
    (\<forall>m. branch S' m = (if m = b then (branch S b)\<lparr>commitCount := counts\<rparr> else branch S m)) \<and>
    (\<forall>m n. seen S' m n = (if m \<in> set ms \<and> n = b then Suc (seen S m n) else seen S m n)) \<and>
    get_or 0 counts (FormatInt ts) = k + len ms"
  using assms(2-)
proof (induction ms arbitrary: S k)
  case Nil
  have "(branch S b)\<lparr>commitCount := commitCount (branch S b)\<rparr> = branch S b" by (cases "branch S b") simp
  then show ?case
    using Nil(4) by (intro exI [of _ S] exI [of _ "commitCount (branch S b)"]) simp
next
  case (Cons m ms)
  let ?sv = "count_ready (FormatInt ts) (branch S b)"
  let ?S = "S\<lparr>branch := (branch S)(b := ?sv), seen := (seen S)(m := (seen S m)(b := Suc (seen S m b)))\<rparr>"
  have m: "m \<in> set branch_names" "m \<noteq> b" "m \<notin> set ms" using Cons.prems(1,2) by auto
  have "get_or 0 (commitCount (branch S b)) (FormatInt ts) \<noteq> 3" using Cons.prems(4-6) by (auto simp: len_def)
  then have step: "sys_step (Deliver m b) S = Some (Inr (False, ?S))"
    using Cons.prems(3) assms(1) m
    by (simp add: bank_step_def COMMIT_READY_message commit_ready_waits return_go_def)
  have at: "branch ?S k = (if k = b then ?sv else branch S k)"
    "seen ?S k l = (if k = m \<and> l = b then Suc (seen S k l) else seen S k l)" for k l by auto
  have "\<forall>k \<in> set ms. seen ?S k b < length (stream (branch ?S k) b) \<and>
      next_message ?S k b = reply_with ''COMMIT_READY'' ts @ [newline]"
    using Cons.prems(2,3) m(3) unfolding at by auto
  moreover have "get_or 0 (commitCount (branch ?S b)) (FormatInt ts) = k + 1"
    using Cons.prems(4) unfolding at by (simp add: count_ready_def)
  ultimately have "\<exists>S' counts. runs sys_step any_sys_event (map (\<lambda>m. Deliver m b) ms) ?S = Some (Inr S') \<and>
    (\<forall>m. branch S' m = (if m = b then (branch ?S b)\<lparr>commitCount := counts\<rparr> else branch ?S m)) \<and>
    (\<forall>m n. seen S' m n = (if m \<in> set ms \<and> n = b then Suc (seen ?S m n) else seen ?S m n)) \<and>
    get_or 0 counts (FormatInt ts) = (k + 1) + len ms"
    using Cons.prems by (intro Cons.IH) auto
  then obtain S' counts where r: "runs sys_step any_sys_event (map (\<lambda>m. Deliver m b) ms) ?S = Some (Inr S')"
    "\<forall>m. branch S' m = (if m = b then (branch ?S b)\<lparr>commitCount := counts\<rparr> else branch ?S m)"
    "\<forall>m n. seen S' m n = (if m \<in> set ms \<and> n = b then Suc (seen ?S m n) else seen ?S m n)"
    "get_or 0 counts (FormatInt ts) = (k + 1) + len ms" by blast
  have "\<forall>m. branch S' m = (if m = b then (branch S b)\<lparr>commitCount := counts\<rparr> else branch S m)"
    using r(2) unfolding at by (simp add: count_ready_def)
  moreover have "any_sys_event (Deliver m b) S" by (simp add: any_sys_event_def)
  ultimately show ?case
    using step r(1,3,4) m(3) unfolding list.map runs_Cons at by (intro exI [of _ S'] exI [of _ counts]) auto
qed

text \<open>The decision is carried out.\<close>

lemma COMMIT_OK_message:
  assumes "int64_range ts" "DoCommit ts sv = Some (Inr sv')"
  shows "bank_step (From_branch m (Bytes (reply_with ''COMMIT_OK'' ts @ [newline]))) sv = Some (Inr (False, sv'))"
  using assms tag_words [OF phase_words_word(3), of ts]
  by (simp add: bank_step_def handleBranch_def Let_def readClient_def timestamp_of_def idx_def stamp.checked_print
      return_go_def)

lemma deliver_decisions:
  assumes "int64_range ts" "b \<in> set branch_names" "distinct ns" "set ns \<subseteq> peers_of b"
    and "\<forall>n \<in> set ns. seen S b n < length (stream (branch S b) n) \<and>
      next_message S b n = reply_with ''COMMIT_OK'' ts @ [newline] \<and>
      bank_ok (branch S n) \<and> (\<forall>acc. committable ts (branch S n) acc)"
  shows "\<exists>S'. runs sys_step any_sys_event (map (Deliver b) ns) S = Some (Inr S') \<and>
    (\<forall>m. if m \<in> set ns then DoCommit ts (branch S m) = Some (Inr (branch S' m)) else branch S' m = branch S m)"
  using assms(3-)
proof (induction ns arbitrary: S)
  case Nil
  then show ?case by simp
next
  case (Cons n ns)
  obtain sv where sv: "DoCommit ts (branch S n) = Some (Inr sv)"
    using Cons.prems(3) DoCommit_returns_iff [of "branch S n" ts] by auto
  let ?S = "S\<lparr>branch := (branch S)(n := sv), seen := (seen S)(b := (seen S b)(n := Suc (seen S b n)))\<rparr>"
  have n: "n \<in> set branch_names" "b \<noteq> n" "n \<notin> set ns" using Cons.prems(1,2) by auto
  have step: "sys_step (Deliver b n) S = Some (Inr (False, ?S))"
    using Cons.prems(3) assms(2) n by (simp add: COMMIT_OK_message [OF assms(1) sv] return_go_def)
  have at: "branch ?S m = (if m = n then sv else branch S m)"
    "seen ?S m k = (if m = b \<and> k = n then Suc (seen S b n) else seen S m k)" for m k by auto
  have "\<forall>k \<in> set ns. seen ?S b k < length (stream (branch ?S b) k) \<and>
      next_message ?S b k = reply_with ''COMMIT_OK'' ts @ [newline] \<and>
      bank_ok (branch ?S k) \<and> (\<forall>acc. committable ts (branch ?S k) acc)"
    using Cons.prems(3) n unfolding at by auto
  from Cons.IH [OF _ _ this] Cons.prems(1,2) obtain S' where
    "runs sys_step any_sys_event (map (Deliver b) ns) ?S = Some (Inr S')"
    "\<forall>m. if m \<in> set ns then DoCommit ts (branch ?S m) = Some (Inr (branch S' m)) else branch S' m = branch ?S m"
    by auto
  moreover have "any_sys_event (Deliver b n) S" by (simp add: any_sys_event_def)
  ultimately show ?case
    using step n(3) sv unfolding list.map runs_Cons at by (intro exI [of _ S']) (auto split: if_splits)
qed

text \<open>The fourth answer commits at the coordinator, which then tells the others.\<close>

lemma fourth_vote:
  assumes "int64_range ts" "wired b sv" "bank_ok sv" "get_or 0 (commitCount sv) (FormatInt ts) = 3"
    and "\<forall>acc. committable ts sv acc"
    and "map_of (send_conn sv) (FormatInt ts) = Some c" "map_of (read_conn sv) (FormatInt ts) = Some d"
  shows "\<exists>sv'. bank_step (From_branch m (Bytes (reply_with ''COMMIT_READY'' ts @ [newline]))) sv = Some (Inr (False, sv')) \<and>
    (\<forall>acc. balances sv' acc = (if has_entry ts (slot (TW sv) acc) then balance_after ts sv acc else balances sv acc)) \<and>
    (\<forall>n \<in> peers_of b. \<exists>more. stream sv' n = stream sv n @ (reply_with ''COMMIT_OK'' ts @ [newline]) # more) \<and>
    (\<exists>sent. net sv' = net sv @ sent \<and> Sent c (''COMMIT OK'' @ [newline]) \<in> set sent)"
proof -
  let ?s = "count_ready (FormatInt ts) sv"
  have ok: "bank_ok ?s" using assms(3) by (simp add: count_ready_def bank_ok_def)
  have "\<forall>acc. committable ts ?s acc" using assms(5) by (simp add: committable_def count_ready_def)
  then obtain s1 where s1: "DoCommit ts ?s = Some (Inr s1)" using DoCommit_returns_iff [OF ok] by blast
  have o: "set (others sv) = peers_of b" "distinct (others sv)"
    and conns: "\<forall>n \<in> set (others sv). map_of (send_conn sv) n \<noteq> None"
    and inj: "inj_on (map_of (send_conn sv)) (peers_of b)"
    using assms(2) by (auto simp: others_def wired_def)
  let ?oks = "map (\<lambda>n. Sent (the (map_of (send_conn sv) n)) (reply_with ''COMMIT_OK'' ts @ [newline])) (others sv)"
  let ?sv = "s1\<lparr>net := net s1 @ ?oks @ [Sent c (''COMMIT OK'' @ [newline]), Closed c, Closed d]\<rparr>"
  have net: "net s1 = net sv @ [Printed (account_info (accounts s1))]" "send_conn s1 = send_conn sv"
    using DoCommit_state(5,10) [OF ok s1] by (simp_all add: count_ready_def)
  have "bank_step (From_branch m (Bytes (reply_with ''COMMIT_READY'' ts @ [newline]))) sv = Some (Inr (False, ?sv))"
    using commit_ready_fourth [OF assms(4,1) s1 assms(3) conns assms(6,7)]
    by (simp add: bank_step_def COMMIT_READY_message return_go_def)
  moreover have "balances ?sv acc = (if has_entry ts (slot (TW sv) acc) then balance_after ts sv acc else balances sv acc)" for acc
    using DoCommit_balances [OF ok s1] by (simp add: balances_def balance_after_def count_ready_def)
  moreover have "\<exists>sent. net ?sv = net sv @ sent \<and> Sent c (''COMMIT OK'' @ [newline]) \<in> set sent"
    using net by simp
  moreover have "\<exists>more. stream ?sv n = stream sv n @ (reply_with ''COMMIT_OK'' ts @ [newline]) # more" if n: "n \<in> peers_of b" for n
  proof -
    have "sent_on (map_of (send_conn sv) n) ?oks = [reply_with ''COMMIT_OK'' ts @ [newline]]"
      using sent_on_each [OF inj _ o(2) n] conns o(1) n by auto
    then show ?thesis by (simp add: stream_def net)
  qed
  ultimately show ?thesis by blast
qed

abbreviation commit_line :: "int \<Rightarrow> read_result" where
  "commit_line ts \<equiv> Bytes (reply_with ''COMMIT'' ts @ [newline])"

lemma bank_ok_same: "accounts sv' = accounts sv \<Longrightarrow> TW sv' = TW sv \<Longrightarrow> RTS sv' = RTS sv \<Longrightarrow> bank_ok sv' = bank_ok sv"
  by (simp add: bank_ok_frame [of sv' sv])

text \<open>
  The five branches are connected and no message between two of them is under way. Their
  accounts, tentative writes, readers and counters may be any, and so may what was sent before.
\<close>

definition idle_system :: "System \<Rightarrow> bool" where
  "idle_system S \<longleftrightarrow> (\<forall>b \<in> set branch_names. wired b (branch S b) \<and> bank_ok (branch S b) \<and>
     (\<forall>n \<in> peers_of b. seen S b n = length (stream (branch S b) n)))"

lemma idle_systemD:
  assumes "idle_system S" "n \<in> set branch_names"
  shows "wired n (branch S n)" "bank_ok (branch S n)" "m \<in> peers_of n \<Longrightarrow> seen S n m = length (stream (branch S n) m)"
  using assms by (auto simp: idle_system_def)

lemma connected_idle: "connected_system S \<Longrightarrow> idle_system S"
  by (auto simp: connected_system_def idle_system_def)

text \<open>
  The coordinator \<open>b\<close> has asked every other branch, each has answered, and \<open>b\<close> has counted the
  answers of \<open>M\<close>; the data of the branches are as at first.
\<close>

definition answered :: "string \<Rightarrow> int \<Rightarrow> nat \<Rightarrow> nat \<Rightarrow> string set \<Rightarrow> int \<Rightarrow> System \<Rightarrow> System \<Rightarrow> bool" where
  "answered b ts rconn sconn M k S0 S \<longleftrightarrow>
     wired b (branch S b) \<and> get_or 0 (commitCount (branch S b)) (FormatInt ts) = k \<and>
     map_of (send_conn (branch S b)) (FormatInt ts) = Some sconn \<and>
     map_of (read_conn (branch S b)) (FormatInt ts) = Some rconn \<and>
     (\<exists>sent. net (branch S b) = net (branch S0 b) @ sent) \<and>
     (\<forall>n \<in> set branch_names. accounts (branch S n) = accounts (branch S0 n) \<and> TW (branch S n) = TW (branch S0 n) \<and>
        RTS (branch S n) = RTS (branch S0 n)) \<and>
     (\<forall>n \<in> peers_of b. seen S b n = length (stream (branch S b) n) \<and>
        stream (branch S n) b = stream (branch S0 n) b @ [reply_with ''COMMIT_READY'' ts @ [newline]] \<and>
        seen S n b = length (stream (branch S0 n) b) + (if n \<in> M then 1 else 0))"

lemma branch_name_no_key: "n \<in> set branch_names \<Longrightarrow> n \<noteq> FormatInt ts"
  using branch_name_no_stamp by (auto simp: stamp_key_def)

text \<open>The client's request.\<close>

lemma commit_requested:
  assumes S0: "idle_system S0" and b: "b \<in> set branch_names" and ts: "int64_range ts"
    and can: "can_commit ts (branch S0 b)"
  shows "\<exists>c. sys_step (Client_says b rconn sconn (commit_line ts)) S0 =
      Some (Inr (True, S0\<lparr>branch := (branch S0)(b := c)\<rparr>)) \<and>
    wired b c \<and> get_or 0 (commitCount c) (FormatInt ts) = 0 \<and>
    map_of (send_conn c) (FormatInt ts) = Some sconn \<and> map_of (read_conn c) (FormatInt ts) = Some rconn \<and>
    accounts c = accounts (branch S0 b) \<and> TW c = TW (branch S0 b) \<and> RTS c = RTS (branch S0 b) \<and>
    (\<exists>sent. net c = net (branch S0 b) @ sent) \<and>
    (\<forall>n \<in> peers_of b. stream c n = stream (branch S0 b) n @ [reply_with ''COMMIT_PREPARE'' ts @ [newline]])"
proof -
  let ?key = "FormatInt ts"
  note fresh = idle_systemD [OF S0 b]
  let ?sv = "branch S0 b" let ?s = "reset_count ?key (add_conns ?key rconn sconn ?sv)"
  have "set (others ?sv) = peers_of b" using fresh(1) by (auto simp: others_def wired_def)
  then have "\<forall>n \<in> set (others ?sv). n \<noteq> ?key \<and> map_of (send_conn ?sv) n \<noteq> None"
    using fresh(1) branch_name_no_key by (simp add: wired_def)
  from COMMIT_message [OF ts can this] obtain c where
    h: "handleConnection (\<lambda>_. ?sv) (commit_line ts) rconn sconn = Some (Inr (True, c))"
    and br: "broadcast (reply_with ''COMMIT_PREPARE'' ts) ?s = Inr c" by blast
  have ws: "wired b ?s" using wired_quiet [OF add_conns_quiet fresh(1)] by simp
  have str_s: "stream ?s n = stream ?sv n" if "n \<in> peers_of b" for n
    using branch_name_no_key [of n] that
    by (simp add: stream_def reset_count_def add_conns_def AList.update_conv')
  obtain net' where c: "c = ?s\<lparr>net := net'\<rparr>" using broadcast_frame [OF br] by blast
  have "\<exists>sent. net c = net ?sv @ sent" using broadcast_net [OF ws br] by (simp add: reset_count_def add_conns_def)
  moreover
  have "wired b c" "\<And>n. n \<in> peers_of b \<Longrightarrow> stream c n = stream ?sv n @ [reply_with ''COMMIT_PREPARE'' ts @ [newline]]"
    using broadcast_stream [OF ws br] str_s by auto
  moreover have "sys_step (Client_says b rconn sconn (commit_line ts)) S0 =
      Some (Inr (True, S0\<lparr>branch := (branch S0)(b := c)\<rparr>))"
    using b h by (simp add: bank_step_def return_go_def)
  ultimately show ?thesis
    by (intro exI [of _ c]) (simp add: c reset_count_def add_conns_def AList.update_conv')
qed

text \<open>The client's request and the questions.\<close>

lemma commit_asked:
  assumes S0: "idle_system S0" and b: "b \<in> set branch_names" and ts: "int64_range ts"
    and can: "\<forall>n \<in> set branch_names. can_commit ts (branch S0 n)"
    and ns: "set ns = peers_of b" "distinct ns"
  shows "\<exists>S. runs sys_step any_sys_event (Client_says b rconn sconn (commit_line ts) # map (Deliver b) ns) S0 = Some (Inr S) \<and>
    answered b ts rconn sconn {} 0 S0 S"
proof -
  let ?prep = "reply_with ''COMMIT_PREPARE'' ts @ [newline]" let ?ready = "reply_with ''COMMIT_READY'' ts @ [newline]"
  note fresh = idle_systemD [OF S0]
  have "can_commit ts (branch S0 b)" using can b by blast
  from commit_requested [OF S0 b ts this, of rconn sconn] obtain c where
    step: "sys_step (Client_says b rconn sconn (commit_line ts)) S0 = Some (Inr (True, S0\<lparr>branch := (branch S0)(b := c)\<rparr>))"
    and c: "wired b c" "get_or 0 (commitCount c) (FormatInt ts) = 0"
      "map_of (send_conn c) (FormatInt ts) = Some sconn" "map_of (read_conn c) (FormatInt ts) = Some rconn"
      "accounts c = accounts (branch S0 b)" "TW c = TW (branch S0 b)" "RTS c = RTS (branch S0 b)"
      "\<exists>sent. net c = net (branch S0 b) @ sent"
      "\<forall>n \<in> peers_of b. stream c n = stream (branch S0 b) n @ [?prep]" by blast
  let ?S1 = "S0\<lparr>branch := (branch S0)(b := c)\<rparr>"
  define cn where "cn = (\<lambda>n. the (map_of (send_conn (branch S0 n)) b))"
  have cn: "map_of (send_conn (branch S0 n)) b = Some (cn n)" if "n \<in> peers_of b" for n
    using fresh(1) [of n] that b by (auto simp: wired_def cn_def)
  have "\<forall>n \<in> set ns. seen ?S1 b n < length (stream (branch ?S1 b) n) \<and> next_message ?S1 b n = ?prep \<and>
      can_commit ts (branch ?S1 n) \<and> map_of (send_conn (branch ?S1 n)) b = Some (cn n)"
    unfolding ns(1) using fresh(3) [OF b] c(9) can cn by auto
  from deliver_prepares [OF ts b ns(2) _ this] ns(1) obtain S2 where
    S2: "runs sys_step any_sys_event (map (Deliver b) ns) ?S1 = Some (Inr S2)"
      "\<forall>m. branch S2 m = (if m \<in> set ns then (branch ?S1 m)\<lparr>net := net (branch ?S1 m) @ [Sent (cn m) ?ready]\<rparr>
         else branch ?S1 m)"
      "\<forall>m n. seen S2 m n = (if m = b \<and> n \<in> set ns then Suc (seen ?S1 m n) else seen ?S1 m n)" by blast
  have at: "branch S2 b = c" "seen S2 m b = seen S0 m b"
    "m \<in> peers_of b \<Longrightarrow> branch S2 m = (branch S0 m)\<lparr>net := net (branch S0 m) @ [Sent (cn m) ?ready]\<rparr>"
    "m \<in> peers_of b \<Longrightarrow> seen S2 b m = length (stream (branch S2 b) m)" for m
    using S2(2,3) fresh(3) [OF b] c(9) unfolding ns(1) by auto
  have "stream (branch S2 m) b = stream (branch S0 m) b @ [?ready] \<and> seen S2 m b = length (stream (branch S0 m) b)"
    if "m \<in> peers_of b" for m
    using at(2) [of m] at(3) [OF that] cn [OF that] fresh(3) [of m b] that b by (auto simp: stream_def)
  moreover have "accounts (branch S2 n) = accounts (branch S0 n) \<and> TW (branch S2 n) = TW (branch S0 n) \<and>
      RTS (branch S2 n) = RTS (branch S0 n)" if "n \<in> set branch_names" for n
    using c(5-7) at(1) at(3) [of n] that by (cases "n = b") auto
  moreover have "runs sys_step any_sys_event (Client_says b rconn sconn (commit_line ts) # map (Deliver b) ns) S0 = Some (Inr S2)"
    using step S2(1) unfolding runs_Cons any_sys_event_def by blast
  ultimately show ?thesis
    using c(1-4,8) at(1,4) by (intro exI [of _ S2]) (simp add: answered_def)
qed

text \<open>The client's request, the questions and all answers but one.\<close>

lemma commit_all_but_one:
  assumes S0: "idle_system S0" and b: "b \<in> set branch_names" and ts: "int64_range ts"
    and can: "\<forall>n \<in> set branch_names. can_commit ts (branch S0 n)"
    and ns: "filter (\<lambda>n. n \<noteq> b) branch_names = ms @ [z]"
  shows "\<exists>S. runs sys_step any_sys_event (Client_says b rconn sconn (commit_line ts) #
        map (Deliver b) (ms @ [z]) @ map (\<lambda>m. Deliver m b) ms) S0 = Some (Inr S) \<and>
    answered b ts rconn sconn (set ms) 3 S0 S"
proof -
  have set_ns: "set (ms @ [z]) = peers_of b" "distinct (ms @ [z])"
    unfolding ns [symmetric] by (auto simp: branch_names_def)
  have "\<forall>b \<in> set branch_names. length (filter (\<lambda>n. n \<noteq> b) branch_names) = 4" by (simp add: branch_names_def)
  then have "length (ms @ [z]) = 4" using b ns by metis
  then have three: "distinct ms" "set ms \<subseteq> peers_of b" "0 + len ms \<le> 3" "0 + len ms = 3"
    using set_ns by (auto simp: len_def)
  obtain S where S: "runs sys_step any_sys_event (Client_says b rconn sconn (commit_line ts) # map (Deliver b) (ms @ [z])) S0 = Some (Inr S)"
    and a: "answered b ts rconn sconn {} 0 S0 S"
    using commit_asked [OF S0 b ts can set_ns, of rconn sconn] by blast
  have "\<forall>m \<in> set ms. seen S m b < length (stream (branch S m) b) \<and>
      next_message S m b = reply_with ''COMMIT_READY'' ts @ [newline]"
  proof
    fix m assume "m \<in> set ms"
    then have p: "m \<in> peers_of b" using three(2) by blast
    have "\<forall>n \<in> peers_of b. stream (branch S n) b = stream (branch S0 n) b @ [reply_with ''COMMIT_READY'' ts @ [newline]] \<and>
        seen S n b = length (stream (branch S0 n) b) + (if n \<in> {} then 1 else 0)"
      using a unfolding answered_def by blast
    from bspec [OF this p] show "seen S m b < length (stream (branch S m) b) \<and>
        next_message S m b = reply_with ''COMMIT_READY'' ts @ [newline]" by simp
  qed
  then obtain S' counts where
    S': "runs sys_step any_sys_event (map (\<lambda>m. Deliver m b) ms) S = Some (Inr S')"
      "\<forall>m. branch S' m = (if m = b then (branch S b)\<lparr>commitCount := counts\<rparr> else branch S m)"
      "\<forall>m n. seen S' m n = (if m \<in> set ms \<and> n = b then Suc (seen S m n) else seen S m n)" "get_or 0 counts (FormatInt ts) = 3"
    using deliver_votes [OF b three(1,2), of S ts 0] three(3,4) a unfolding answered_def by auto
  have "answered b ts rconn sconn (set ms) 3 S0 S'"
    using a S'(2-4) unfolding answered_def by (simp add: wired_def stream_def)
  moreover have "runs sys_step any_sys_event ((Client_says b rconn sconn (commit_line ts) # map (Deliver b) (ms @ [z])) @
      map (\<lambda>m. Deliver m b) ms) S0 = Some (Inr S')"
    unfolding runs_append S by (simp add: S'(1))
  ultimately show ?thesis by (intro exI [of _ S']) simp
qed

lemma same_data:
  assumes "accounts sv = accounts sv'" "TW sv = TW sv'"
  shows "committable ts sv acc \<longleftrightarrow> committable ts sv' acc" "balances sv acc = balances sv' acc"
    "balance_after ts sv acc = balance_after ts sv' acc"
  using assms by (simp_all add: committable_def balances_def balance_after_def)

text \<open>Up to the decision: the coordinator has committed and told the client and the others.\<close>

lemma commit_decided:
  assumes "idle_system S0" "b \<in> set branch_names" "int64_range ts"
    and "\<forall>n \<in> set branch_names. can_commit ts (branch S0 n) \<and> (\<forall>acc. committable ts (branch S0 n) acc)"
    and ns: "filter (\<lambda>n. n \<noteq> b) branch_names = ms @ [z]"
  shows "\<exists>S. runs sys_step any_sys_event (Client_says b rconn sconn (commit_line ts) #
        map (Deliver b) (ms @ [z]) @ map (\<lambda>m. Deliver m b) (ms @ [z])) S0 = Some (Inr S) \<and>
    (\<exists>sent. net (branch S b) = net (branch S0 b) @ sent \<and> Sent sconn (''COMMIT OK'' @ [newline]) \<in> set sent) \<and>
    (\<forall>acc. balances (branch S b) acc = (if has_entry ts (slot (TW (branch S0 b)) acc)
       then balance_after ts (branch S0 b) acc else balances (branch S0 b) acc)) \<and>
    (\<forall>n \<in> peers_of b. seen S b n < length (stream (branch S b) n) \<and>
       next_message S b n = reply_with ''COMMIT_OK'' ts @ [newline] \<and> bank_ok (branch S n) \<and>
       accounts (branch S n) = accounts (branch S0 n) \<and> TW (branch S n) = TW (branch S0 n))"
proof -
  have set_ns: "set (ms @ [z]) = peers_of b" "distinct (ms @ [z])"
    unfolding ns [symmetric] by (auto simp: branch_names_def)
  then have z: "z \<in> peers_of b" "z \<notin> set ms" by auto
  have can: "\<forall>n \<in> set branch_names. can_commit ts (branch S0 n)" using assms(4) by blast
  obtain S where S: "runs sys_step any_sys_event (Client_says b rconn sconn (commit_line ts) #
        map (Deliver b) (ms @ [z]) @ map (\<lambda>m. Deliver m b) ms) S0 = Some (Inr S)"
    "wired b (branch S b)" "get_or 0 (commitCount (branch S b)) (FormatInt ts) = 3"
    "map_of (send_conn (branch S b)) (FormatInt ts) = Some sconn"
    "map_of (read_conn (branch S b)) (FormatInt ts) = Some rconn"
    and data: "\<forall>n \<in> set branch_names. accounts (branch S n) = accounts (branch S0 n) \<and>
       TW (branch S n) = TW (branch S0 n) \<and> RTS (branch S n) = RTS (branch S0 n)"
    and grown: "\<exists>sent. net (branch S b) = net (branch S0 b) @ sent"
    and str: "\<forall>n \<in> peers_of b. seen S b n = length (stream (branch S b) n) \<and>
       stream (branch S n) b = stream (branch S0 n) b @ [reply_with ''COMMIT_READY'' ts @ [newline]] \<and>
       seen S n b = length (stream (branch S0 n) b) + (if n \<in> set ms then 1 else 0)"
    using commit_all_but_one [OF assms(1-3) can ns, of rconn sconn] unfolding answered_def by blast
  have same: "bank_ok (branch S n)" "committable ts (branch S n) acc" "balances (branch S n) acc = balances (branch S0 n) acc"
    "balance_after ts (branch S n) acc = balance_after ts (branch S0 n) acc" if "n \<in> set branch_names" for n acc
    using assms(1,4) data that bank_ok_same [of "branch S n" "branch S0 n"] same_data [of "branch S n" "branch S0 n"]
    by (simp_all add: idle_system_def)
  obtain sv where sv: "bank_step (From_branch z (Bytes (reply_with ''COMMIT_READY'' ts @ [newline]))) (branch S b) =
      Some (Inr (False, sv))"
    and bal: "\<forall>acc. balances sv acc = (if has_entry ts (slot (TW (branch S b)) acc) then balance_after ts (branch S b) acc
      else balances (branch S b) acc)"
    and more: "\<forall>n \<in> peers_of b. \<exists>more. stream sv n = stream (branch S b) n @ (reply_with ''COMMIT_OK'' ts @ [newline]) # more"
    and told: "\<exists>sent. net sv = net (branch S b) @ sent \<and> Sent sconn (''COMMIT OK'' @ [newline]) \<in> set sent"
    using fourth_vote [OF assms(3) S(2) same(1) [OF assms(2)] S(3) _ S(4,5)] same(2) [OF assms(2)] by blast
  let ?S = "S\<lparr>branch := (branch S)(b := sv), seen := (seen S)(z := (seen S z)(b := Suc (seen S z b)))\<rparr>"
  have step: "sys_step (Deliver z b) S = Some (Inr (False, ?S))"
    using z str sv assms(2) by (simp add: return_go_def)
  have at: "branch ?S m = (if m = b then sv else branch S m)" "seen ?S b m = seen S b m" for m using z(1) by auto
  have "seen ?S b n < length (stream (branch ?S b) n) \<and>
      next_message ?S b n = reply_with ''COMMIT_OK'' ts @ [newline] \<and> bank_ok (branch ?S n) \<and>
      accounts (branch ?S n) = accounts (branch S0 n) \<and> TW (branch ?S n) = TW (branch S0 n)" if n: "n \<in> peers_of b" for n
  proof -
    obtain rest where "stream sv n = stream (branch S b) n @ (reply_with ''COMMIT_OK'' ts @ [newline]) # rest"
      using more n by blast
    moreover have "seen S b n = length (stream (branch S b) n)" using str n by blast
    ultimately show ?thesis using same(1) data n unfolding at by auto
  qed
  moreover have "runs sys_step any_sys_event ((Client_says b rconn sconn (commit_line ts) #
        map (Deliver b) (ms @ [z]) @ map (\<lambda>m. Deliver m b) ms) @ [Deliver z b]) S0 = Some (Inr ?S)"
    using S(1) step unfolding runs_append by (simp add: runs_Cons any_sys_event_def)
  moreover have "balances (branch ?S b) acc = (if has_entry ts (slot (TW (branch S0 b)) acc)
       then balance_after ts (branch S0 b) acc else balances (branch S0 b) acc)" for acc
    using bal same(3,4) data assms(2) unfolding at by simp
  moreover have "\<exists>sent. net (branch ?S b) = net (branch S0 b) @ sent \<and> Sent sconn (''COMMIT OK'' @ [newline]) \<in> set sent"
    using told grown unfolding at by auto
  ultimately show ?thesis by (intro exI [of _ ?S]) simp
qed

text \<open>A client's commit through branch \<open>b\<close>, undisturbed: all questions, all answers, all decisions.\<close>

definition commit_schedule :: "string \<Rightarrow> int \<Rightarrow> nat \<Rightarrow> nat \<Rightarrow> sys_event list" where
  "commit_schedule b ts rconn sconn =
     (let others = filter (\<lambda>n. n \<noteq> b) branch_names
      in Client_says b rconn sconn (commit_line ts) #
         map (Deliver b) others @ map (\<lambda>m. Deliver m b) others @ map (Deliver b) others)"

text \<open>C24: a commit that every branch can carry out is carried out everywhere. From any state of
  five connected branches in which no message between them is under way (whatever they did
  before), when each one's check of the transaction passes, none has a tentative write of a later
  transaction and each account the transaction wrote exists, the client's \<open>COMMIT\<close> followed by the delivery of the questions, the answers
  and the decisions ends with \<open>COMMIT OK\<close> sent to the client, and at every one of the five
  branches each account the transaction wrote holds its new balance and every other its old one.\<close>

theorem commit_completes:
  assumes "idle_system S0" "b \<in> set branch_names" "int64_range ts"
    and "\<forall>n \<in> set branch_names. can_commit ts (branch S0 n) \<and> (\<forall>acc. committable ts (branch S0 n) acc)"
  shows "\<exists>S. runs sys_step any_sys_event (commit_schedule b ts rconn sconn) S0 = Some (Inr S) \<and>
    (\<exists>sent. net (branch S b) = net (branch S0 b) @ sent \<and> Sent sconn (''COMMIT OK'' @ [newline]) \<in> set sent) \<and>
    (\<forall>n \<in> set branch_names. \<forall>acc. balances (branch S n) acc =
      (if has_entry ts (slot (TW (branch S0 n)) acc) then balance_after ts (branch S0 n) acc
       else balances (branch S0 n) acc))"
proof -
  have "\<forall>b \<in> set branch_names. filter (\<lambda>n. n \<noteq> b) branch_names \<noteq> []" by (simp add: branch_names_def)
  then obtain ms z where ns: "filter (\<lambda>n. n \<noteq> b) branch_names = ms @ [z]"
    using assms(2) by (metis rev_exhaust)
  have set_ns: "set (ms @ [z]) = peers_of b" "distinct (ms @ [z])"
    unfolding ns [symmetric] by (auto simp: branch_names_def)
  obtain S where S: "runs sys_step any_sys_event (Client_says b rconn sconn (commit_line ts) #
        map (Deliver b) (ms @ [z]) @ map (\<lambda>m. Deliver m b) (ms @ [z])) S0 = Some (Inr S)"
    and told: "\<exists>sent. net (branch S b) = net (branch S0 b) @ sent \<and> Sent sconn (''COMMIT OK'' @ [newline]) \<in> set sent"
    and bal: "\<forall>acc. balances (branch S b) acc = (if has_entry ts (slot (TW (branch S0 b)) acc)
       then balance_after ts (branch S0 b) acc else balances (branch S0 b) acc)"
    and pend: "\<forall>n \<in> peers_of b. seen S b n < length (stream (branch S b) n) \<and>
       next_message S b n = reply_with ''COMMIT_OK'' ts @ [newline] \<and> bank_ok (branch S n) \<and>
       accounts (branch S n) = accounts (branch S0 n) \<and> TW (branch S n) = TW (branch S0 n)"
    using commit_decided [OF assms ns, of rconn sconn] by blast
  have "\<forall>n \<in> set (ms @ [z]). seen S b n < length (stream (branch S b) n) \<and>
      next_message S b n = reply_with ''COMMIT_OK'' ts @ [newline] \<and>
      bank_ok (branch S n) \<and> (\<forall>acc. committable ts (branch S n) acc)"
    using pend assms(4) same_data(1) unfolding set_ns(1) by blast
  then obtain S' where S': "runs sys_step any_sys_event (map (Deliver b) (ms @ [z])) S = Some (Inr S')"
    "\<forall>m. if m \<in> set (ms @ [z]) then DoCommit ts (branch S m) = Some (Inr (branch S' m)) else branch S' m = branch S m"
    using deliver_decisions [OF assms(3,2) set_ns(2), of S] set_ns(1) by blast
  have sched: "commit_schedule b ts rconn sconn = (Client_says b rconn sconn (commit_line ts) #
        map (Deliver b) (ms @ [z]) @ map (\<lambda>m. Deliver m b) (ms @ [z])) @ map (Deliver b) (ms @ [z])"
    by (simp add: commit_schedule_def Let_def ns)
  have run: "runs sys_step any_sys_event (commit_schedule b ts rconn sconn) S0 = Some (Inr S')"
    unfolding sched runs_append S by (simp only: option.case sum.case S'(1))
  have "b \<notin> set (ms @ [z])" unfolding set_ns(1) by simp
  then have b': "branch S' b = branch S b" using S'(2) by presburger
  have "balances (branch S' n) acc = (if has_entry ts (slot (TW (branch S0 n)) acc) then balance_after ts (branch S0 n) acc
       else balances (branch S0 n) acc)" if n: "n \<in> set branch_names" for n acc
  proof (cases "n = b")
    case False
    then have n': "n \<in> peers_of b" using n by simp
    then have "DoCommit ts (branch S n) = Some (Inr (branch S' n))" using S'(2) set_ns(1) by metis
    then show ?thesis
      using DoCommit_balances pend n' same_data(2,3) [of "branch S n" "branch S0 n"] by metis
  qed (use bal b' in simp)
  then show ?thesis using run told b' by metis
qed

text \<open>Five branches, one of which holds a deposit of 4 made at time 7 on an account with 10.\<close>

definition site :: "string \<Rightarrow> Server" where
  "site b = (new_Server b)\<lparr>name := map (\<lambda>n. (\<lparr>ip_X = n, ip_Y = []\<rparr>, n)) branch_names,
     send_conn := zip branch_names [0..<5]\<rparr>"

definition busy_site :: Server where
  "busy_site = (site ''A'')\<lparr>accounts := [(''x'', \<lparr>acc_name = ''x'', committedValue = 10, committedTimestamp = 1,
     amount = 10, createdTimestamp = 1\<rparr>)], TW := [(''x'', [\<lparr>wv_timestamp = 7, wv_value = 4\<rparr>])]\<rparr>"

definition sites :: System where
  "sites = \<lparr>branch = (\<lambda>b. if b = ''A'' then busy_site else site b), seen = (\<lambda>_ _. 0)\<rparr>"

lemma wired_site: "b \<in> set branch_names \<Longrightarrow> wired b (site b)"
  by (auto simp: wired_def site_def new_Server_def branch_names_def inj_on_def eval_nat_numeral)

lemma busy_slot: "slot (TW busy_site) acc = (if acc = ''x'' then [\<lparr>wv_timestamp = 7, wv_value = 4\<rparr>] else [])"
  by (simp add: busy_site_def get_or_def)

lemma sites_connected: "connected_system sites"
proof -
  have "bank_ok (site b)" for b by (simp add: bank_ok_def site_def new_Server_def range_keys_def stamps_def get_or_def)
  moreover have "bank_ok busy_site"
    by (simp add: bank_ok_def busy_slot stamps_def) (simp add: busy_site_def site_def new_Server_def range_keys_def get_or_def)
  moreover have "wired ''A'' busy_site"
    using wired_site [of "''A''"] by (simp add: wired_def busy_site_def branch_names_def)
  ultimately show ?thesis
    using wired_site by (auto simp: connected_system_def sites_def stream_def busy_site_def site_def new_Server_def)
qed

lemma sites_ready:
  "\<forall>n \<in> set branch_names. can_commit 7 (branch sites n) \<and> (\<forall>acc. committable 7 (branch sites n) acc)"
proof -
  have "can_commit 7 (site b) \<and> (\<forall>acc. committable 7 (site b) acc)" for b
    by (simp add: can_commit_iff committable_def TxRelated_def no_newer_def site_def new_Server_def)
  moreover have "can_commit 7 busy_site"
    by (simp add: can_commit_iff overdrawn_def negative_def busy_site_def get_or_def)
  moreover have "committable 7 busy_site acc" for acc
    by (simp add: committable_def no_newer_def busy_slot) (simp add: busy_site_def)
  ultimately show ?thesis by (simp add: sites_def)
qed

lemma busy_balances: "balances busy_site ''x'' = 10" "balance_after 7 busy_site ''x'' = 14"
  by (simp_all add: balances_def balance_after_def busy_slot) (simp_all add: busy_site_def get_or_def)

theorem commit_completes_witness:
  "\<exists>S. runs sys_step any_sys_event (commit_schedule ''A'' 7 10 11) sites = Some (Inr S) \<and>
     Sent 11 (''COMMIT OK'' @ [newline]) \<in> set (net (branch S ''A'')) \<and> balances (branch S ''A'') ''x'' = 14"
proof -
  have A: "''A'' \<in> set branch_names" "int64_range 7" "branch sites ''A'' = busy_site"
    by (simp_all add: branch_names_def int64_range_def sites_def)
  show ?thesis
    using commit_completes [OF connected_idle [OF sites_connected] A(1,2) sites_ready, of 10 11] A(1,3) busy_slot [of "''x''"] busy_balances
    by fastforce
qed

theorem commit_needs_all_checks_witness:
  "\<exists>es S. runs sys_step any_sys_event es sites = Some (Inr S) \<and> (\<forall>p \<in> set branch_names. has_checked p 7 es sites)"
proof -
  have A: "''A'' \<in> set branch_names" "int64_range 7" "branch sites ''A'' = busy_site"
    by (simp_all add: branch_names_def int64_range_def sites_def)
  let ?ms = "[''B'', ''C'', ''D'']" let ?z = "''E''"
  have ns: "filter (\<lambda>n. n \<noteq> ''A'') branch_names = ?ms @ [?z]" by (simp add: branch_names_def)
  have can: "\<forall>n \<in> set branch_names. can_commit 7 (branch sites n)" using sites_ready by blast
  let ?es = "Client_says ''A'' 10 11 (commit_line 7) # map (Deliver ''A'') (?ms @ [?z]) @ map (\<lambda>m. Deliver m ''A'') ?ms"
  obtain S where S: "runs sys_step any_sys_event ?es sites = Some (Inr S)"
    "wired ''A'' (branch S ''A'')" "get_or 0 (commitCount (branch S ''A'')) (FormatInt 7) = 3"
    "map_of (send_conn (branch S ''A'')) (FormatInt 7) = Some 11"
    "map_of (read_conn (branch S ''A'')) (FormatInt 7) = Some 10"
    and data: "\<forall>n \<in> set branch_names. accounts (branch S n) = accounts (branch sites n) \<and>
       TW (branch S n) = TW (branch sites n) \<and> RTS (branch S n) = RTS (branch sites n)"
    and str: "\<forall>n \<in> peers_of ''A''. seen S ''A'' n = length (stream (branch S ''A'') n) \<and>
       stream (branch S n) ''A'' = stream (branch sites n) ''A'' @ [reply_with ''COMMIT_READY'' 7 @ [newline]] \<and>
       seen S n ''A'' = length (stream (branch sites n) ''A'') + (if n \<in> set ?ms then 1 else 0)"
    using commit_all_but_one [OF connected_idle [OF sites_connected] A(1,2) can ns, of 10 11] unfolding answered_def by blast
  let ?sv = "branch S ''A''"
  have z: "?z \<in> peers_of ''A''" "?z \<notin> set ?ms" by (simp_all add: branch_names_def)
  have "accounts ?sv = accounts busy_site" "TW ?sv = TW busy_site" "RTS ?sv = RTS busy_site"
    using bspec [OF data A(1)] unfolding A(3) by blast+
  moreover have "bank_ok (branch sites ''A'')" using sites_connected A(1) unfolding connected_system_def by blast
  moreover have "\<forall>acc. committable 7 (branch sites ''A'') acc" using sites_ready A(1) by blast
  ultimately have same: "bank_ok ?sv" "\<forall>acc. committable 7 ?sv acc" "balances ?sv acc = balances busy_site acc"
    "balance_after 7 ?sv acc = balance_after 7 busy_site acc" "slot (TW ?sv) acc = slot (TW busy_site) acc" for acc
    unfolding A(3) by (simp_all add: bank_ok_same [of ?sv busy_site] committable_def balances_def balance_after_def)
  obtain sv where sv: "bank_step (From_branch ?z (Bytes (reply_with ''COMMIT_READY'' 7 @ [newline]))) ?sv = Some (Inr (False, sv))"
    and bal: "balances sv ''x'' = 14"
    using fourth_vote [OF A(2) S(2) same(1) S(3) same(2) S(4,5), of ?z] same(3-5) [of "''x''"] busy_balances busy_slot [of "''x''"]
    by auto
  let ?S = "S\<lparr>branch := (branch S)(''A'' := sv), seen := (seen S)(?z := (seen S ?z)(''A'' := Suc (seen S ?z ''A'')))\<rparr>"
  have step: "sys_step (Deliver ?z ''A'') S = Some (Inr (False, ?S))"
    using z str sv A(1) by (simp add: return_go_def)
  have once: "\<forall>b \<in> set branch_names. \<forall>ts. length (filter (requests b ts) ?es) \<le> 1" by simp
  have ch: "balances (branch ?S ''A'') ''x'' \<noteq> balances ?sv ''x''"
    using bal same(3) busy_balances by simp
  have there: "map_of (accounts (branch ?S ''A'')) ''x'' \<noteq> None"
    using bal by (cases "map_of (accounts sv) ''x''") (simp_all add: balances_def get_or_def zero_Account_def)
  from commit_needs_all_checks [OF sites_connected S(1) once step A(1) ch] there obtain m ts where
    m: "Deliver ?z ''A'' = Deliver m ''A''" "int64_range ts" and ts: "idx (Fields (next_message S m ''A'')) 1 = Inr (FormatInt ts)"
    and all: "\<forall>p \<in> set branch_names. has_checked p ts ?es sites" by blast
  have "next_message S m ''A'' = reply_with ''COMMIT_READY'' 7 @ [newline]" using m(1) str z by simp
  then have "FormatInt ts = FormatInt 7" using ts by (simp add: tag_words(1) phase_words_word idx_def)
  then have "ts = 7" using FormatInt_inj [OF m(2) A(2)] by simp
  then show ?thesis using S(1) all by blast
qed

end
