(* ===== verification/BankStartup.thy ===== *)
theory BankStartup
  imports BankSystem BankExchange
begin

text \<open>
  Start-up of the bank (\<open>main\<close>, \<open>readFromConfig\<close>, \<open>build_branches\<close> of
  \<open>mp3/server/server.go\<close>): five branches that read the same configuration file, dial each
  other from the ports of the table and accept each other's connections, with clients in
  between, make the connected system that the two-phase commit is about. And the runs of a branch
  that has been started so: what every sequence of messages keeps, and which messages can change a
  committed balance.
\<close>

section \<open>The configuration\<close>

definition config_line :: "string \<times> string \<times> string \<Rightarrow> string" where
  "config_line = (\<lambda>(n, ad, pt). n @ CHR '' '' # ad @ CHR '' '' # pt)"

text \<open>A line for each branch: its name, its address and its port; no two share address and port.\<close>

definition five_branches :: "(string \<times> string \<times> string) list \<Rightarrow> bool" where
  "five_branches bs \<longleftrightarrow> distinct (map fst bs) \<and> set (map fst bs) = set branch_names \<and> distinct (map snd bs) \<and>
     (\<forall>(n, ad, pt) \<in> set bs. CHR '' '' \<notin> set ad \<and> CHR '' '' \<notin> set pt)"

lemma Split_three:
  assumes "sep \<notin> set a" "sep \<notin> set b" "sep \<notin> set c"
  shows "Split (a @ sep # b @ sep # c) sep = [a, b, c]"
  using assms Split_pair [OF assms(2,3)] unfolding Split_def
  by (subst split_by_sep) (force simp: list_all_iff, simp, simp)

lemma update_all:
  assumes "distinct (map fst xs)" "fst ` set xs \<inter> fst ` set ys = {}"
  shows "fold (\<lambda>x. AList.update (fst x) (snd x)) xs ys = ys @ xs"
  using assms
proof (induction xs arbitrary: ys)
  case (Cons x xs)
  have "AList.update (fst x) (snd x) ys = ys @ [x]"
    using Cons.prems(2) by (induction ys) auto
  then show ?case using Cons.IH [of "ys @ [x]"] Cons.prems by auto
qed simp

text \<open>What \<open>readFromConfig\<close> leaves.\<close>

definition configured :: "string \<Rightarrow> (string \<times> string \<times> string) list \<Rightarrow> Server" where
  "configured b bs = (new_Server b)\<lparr>address := map (\<lambda>(n, ad, pt). (n, ad)) bs,
     port := map (\<lambda>(n, ad, pt). (n, pt)) bs, name := map (\<lambda>(n, ad, pt). (\<lparr>ip_X = ad, ip_Y = pt\<rparr>, n)) bs\<rparr>"

lemma readFromConfig_lines:
  assumes "\<forall>(n, ad, pt) \<in> set bs. CHR '' '' \<notin> set n \<and> CHR '' '' \<notin> set ad \<and> CHR '' '' \<notin> set pt"
  shows "readFromConfig (map config_line bs) sv = Inr (sv\<lparr>
     address := fold (\<lambda>(n, ad, pt). AList.update n ad) bs (address sv),
     port := fold (\<lambda>(n, ad, pt). AList.update n pt) bs (port sv),
     name := fold (\<lambda>(n, ad, pt). AList.update \<lparr>ip_X = ad, ip_Y = pt\<rparr> n) bs (name sv)\<rparr>)"
  using assms
proof (induction bs arbitrary: sv)
  case Nil
  then show ?case by (simp add: readFromConfig_def)
next
  case (Cons t bs)
  obtain n ad pt where t: "t = (n, ad, pt)" by (cases t)
  have "Split (config_line t) CHR '' '' = [n, ad, pt]"
    using Cons.prems unfolding t config_line_def by (simp add: Split_three)
  then show ?case
    using Cons.IH Cons.prems by (simp add: readFromConfig_def idx_def len_def t)
qed

lemma readFromConfig_five:
  assumes "five_branches bs"
  shows "readFromConfig (map config_line bs) (new_Server b) = Inr (configured b bs)"
proof -
  have d: "distinct (map fst bs)" "distinct (map snd bs)" "set (map fst bs) = set branch_names"
    using assms by (simp_all add: five_branches_def)
  have "CHR '' '' \<notin> set n" if "n \<in> set branch_names" for n using that by (auto simp: branch_names_def)
  then have w: "\<forall>(n, ad, pt) \<in> set bs. CHR '' '' \<notin> set n \<and> CHR '' '' \<notin> set ad \<and> CHR '' '' \<notin> set pt"
    using assms d(3) by (fastforce simp: five_branches_def)
  have "fold (\<lambda>(n, ad, pt). AList.update (f n ad pt) (g n ad pt)) bs [] = map (\<lambda>(n, ad, pt). (f n ad pt, g n ad pt)) bs"
    if "distinct (map (\<lambda>(n, ad, pt). f n ad pt) bs)" for f :: "string \<Rightarrow> string \<Rightarrow> string \<Rightarrow> 'x" and g :: "string \<Rightarrow> string \<Rightarrow> string \<Rightarrow> 'y"
    using update_all [of "map (\<lambda>(n, ad, pt). (f n ad pt, g n ad pt)) bs" "[]"] that
    by (simp add: fold_map o_def case_prod_beta')
  note upd = this
  have "distinct (map (\<lambda>(n, ad, pt). n) bs)" using d(1) by (simp add: case_prod_beta')
  note 1 = upd [OF this, of "\<lambda>n ad pt. ad"] and 2 = upd [OF this, of "\<lambda>n ad pt. pt"]
  have "inj_on (\<lambda>(ad, pt). \<lparr>ip_X = ad, ip_Y = pt\<rparr>) (set (map snd bs))" by (auto simp: inj_on_def)
  then have "distinct (map (\<lambda>(ad, pt). \<lparr>ip_X = ad, ip_Y = pt\<rparr>) (map snd bs))"
    unfolding distinct_map [of _ "map snd bs"] using d(2) by blast
  moreover have "map (\<lambda>(ad, pt). \<lparr>ip_X = ad, ip_Y = pt\<rparr>) (map snd bs) = map (\<lambda>(n, ad, pt). \<lparr>ip_X = ad, ip_Y = pt\<rparr>) bs"
    by auto
  ultimately have "distinct (map (\<lambda>(n, ad, pt). \<lparr>ip_X = ad, ip_Y = pt\<rparr>) bs)" by metis
  note 3 = upd [OF this, of "\<lambda>n ad pt. n"]
  show ?thesis
    unfolding readFromConfig_lines [OF w] configured_def using 1 2 3 by (simp add: new_Server_def)
qed

section \<open>Dialling\<close>

lemma dial_fold:
  "fold (\<lambda>n sv. if n \<noteq> me sv then sv\<lparr>send_conn := AList.update n (dial n) (send_conn sv)\<rparr> else sv) ns sv =
   sv\<lparr>send_conn := fold (\<lambda>n. AList.update n (dial n)) (filter (\<lambda>n. n \<noteq> me sv) ns) (send_conn sv)\<rparr>"
  by (induction ns arbitrary: sv) auto

lemma dialled: "map_of (fold (\<lambda>n. AList.update n (dial n)) ns m) k = (if k \<in> set ns then Some (dial k) else map_of m k)"
  by (induction ns arbitrary: m) (auto simp: AList.update_conv')

lemma dial_configured:
  assumes "five_branches bs"
  shows "\<exists>cs. dial_branches dial (configured b bs) = (configured b bs)\<lparr>send_conn := cs\<rparr> \<and>
    (\<forall>n. map_of cs n = (if n \<in> set branch_names - {b} then Some (dial n) else None))"
proof -
  have "range_keys (address (configured b bs)) = map fst bs"
    by (auto simp: configured_def range_keys_def)
  moreover have "me (configured b bs) = b" "send_conn (configured b bs) = []"
    by (simp_all add: configured_def new_Server_def)
  moreover have "set (map fst bs) = set branch_names" using assms by (simp add: five_branches_def)
  ultimately show ?thesis
    unfolding dial_branches_def dial_fold by (intro exI conjI refl) (auto simp: dialled)
qed

section \<open>Accepting\<close>

text \<open>Who opened an accepted connection: another branch, from the port of the table, or a client.\<close>

datatype caller = From_peer string | From_port int

fun caller_port :: "string \<Rightarrow> caller \<Rightarrow> int" where
  "caller_port b (From_peer a) = get_or 0 lookup (a @ b)"
| "caller_port b (From_port p) = p"

definition remote_address :: "string \<Rightarrow> string \<times> caller \<times> nat \<Rightarrow> string \<times> nat" where
  "remote_address b = (\<lambda>(ip, who, c). (ip @ CHR '':'' # FormatInt (caller_port b who), c))"

fun peer_calls :: "(string \<times> caller \<times> nat) list \<Rightarrow> (string \<times> nat) list" where
  "peer_calls [] = []"
| "peer_calls ((ip, From_peer a, c) # as) = (a, c) # peer_calls as"
| "peer_calls ((ip, From_port p, c) # as) = peer_calls as"

definition caller_ok :: "string \<Rightarrow> string \<times> caller \<times> nat \<Rightarrow> bool" where
  "caller_ok b = (\<lambda>(ip, who, c). CHR '':'' \<notin> set ip \<and>
     (case who of From_peer a \<Rightarrow> a \<in> set branch_names \<and> a \<noteq> b | From_port p \<Rightarrow> int64_range p \<and> p \<notin> snd ` set lookup))"

text \<open>Each of the other four branches connects once; clients may connect before.\<close>

definition arrivals :: "string \<Rightarrow> (string \<times> caller \<times> nat) list \<Rightarrow> bool" where
  "arrivals b as \<longleftrightarrow> list_all (caller_ok b) as \<and> distinct (map fst (peer_calls as)) \<and>
     set (map fst (peer_calls as)) = set branch_names - {b}"

lemma judged:
  assumes "caller_ok b (ip, who, c)" "b \<in> set branch_names"
  shows "judgeClient (fst (remote_address b (ip, who, c))) =
    Inr (case who of From_peer a \<Rightarrow> (False, a) | From_port p \<Rightarrow> (True, []))"
proof -
  have ip: "CHR '':'' \<notin> set ip" using assms(1) by (simp add: caller_ok_def)
  show ?thesis
  proof (cases who)
    case (From_peer a)
    then have "a \<in> set branch_names" "a \<noteq> b" using assms(1) by (simp_all add: caller_ok_def)
    then obtain p where "map_of lookup (a @ b) = Some p" "judgeClient (ip @ '':'' @ FormatInt p) = Inr (False, a)"
      using conjunct1 [OF branch_recognised [OF ip]] assms(2) by blast
    then show ?thesis using From_peer by (simp add: remote_address_def get_or_def)
  next
    case (From_port p)
    then have "judgeClient (ip @ '':'' @ FormatInt p) = Inr (True, [])"
      using assms branch_recognised [OF ip] by (simp add: caller_ok_def)
    then show ?thesis using From_port by (simp add: remote_address_def)
  qed
qed

lemma accept_all:
  assumes "list_all (caller_ok b) as" "b \<in> set branch_names"
    and "count + length (peer_calls as) = 4" "count < 4"
  shows "\<exists>cs. accept_branches (map (remote_address b) as) count sv = return_go (sv\<lparr>
    read_conn := fold (\<lambda>x. AList.update (fst x) (snd x)) (peer_calls as) (read_conn sv), net := net sv @ map Closed cs\<rparr>)"
  using assms(1,3,4)
proof (induction as arbitrary: count sv)
  case (Cons a as)
  obtain ip who c where a: "a = (ip, who, c)" by (cases a)
  have j: "judgeClient (fst (remote_address b a)) = Inr (case who of From_peer a \<Rightarrow> (False, a) | From_port p \<Rightarrow> (True, []))"
    unfolding a using Cons.prems(1) assms(2) by (intro judged) (simp_all add: a)
  have ra: "remote_address b a = (fst (remote_address b a), c)" by (simp add: remote_address_def a)
  show ?case
  proof (cases who)
    case (From_port p)
    then obtain cs where "accept_branches (map (remote_address b) as) count (sv\<lparr>net := net sv @ [Closed c]\<rparr>) =
      return_go (sv\<lparr>read_conn := fold (\<lambda>x. AList.update (fst x) (snd x)) (peer_calls as) (read_conn sv),
        net := net sv @ [Closed c] @ map Closed cs\<rparr>)"
      using Cons.IH [of count "sv\<lparr>net := net sv @ [Closed c]\<rparr>"] Cons.prems by (auto simp: a)
    then show ?thesis
      using j Cons.prems(3) From_port by (subst list.map, subst ra) (auto simp: a intro!: exI [of _ "c # cs"])
  next
    case (From_peer m)
    let ?sv = "sv\<lparr>read_conn := AList.update m c (read_conn sv)\<rparr>"
    show ?thesis
    proof (cases "count + 1 = 4")
      case True
      then have "peer_calls as = []" using Cons.prems(2) From_peer by (simp add: a)
      then show ?thesis
        using j True From_peer by (subst list.map, subst ra) (auto simp: a intro!: exI [of _ "[]"])
    next
      case False
      then have "\<exists>cs. accept_branches (map (remote_address b) as) (count + 1) ?sv = return_go (?sv\<lparr>
        read_conn := fold (\<lambda>x. AList.update (fst x) (snd x)) (peer_calls as) (read_conn ?sv), net := net ?sv @ map Closed cs\<rparr>)"
        using Cons.prems From_peer by (intro Cons.IH) (auto simp: a)
      then show ?thesis
        using j False From_peer by (subst list.map, subst ra) (auto simp: a)
    qed
  qed
qed simp

section \<open>The connected bank\<close>

lemma sent_on_closed [simp]: "sent_on conn (map Closed cs) = []"
  by (induction cs) simp_all

lemma start_server_result:
  assumes "five_branches bs" "b \<in> set branch_names" "arrivals b as"
  shows "\<exists>scs rcs cs. start_server [b, cf] (Some (map config_line bs)) dial (map (remote_address b) as) =
      return_go ((configured b bs)\<lparr>send_conn := scs, read_conn := rcs, net := map Closed cs\<rparr>) \<and>
    (\<forall>n. map_of scs n = (if n \<in> set branch_names - {b} then Some (dial n) else None)) \<and> rcs = peer_calls as"
proof -
  obtain scs where scs: "dial_branches dial (configured b bs) = (configured b bs)\<lparr>send_conn := scs\<rparr>"
    "\<forall>n. map_of scs n = (if n \<in> set branch_names - {b} then Some (dial n) else None)"
    using dial_configured [OF assms(1)] by blast
  have p: "distinct (map fst (peer_calls as))" "set (map fst (peer_calls as)) = set branch_names - {b}"
    using assms(3) by (simp_all add: arrivals_def)
  have "card (set branch_names - {b}) = 4" using assms(2) by (auto simp: branch_names_def)
  then have "length (peer_calls as) = 4" using p distinct_card [OF p(1)] by simp
  then obtain cs where "accept_branches (map (remote_address b) as) 0 ((configured b bs)\<lparr>send_conn := scs\<rparr>) =
    return_go ((configured b bs)\<lparr>send_conn := scs, read_conn := peer_calls as, net := map Closed cs\<rparr>)"
    using accept_all [of b as 0 "(configured b bs)\<lparr>send_conn := scs\<rparr>"] assms(2,3) update_all [OF p(1), of "[]"]
    by (auto simp: arrivals_def configured_def new_Server_def)
  then show ?thesis
    using scs readFromConfig_five [OF assms(1)]
    by (intro exI [of _ scs] exI [of _ "peer_calls as"] exI [of _ cs])
      (simp add: start_server_def build_branches_def len_def)
qed

text \<open>C28: start-up connects the bank. When the configuration names the five branches, each branch
  gets a connection of its own from each dial, and on each branch every other one connects once
  from its port of the table (with any number of clients before, which are turned away), then
  \<open>main\<close> comes to serving connections on all five, \<open>read_conn\<close> has for each other branch the
  connection this branch opened, and together they are a connected system without accounts.\<close>

theorem startup_connects:
  assumes "five_branches bs"
    and "\<forall>b \<in> set branch_names. inj_on (dial b) (set branch_names) \<and> arrivals b (calls b)"
  shows "\<exists>sv. (\<forall>b \<in> set branch_names.
      start_server [b, cf] (Some (map config_line bs)) (dial b) (map (remote_address b) (calls b)) = return_go (sv b) \<and>
      (\<forall>n \<in> set branch_names - {b}. map_of (read_conn (sv b)) n = map_of (peer_calls (calls b)) n \<and>
         map_of (send_conn (sv b)) n = Some (dial b n)) \<and> accounts (sv b) = []) \<and>
    connected_system \<lparr>branch = sv, seen = (\<lambda>_ _. 0)\<rparr>"
proof -
  let ?P = "\<lambda>b s. start_server [b, cf] (Some (map config_line bs)) (dial b) (map (remote_address b) (calls b)) = return_go s \<and>
      (\<exists>scs cs. s = (configured b bs)\<lparr>send_conn := scs, read_conn := peer_calls (calls b), net := map Closed cs\<rparr> \<and>
        (\<forall>n. map_of scs n = (if n \<in> set branch_names - {b} then Some (dial b n) else None)))"
  have "\<exists>s. ?P b s" if b: "b \<in> set branch_names" for b
    using start_server_result [OF assms(1) b, where dial = "dial b" and cf = cf and as = "calls b"] assms(2) b by fast
  then have "\<exists>sv. \<forall>b \<in> set branch_names. ?P b (sv b)" by (intro bchoice) simp
  then obtain sv where sv: "\<forall>b \<in> set branch_names. ?P b (sv b)" by (elim exE)
  have names: "distinct (map snd (name (configured b bs)))" "set (map snd (name (configured b bs))) = set branch_names" for b
  proof -
    have "map snd (name (configured b bs)) = map fst bs" by (auto simp: configured_def)
    then show "distinct (map snd (name (configured b bs)))" "set (map snd (name (configured b bs))) = set branch_names"
      using assms(1) by (simp_all add: five_branches_def)
  qed
  have "wired b (sv b) \<and> bank_ok (sv b) \<and> commitCount (sv b) = [] \<and> (\<forall>n. stream (sv b) n = []) \<and> accounts (sv b) = [] \<and>
      (\<forall>n \<in> set branch_names - {b}. map_of (read_conn (sv b)) n = map_of (peer_calls (calls b)) n \<and>
         map_of (send_conn (sv b)) n = Some (dial b n))" if b: "b \<in> set branch_names" for b
  proof -
    obtain scs cs where s: "sv b = (configured b bs)\<lparr>send_conn := scs, read_conn := peer_calls (calls b), net := map Closed cs\<rparr>"
      "\<forall>n. map_of scs n = (if n \<in> set branch_names - {b} then Some (dial b n) else None)"
      using sv b by blast
    have "inj_on (dial b) (set branch_names - {b})" using assms(2) b by (blast intro: inj_on_subset)
    then have "inj_on (map_of scs) (set branch_names - {b})" using s(2) by (auto simp: inj_on_def)
    moreover have "me (sv b) = b" by (simp add: s(1) configured_def new_Server_def)
    moreover have "bank_ok (sv b)" "commitCount (sv b) = []" "accounts (sv b) = []"
      by (simp_all add: s(1) configured_def new_Server_def bank_ok_def range_keys_def stamps_def get_or_def)
    ultimately show ?thesis using names [of b] s by (simp add: wired_def stream_def)
  qed
  then show ?thesis using sv by (intro exI [of _ sv]) (simp add: connected_system_def)
qed

text \<open>Five branches on five hosts; on each a client knocks first.\<close>

definition five_hosts :: "(string \<times> string \<times> string) list" where
  "five_hosts = [(''A'', ''10.0.0.1'', ''8001''), (''B'', ''10.0.0.2'', ''8001''), (''C'', ''10.0.0.3'', ''8001''),
     (''D'', ''10.0.0.4'', ''8001''), (''E'', ''10.0.0.5'', ''8001'')]"

definition host_calls :: "string \<Rightarrow> (string \<times> caller \<times> nat) list" where
  "host_calls b = (''192.168.0.9'', From_port 50000, 9) #
     map (\<lambda>(a, ad, pt). (ad, From_peer a, length pt)) (filter (\<lambda>(a, ad, pt). a \<noteq> b) five_hosts)"

definition host_dial :: "string \<Rightarrow> nat" where
  "host_dial n = (if n = ''A'' then 0 else if n = ''B'' then 1 else if n = ''C'' then 2 else if n = ''D'' then 3 else 4)"

lemma host_facts: "five_branches five_hosts"
  "\<forall>b \<in> set branch_names. inj_on host_dial (set branch_names) \<and> arrivals b (host_calls b)"
proof -
  show "five_branches five_hosts" by (auto simp: five_branches_def five_hosts_def branch_names_def)
  have "arrivals b (host_calls b)" if "b \<in> set branch_names" for b
    using that by (auto simp: arrivals_def host_calls_def five_hosts_def branch_names_def caller_ok_def int64_range_def lookup_def)
  then show "\<forall>b \<in> set branch_names. inj_on host_dial (set branch_names) \<and> arrivals b (host_calls b)"
    by (auto simp: host_dial_def branch_names_def inj_on_def)
qed

theorem startup_connects_witness:
  "\<exists>sv. connected_system \<lparr>branch = sv, seen = (\<lambda>_ _. 0)\<rparr> \<and>
     start_server [''C'', ''config.txt''] (Some (map config_line five_hosts)) host_dial
       (map (remote_address ''C'') (host_calls ''C'')) = return_go (sv ''C'') \<and>
     map_of (send_conn (sv ''C'')) ''E'' = Some 4"
proof -
  have "''C'' \<in> set branch_names" "''E'' \<in> set branch_names - {''C''}" "host_dial ''E'' = 4"
    by (simp_all add: branch_names_def host_dial_def)
  then show ?thesis
    using startup_connects [OF host_facts(1), of "\<lambda>_. host_dial" host_calls "''config.txt''"] host_facts(2) by fastforce
qed

section \<open>Runs of a started branch\<close>

text \<open>Start-up leaves the data of the branch alone.\<close>

abbreviation same_tables :: "Server \<Rightarrow> Server \<Rightarrow> bool" where
  "same_tables sv sv' \<equiv> accounts sv' = accounts sv \<and> TW sv' = TW sv \<and> RTS sv' = RTS sv"

lemma readFromConfig_tables: "readFromConfig ls sv = Inr sv' \<Longrightarrow> same_tables sv sv'"
  by (induction ls arbitrary: sv) (fastforce simp: readFromConfig_def Let_def bind_res_Inr)+

lemma accept_branches_tables: "accept_branches as count sv = Some (Inr sv') \<Longrightarrow> same_tables sv sv'"
  by (induction as count sv rule: accept_branches.induct)
    (fastforce simp: bind_go_return return_go_def Let_def split: if_splits)+

lemma start_server_ok: "start_server argv config dial accepted = return_go sv \<Longrightarrow> bank_ok sv"
proof -
  assume st: "start_server argv config dial accepted = return_go sv"
  then obtain ls sv1 where "readFromConfig ls (new_Server (argv ! 0)) = Inr sv1"
    "accept_branches accepted 0 (dial_branches dial sv1) = Some (Inr sv)"
    by (auto simp: start_server_def build_branches_def bind_go_return return_go_def split: if_splits option.splits)
  then have "same_tables (new_Server (argv ! 0)) sv"
    using readFromConfig_tables accept_branches_tables by (fastforce simp: dial_branches_def dial_fold)
  then show ?thesis using bank_ok_frame bank_ok_new by blast
qed

text \<open>C19: the invariant of a running branch, and what may change money. Whatever clients and
  other branches send to a branch that \<open>main\<close> has started and connected, as long as it has not
  crashed every account and every list of tentative writes occurs once, and no list holds two
  entries of one transaction. In such a state a handled message that is not \<open>COMMIT_OK\<close> or the
  fourth \<open>COMMIT_READY\<close> leaves each account that is there after it exactly as it was, or has
  created it with nothing committed; one that is such a message sets the balance of every account
  that the transaction it names wrote to the sum up to this transaction, and of no other.\<close>

theorem branch_runs_safe:
  assumes "start_server argv config dial accepted = return_go sv0"
    and "runs bank_step any_bank_event es sv0 = Some (Inr sv)"
  shows "distinct (map fst (accounts sv)) \<and> distinct (map fst (TW sv)) \<and> distinct (map fst (RTS sv)) \<and>
    (\<forall>acc. distinct (map wv_timestamp (slot (TW sv) acc))) \<and>
    (\<forall>e stop sv'. bank_step e sv = Some (Inr (stop, sv')) \<longrightarrow>
       ((\<forall>n r. e = From_branch n r \<longrightarrow> \<not> commits r sv) \<longrightarrow>
        (\<forall>acc a. map_of (accounts sv') acc = Some a \<longrightarrow> map_of (accounts sv) acc = Some a \<or>
          map_of (accounts sv) acc = None \<and> committedValue a = 0 \<and> committedTimestamp a = 0)) \<and>
       (\<forall>n r. e = From_branch n r \<and> commits r sv \<longrightarrow>
         (\<exists>key ts. idx (message_words r) 1 = Inr key \<and> checked (ParseInt key) = Inr ts \<and>
          (\<forall>acc. balances sv' acc =
             (if has_entry ts (slot (TW sv) acc) then balance_after ts sv acc else balances sv acc)))))"
proof -
  have ok: "bank_ok sv" using bank.runs_inv [OF start_server_ok [OF assms(1)] assms(2)] .
  have "\<exists>key ts. idx (message_words r) 1 = Inr key \<and> checked (ParseInt key) = Inr ts \<and>
      (\<forall>acc. balances sv' acc = (if has_entry ts (slot (TW sv) acc) then balance_after ts sv acc else balances sv acc))"
    if "bank_step (From_branch n r) sv = Some (Inr (stop, sv'))" "commits r sv" for n r stop sv'
  proof -
    have "handleBranch (\<lambda>_. sv) r (map_of (send_conn sv) n) = Some (Inr sv')"
      using that(1) by (auto simp: bank_step_def bind_go_return return_go_def)
    from commit_event [OF this ok that(2)] show ?thesis .
  qed
  moreover have "map_of (accounts sv) acc = Some a \<or>
      map_of (accounts sv) acc = None \<and> committedValue a = 0 \<and> committedTimestamp a = 0"
    if step: "bank_step e sv = Some (Inr (stop, sv'))" and no: "\<forall>n r. e = From_branch n r \<longrightarrow> \<not> commits r sv"
      and "map_of (accounts sv') acc = Some a" for e stop sv' acc a
  proof -
    have "keeps sv sv'"
    proof (cases e)
      case (From_client rconn sconn r)
      with step show ?thesis by (auto simp: bank_step_def dest: handleConnection_keeps)
    next
      case (From_branch n r)
      with step have "handleBranch (\<lambda>_. sv) r (map_of (send_conn sv) n) = Some (Inr sv')"
        by (auto simp: bank_step_def bind_go_return return_go_def)
      from handleBranch_cases [OF this] no From_branch show ?thesis by blast
    qed
    with ok that(3) show ?thesis unfolding keeps_def by blast
  qed
  moreover have "distinct (map fst (accounts sv))" "distinct (map fst (TW sv))" "distinct (map fst (RTS sv))"
    "\<forall>acc. distinct (map wv_timestamp (slot (TW sv) acc))"
    using bank_okD [OF ok] by (simp_all add: range_keys_def stamps_def)
  ultimately show ?thesis by blast
qed

theorem branch_runs_safe_witness:
  "\<exists>sv0 sv. start_server [''A'', ''config.txt''] (Some (map config_line five_hosts)) host_dial
      (map (remote_address ''A'') (host_calls ''A'')) = return_go sv0 \<and>
    runs bank_step any_bank_event
      [From_client 11 12 (Bytes (write_text ''DEPOSIT'' ''A'' ''x'' 5 7 @ [newline]))] sv0 = Some (Inr sv) \<and>
    distinct (map wv_timestamp (slot (TW sv) ''x''))"
proof -
  have A: "''A'' \<in> set branch_names" by (simp add: branch_names_def)
  obtain scs rcs cs where st: "start_server [''A'', ''config.txt''] (Some (map config_line five_hosts)) host_dial
      (map (remote_address ''A'') (host_calls ''A'')) =
    return_go ((configured ''A'' five_hosts)\<lparr>send_conn := scs, read_conn := rcs, net := map Closed cs\<rparr>)"
    (is "_ = return_go ?sv0")
    using start_server_result [OF host_facts(1) A, of "host_calls ''A''" "''config.txt''" host_dial] host_facts(2) A by blast
  let ?op = "write_op ''DEPOSIT'' ''A'' ''x'' 5 7" and ?s = "add_conns (FormatInt 7) 11 12 ?sv0"
  let ?e = "From_client 11 12 (Bytes (write_text ''DEPOSIT'' ''A'' ''x'' 5 7 @ [newline]))"
  have "plain ''A''" "plain ''x''" "int64_range 7" "''A'' = me ((\<lambda>_. ?sv0) 0)"
    by (simp_all add: plain_def no_space_def is_space_def int64_range_def configured_def new_Server_def)
  note handled = local_write_handled [OF this(1-3) _ this(4), of "''DEPOSIT''"]
  have "write_allowed ?op ?s"
    by (simp add: write_allowed_def write_op_def add_conns_def configured_def new_Server_def get_or_def)
  then obtain sv where "write_sv ?op ?s = Inr (False, sv)"
    using write_deposit [of ?op ?s] by (simp add: write_op_def)
  then have "\<exists>sv. bank_step ?e ?sv0 = Some (Inr (False, sv))"
    by (simp add: bank_step_def handled handleOperation_write [of _ "''DEPOSIT''"] write_op_def sendtoClient_def
        return_go_def)
  then obtain sv where run: "runs bank_step any_bank_event [?e] ?sv0 = Some (Inr sv)"
    by (auto simp: any_bank_event_def)
  from branch_runs_safe [OF st run] st run show ?thesis by blast
qed

end
