(* ===== verification/Threads.thy ===== *)
theory Threads
  imports Prelude
begin

text \<open>
  Goroutines that share a state. A thread is the point its code has reached; a step of a thread
  is blocked (\<open>None\<close>), panics, or moves the thread and changes the shared state. A schedule
  starts threads and lets them step in any order. The locale \<open>threads\<close> states what an invariant
  of every thread asks of one step, the locale \<open>ledger\<close> what it takes for the state of a lock
  to equal the number of threads that hold it. The mutexes of Go's \<open>sync\<close> follow.
\<close>

section \<open>Interleaving\<close>

datatype 'p sched = Spawn 'p | Step nat

fun interleave :: "('p \<Rightarrow> 's \<Rightarrow> ('p \<times> 's) go) \<Rightarrow> 'p sched \<Rightarrow> 'p list \<times> 's \<Rightarrow> (nat \<times> 'p list \<times> 's) res option" where
  "interleave thread (Spawn p) (ps, s) = Some (Inr (length ps, ps @ [p], s))"
| "interleave thread (Step i) (ps, s) =
     (if i < length ps
      then bind_go (thread (ps ! i) s) (\<lambda>(p, s). return_go (i, ps[i := p], s))
      else None)"

fun may_spawn :: "('p \<Rightarrow> 's \<Rightarrow> bool) \<Rightarrow> 'p sched \<Rightarrow> 'p list \<times> 's \<Rightarrow> bool" where
  "may_spawn starts (Spawn p) (ps, s) = starts p s"
| "may_spawn starts (Step i) (ps, s) = True"

lemma interleave_cases:
  assumes "interleave thread e (ps, s) = Some (Inr (out, ps', s'))" "may_spawn starts e (ps, s)"
  obtains (spawn) p where "e = Spawn p" "starts p s" "ps' = ps @ [p]" "s' = s"
  | (step) i p where "e = Step i" "i < length ps" "thread (ps ! i) s = Some (Inr (p, s'))" "ps' = ps[i := p]"
proof (cases e)
  case (Spawn p)
  with assms show ?thesis by (intro spawn) auto
next
  case (Step i)
  with assms(1) have i: "i < length ps" by (auto split: if_splits)
  with Step assms(1) obtain p where "thread (ps ! i) s = Some (Inr (p, s'))" "ps' = ps[i := p]"
    by (auto simp: bind_go_return return_go_def)
  with Step i show ?thesis by (rule step)
qed

section \<open>Invariants of threads\<close>

text \<open>
  \<open>glob\<close> is about the shared state, \<open>good\<close> about one thread in it. A step keeps both for the
  thread that makes it and \<open>good\<close> for every other.
\<close>

locale threads =
  fixes thread :: "'p \<Rightarrow> 's \<Rightarrow> ('p \<times> 's) go"
    and starts :: "'p \<Rightarrow> 's \<Rightarrow> bool"
    and glob :: "'s \<Rightarrow> bool"
    and good :: "'p \<Rightarrow> 's \<Rightarrow> bool"
  assumes start_good: "glob s \<Longrightarrow> starts p s \<Longrightarrow> good p s"
    and step_glob: "glob s \<Longrightarrow> good p s \<Longrightarrow> thread p s = Some (Inr (p', s')) \<Longrightarrow> glob s'"
    and step_good: "glob s \<Longrightarrow> good p s \<Longrightarrow> thread p s = Some (Inr (p', s')) \<Longrightarrow> good p' s'"
    and frame_good: "glob s \<Longrightarrow> good p s \<Longrightarrow> good q s \<Longrightarrow> thread p s = Some (Inr (p', s')) \<Longrightarrow> good q s'"
begin

definition all_good :: "'p list \<times> 's \<Rightarrow> bool" where
  "all_good st \<longleftrightarrow> glob (snd st) \<and> list_all (\<lambda>p. good p (snd st)) (fst st)"

lemma all_good_step:
  assumes "all_good st" "may_spawn starts e st" "interleave thread e st = Some (Inr (out, st'))"
  shows "all_good st'"
proof -
  obtain ps s ps' s' where st: "st = (ps, s)" "st' = (ps', s')" by (cases st, cases st')
  from assms(3,2) [unfolded st] show ?thesis
  proof (cases rule: interleave_cases)
    case (spawn p)
    then show ?thesis using assms(1) st start_good by (simp add: all_good_def)
  next
    case (step i p)
    have good: "glob s" "good (ps ! i) s" "\<forall>q \<in> set ps. good q s"
      using assms(1) st step(2) by (simp_all add: all_good_def list_all_iff)
    have "good q s'" if "q \<in> set (ps[i := p])" for q
      using set_update_subset_insert [of ps i p] that good step(3) step_good frame_good by blast
    then show ?thesis using step step_glob [OF good(1,2)] st by (simp add: all_good_def list_all_iff)
  qed
qed

end

sublocale threads \<subseteq> machine: invariant_machine "interleave thread" "may_spawn starts" all_good
  by unfold_locales (rule all_good_step)

section \<open>Locks and their holders\<close>

text \<open>
  \<open>level\<close> is what the shared state says about a lock, \<open>weight\<close> what a thread contributes to it.
\<close>

locale ledger = threads +
  fixes weight :: "'a \<Rightarrow> nat"
    and level :: "'b \<Rightarrow> nat"
  assumes start_weight: "starts p s \<Longrightarrow> weight p = 0"
    and conserve: "glob s \<Longrightarrow> good p s \<Longrightarrow> thread p s = Some (Inr (p', s')) \<Longrightarrow>
      level s' + weight p = level s + weight p'"
begin

definition balanced :: "'a list \<times> 'b \<Rightarrow> bool" where
  "balanced st \<longleftrightarrow> all_good st \<and> (\<Sum>p\<leftarrow>fst st. weight p) = level (snd st)"

lemma sum_list_update:
  "i < length ps \<Longrightarrow> (\<Sum>p\<leftarrow>ps[i := q]. weight p) + weight (ps ! i) = (\<Sum>p\<leftarrow>ps. weight p) + weight q"
proof (induction ps arbitrary: i)
  case (Cons p ps)
  then show ?case by (cases i) auto
qed simp

lemma balanced_step:
  assumes "balanced st" "may_spawn starts e st" "interleave thread e st = Some (Inr (out, st'))"
  shows "balanced st'"
proof -
  obtain ps s ps' s' where st: "st = (ps, s)" "st' = (ps', s')" by (cases st, cases st')
  have good: "all_good st'" using all_good_step assms unfolding balanced_def by blast
  from assms(3,2) [unfolded st] have "(\<Sum>p\<leftarrow>ps'. weight p) = level s'"
  proof (cases rule: interleave_cases)
    case (spawn p)
    then show ?thesis using assms(1) st start_weight by (simp add: balanced_def)
  next
    case (step i p)
    have "glob s" "good (ps ! i) s"
      using assms(1) st step(2) by (simp_all add: balanced_def all_good_def list_all_iff)
    from conserve [OF this step(3)] show ?thesis
      using sum_list_update [OF step(2), of p] assms(1) st step(4) by (simp add: balanced_def)
  qed
  with good show ?thesis by (simp add: balanced_def st)
qed

text \<open>A lock that is free is held by nobody, one that is taken once by exactly one thread.\<close>

lemma balanced_free: "balanced (ps, s) \<Longrightarrow> level s = 0 \<Longrightarrow> p \<in> set ps \<Longrightarrow> weight p = 0"
  by (simp add: balanced_def sum_list_eq_0_iff)

lemma balanced_holder: "balanced (ps, s) \<Longrightarrow> 0 < level s \<Longrightarrow> \<exists>p \<in> set ps. 0 < weight p"
  using sum_list_eq_0_iff [of "map weight ps"] by (auto simp: balanced_def)

lemma balanced_excl:
  assumes "balanced (ps, s)" "i < length ps" "j < length ps" "i \<noteq> j"
  shows "weight (ps ! i) + weight (ps ! j) \<le> level s"
proof -
  have "i < length ps \<Longrightarrow> j < length ps \<Longrightarrow> i < j \<Longrightarrow> weight (ps ! i) + weight (ps ! j) \<le> (\<Sum>p\<leftarrow>ps. weight p)" for i j
  proof (induction ps arbitrary: i j)
    case (Cons p ps)
    have "weight (ps ! k) \<le> (\<Sum>p\<leftarrow>ps. weight p)" if "k < length ps" for k
      using that by (intro member_le_sum_list) simp_all
    with Cons show ?case by (cases i; cases j) (auto intro: trans_le_add2)
  qed simp
  from this [of i j] this [of j i] show ?thesis using assms by (auto simp: balanced_def add.commute nat_neq_iff)
qed

end

sublocale ledger \<subseteq> book: invariant_machine "interleave thread" "may_spawn starts" balanced
  by unfold_locales (rule balanced_step)

section \<open>The mutexes of \<open>sync\<close>\<close>

text \<open>
  An \<open>RWMutex\<close>. \<open>Lock\<close> first shuts out other writers and new readers, then takes the lock when
  the readers that are left have gone; releasing a lock that is not held is a fatal error.
\<close>

datatype rw_writer = No_writer | Waiting_writer | Writing

record RWMutex =
  rw_writer :: rw_writer
  rw_readers :: nat

definition unlocked :: RWMutex where
  "unlocked = \<lparr>rw_writer = No_writer, rw_readers = 0\<rparr>"

definition RLock :: "RWMutex \<Rightarrow> RWMutex go" where
  "RLock mu = (if rw_writer mu = No_writer then return_go (mu\<lparr>rw_readers := Suc (rw_readers mu)\<rparr>) else None)"

definition RUnlock :: "RWMutex \<Rightarrow> RWMutex go" where
  "RUnlock mu = (if rw_readers mu = 0 then Some (Inl (Fatal ''sync: RUnlock of unlocked RWMutex''))
                 else return_go (mu\<lparr>rw_readers := rw_readers mu - 1\<rparr>))"

definition Lock_announce :: "RWMutex \<Rightarrow> RWMutex go" where
  "Lock_announce mu = (if rw_writer mu = No_writer then return_go (mu\<lparr>rw_writer := Waiting_writer\<rparr>) else None)"

definition Lock_take :: "RWMutex \<Rightarrow> RWMutex go" where
  "Lock_take mu = (if rw_writer mu = Waiting_writer \<and> rw_readers mu = 0
                   then return_go (mu\<lparr>rw_writer := Writing\<rparr>) else None)"

definition Unlock :: "RWMutex \<Rightarrow> RWMutex go" where
  "Unlock mu = (if rw_writer mu = Writing then return_go (mu\<lparr>rw_writer := No_writer\<rparr>)
                else Some (Inl (Fatal ''sync: Unlock of unlocked RWMutex'')))"

text \<open>A \<open>Mutex\<close> is its bit.\<close>

definition lock_bit :: "bool \<Rightarrow> bool go" where
  "lock_bit held = (if held then None else return_go True)"

definition unlock_bit :: "bool \<Rightarrow> bool go" where
  "unlock_bit held = (if held then return_go False else Some (Inl (Fatal ''sync: unlock of unlocked mutex'')))"

end
