(* ===== verification/BankThreads.thy ===== *)
theory BankThreads
  imports Threads BankRead
begin

text \<open>
  \<open>mp3/server/server.go\<close> with its mutexes: \<open>write\<close>, \<open>read\<close>, \<open>CheckCommit\<close>, \<open>DoCommit\<close> and
  \<open>DoAbort\<close> as goroutines of one branch that run at the same time. A step is the code between
  two operations on a mutex. The statements with a loop or a rule in them are those of
  \<open>BankTxn\<close> and \<open>BankRead\<close>. \<open>DoAbort\<close> takes no lock; it is one step.
\<close>

section \<open>The shared state\<close>

text \<open>
  The branch, \<open>mu_TW\<close> and \<open>mu_RTS\<close>, the account mutexes by address, and the field \<open>mu\<close> of
  each account. Addresses from \<open>next_mu\<close> on are not allocated yet.
\<close>

record Shared =
  srv :: Server
  mu_TW :: bool
  mu_RTS :: bool
  rwmutex :: "nat \<Rightarrow> RWMutex"
  next_mu :: nat
  acc_mu :: "(string \<times> nat) list"

text \<open>The field \<open>mu\<close> of \<open>sv.accounts[acc]\<close>; of the zero account it is nil.\<close>

definition mu_of :: "Shared \<Rightarrow> string \<Rightarrow> nat option" where
  "mu_of s acc = (if map_of (accounts (srv s)) acc = None then None else map_of (acc_mu s) acc)"

definition rw_call :: "(RWMutex \<Rightarrow> RWMutex go) \<Rightarrow> nat option \<Rightarrow> Shared \<Rightarrow> Shared go" where
  "rw_call f ptr s = (case ptr of None \<Rightarrow> Some (Inl Nil_dereference)
     | Some m \<Rightarrow> bind_go (f (rwmutex s m)) (\<lambda>mu. return_go (s\<lparr>rwmutex := (rwmutex s)(m := mu)\<rparr>)))"

definition on_TW :: "(bool \<Rightarrow> bool go) \<Rightarrow> Shared \<Rightarrow> Shared go" where
  "on_TW f s = bind_go (f (mu_TW s)) (\<lambda>held. return_go (s\<lparr>mu_TW := held\<rparr>))"

definition on_RTS :: "(bool \<Rightarrow> bool go) \<Rightarrow> Shared \<Rightarrow> Shared go" where
  "on_RTS f s = bind_go (f (mu_RTS s)) (\<lambda>held. return_go (s\<lparr>mu_RTS := held\<rparr>))"

text \<open>An account of a fresh mutex.\<close>

definition put_account :: "string \<Rightarrow> Account \<Rightarrow> Shared \<Rightarrow> Shared" where
  "put_account acc a s = s\<lparr>srv := (srv s)\<lparr>accounts := AList.update acc a (accounts (srv s))\<rparr>,
     acc_mu := AList.update acc (next_mu s) (acc_mu s), next_mu := Suc (next_mu s)\<rparr>"

definition goto :: "'p \<Rightarrow> Shared go \<Rightarrow> ('p \<times> Shared) go" where
  "goto p m = bind_go m (\<lambda>s. return_go (p, s))"

section \<open>The operations\<close>

text \<open>
  \<open>write\<close>. The argument of the later points is the receiver of the deferred \<open>Unlock\<close>, which
  is evaluated after the lock was taken.
\<close>

datatype write_pc =
    W_enter | W_fetch | W_wait "nat option" | W_locking "nat option" | W_defer
  | W_RTS "nat option" | W_TW "nat option" | W_rule "nat option"
  | W_exit_TW bool "nat option" | W_exit_RTS bool "nat option" | W_exit bool "nat option" | W_done bool

definition write_rule :: "Operation \<Rightarrow> Server \<Rightarrow> (bool \<times> Server) res" where
  "write_rule op sv =
     (let acc = op_account op; ts = op_timestamp op
      in bind_res (read_before ts (slot (RTS sv) acc)) (\<lambda>after_reads.
           if after_reads \<and> (slot (TW sv) acc = [] \<or> ts > committedTimestamp (account_of sv acc))
           then Inr (False, sv\<lparr>TW := AList.update acc
                      (tentative_write ts (op_amount op) (slot (TW sv) acc)) (TW sv)\<rparr>)
           else Inr (True, sv)))"

fun write_step :: "Operation \<Rightarrow> write_pc \<Rightarrow> Shared \<Rightarrow> (write_pc \<times> Shared) go" where
  "write_step op W_enter s =
     (if \<not> check_inList (op_account op) (accounts (srv s)) then
        (if op_method op = ''WITHDRAW'' then return_go (W_done True, s)
         else if op_method op = ''DEPOSIT'' then return_go (W_fetch, put_account (op_account op) (new_account op) s)
         else return_go (W_fetch, s))
      else return_go (W_fetch, s))"
| "write_step op W_fetch s = return_go (W_wait (mu_of s (op_account op)), s)"
| "write_step op (W_wait m) s = goto (W_locking m) (rw_call Lock_announce m s)"
| "write_step op (W_locking m) s = goto W_defer (rw_call Lock_take m s)"
| "write_step op W_defer s = return_go (W_RTS (mu_of s (op_account op)), s)"
| "write_step op (W_RTS d) s = goto (W_TW d) (on_RTS lock_bit s)"
| "write_step op (W_TW d) s = goto (W_rule d) (on_TW lock_bit s)"
| "write_step op (W_rule d) s =
     bind_go (Some (write_rule op (srv s))) (\<lambda>(abort, sv). return_go (W_exit_TW abort d, s\<lparr>srv := sv\<rparr>))"
| "write_step op (W_exit_TW abort d) s = goto (W_exit_RTS abort d) (on_TW unlock_bit s)"
| "write_step op (W_exit_RTS abort d) s = goto (W_exit abort d) (on_RTS unlock_bit s)"
| "write_step op (W_exit abort d) s = goto (W_done abort) (rw_call Unlock d s)"
| "write_step op (W_done abort) s = None"

text \<open>\<open>read\<close>; \<open>R_loop\<close> and \<open>R_look\<close> are the loop that waits for a writer.\<close>

datatype read_pc =
    R_enter | R_fetch | R_wait "nat option" | R_check | R_TW int64 int | R_scan int64 int
  | R_RTS int64 | R_append int64 | R_exit_committed int64 | R_exit int64 int | R_exit_late
  | R_loop int bool | R_look int bool | R_done int64 bool

fun read_step :: "Operation \<Rightarrow> read_pc \<Rightarrow> Shared \<Rightarrow> (read_pc \<times> Shared) go" where
  "read_step op R_enter s =
     return_go (if \<not> check_inList (op_account op) (accounts (srv s)) then R_done 0 True else R_fetch, s)"
| "read_step op R_fetch s = return_go (R_wait (mu_of s (op_account op)), s)"
| "read_step op (R_wait m) s = goto R_check (rw_call RLock m s)"
| "read_step op R_check s =
     (let a = account_of (srv s) (op_account op)
      in return_go (if op_timestamp op > committedTimestamp a then R_TW (committedValue a) (committedTimestamp a)
                    else R_exit_late, s))"
| "read_step op (R_TW Ds TS) s = goto (R_scan Ds TS) (on_TW lock_bit s)"
| "read_step op (R_scan Ds TS) s =
     (case read_scan (op_timestamp op) (slot (TW (srv s)) (op_account op)) Ds TS of (Ds, TS, committed) \<Rightarrow>
        goto (if committed then R_RTS Ds else R_exit Ds TS) (on_TW unlock_bit s))"
| "read_step op (R_RTS Ds) s = goto (R_append Ds) (on_RTS lock_bit s)"
| "read_step op (R_append Ds) s =
     (let acc = op_account op; sv = srv s
      in goto (R_exit_committed Ds) (on_RTS unlock_bit
           (s\<lparr>srv := sv\<lparr>RTS := AList.update acc (slot (RTS sv) acc @ [op_timestamp op]) (RTS sv)\<rparr>\<rparr>)))"
| "read_step op (R_exit_committed Ds) s = goto (R_done Ds False) (rw_call RUnlock (mu_of s (op_account op)) s)"
| "read_step op (R_exit Ds TS) s =
     goto (if op_timestamp op = TS then R_done Ds False else R_loop TS True)
       (rw_call RUnlock (mu_of s (op_account op)) s)"
| "read_step op R_exit_late s = goto (R_done 0 True) (rw_call RUnlock (mu_of s (op_account op)) s)"
| "read_step op (R_loop TS flag) s = goto (R_look TS flag) (on_TW lock_bit s)"
| "read_step op (R_look TS flag) s =
     (let flag = (flag \<and> \<not> has_entry TS (slot (TW (srv s)) (op_account op)))
      in goto (if flag then R_enter else R_loop TS flag) (on_TW unlock_bit s))"
| "read_step op (R_done v abort) s = None"

text \<open>\<open>CheckCommit\<close>, which aborts after it has released \<open>mu_TW\<close>.\<close>

datatype check_pc = C_lock | C_check | C_abort | C_done bool

fun check_step :: "int \<Rightarrow> check_pc \<Rightarrow> Shared \<Rightarrow> (check_pc \<times> Shared) go" where
  "check_step ts C_lock s = goto C_check (on_TW lock_bit s)"
| "check_step ts C_check s =
     goto (if TxRelated ts (srv s) \<and> overdrawn ts (srv s) then C_abort else C_done True) (on_TW unlock_bit s)"
| "check_step ts C_abort s = bind_go (Some (DoAbort ts (srv s))) (\<lambda>sv. return_go (C_done False, s\<lparr>srv := sv\<rparr>))"
| "check_step ts (C_done can) s = None"

text \<open>
  \<open>DoCommit\<close>: the accounts still to come in the range loop, and the receivers of the deferred
  \<open>Unlock\<close>s, last one first. A scan that does not end stays where it is. The new version of an
  account has a new mutex.
\<close>

datatype commit_pc =
    D_lock | D_range "string list" "nat option list"
  | D_fetch string int64 "string list" "nat option list"
  | D_wait string int64 "string list" "nat option list" "nat option"
  | D_locking string int64 "string list" "nat option list" "nat option"
  | D_install string int64 "string list" "nat option list"
  | D_exit "nat option list" | D_done

fun commit_step :: "int \<Rightarrow> commit_pc \<Rightarrow> Shared \<Rightarrow> (commit_pc \<times> Shared) go" where
  "commit_step ts D_lock s = goto (D_range (range_keys (TW (srv s))) []) (on_TW lock_bit s)"
| "commit_step ts (D_range [] ds) s =
     return_go (D_exit ds, s\<lparr>srv := (srv s)\<lparr>net := net (srv s) @ [Printed (account_info (accounts (srv s)))]\<rparr>\<rparr>)"
| "commit_step ts (D_range (acc # accs) ds) s =
     (case commit_loop ts (committedValue (account_of (srv s) acc)) False 0 (slot (TW (srv s)) acc) of
        None \<Rightarrow> return_go (D_range (acc # accs) ds, s)
      | Some (Ds, flag, xs) \<Rightarrow>
          return_go (if flag then D_fetch acc Ds accs ds else D_range accs ds,
                     s\<lparr>srv := (srv s)\<lparr>TW := AList.update acc xs (TW (srv s))\<rparr>\<rparr>))"
| "commit_step ts (D_fetch acc Ds accs ds) s = return_go (D_wait acc Ds accs ds (mu_of s acc), s)"
| "commit_step ts (D_wait acc Ds accs ds m) s = goto (D_locking acc Ds accs ds m) (rw_call Lock_announce m s)"
| "commit_step ts (D_locking acc Ds accs ds m) s = goto (D_install acc Ds accs ds) (rw_call Lock_take m s)"
| "commit_step ts (D_install acc Ds accs ds) s =
     return_go (D_range accs (mu_of s acc # ds),
       put_account acc ((account_of (srv s) acc)\<lparr>committedValue := Ds, committedTimestamp := ts\<rparr>) s)"
| "commit_step ts (D_exit (d # ds)) s = goto (D_exit ds) (rw_call Unlock d s)"
| "commit_step ts (D_exit []) s = goto D_done (on_TW unlock_bit s)"
| "commit_step ts D_done s = None"

section \<open>Goroutines\<close>

datatype goroutine =
    Write Operation write_pc | Read Operation read_pc | Check int check_pc | Commit int commit_pc
  | Abort int | Aborted

fun bank_thread :: "goroutine \<Rightarrow> Shared \<Rightarrow> (goroutine \<times> Shared) go" where
  "bank_thread (Write op pc) s = bind_go (write_step op pc s) (\<lambda>(pc, s). return_go (Write op pc, s))"
| "bank_thread (Read op pc) s = bind_go (read_step op pc s) (\<lambda>(pc, s). return_go (Read op pc, s))"
| "bank_thread (Check ts pc) s = bind_go (check_step ts pc s) (\<lambda>(pc, s). return_go (Check ts pc, s))"
| "bank_thread (Commit ts pc) s = bind_go (commit_step ts pc s) (\<lambda>(pc, s). return_go (Commit ts pc, s))"
| "bank_thread (Abort ts) s = bind_go (Some (DoAbort ts (srv s))) (\<lambda>sv. return_go (Aborted, s\<lparr>srv := sv\<rparr>))"
| "bank_thread Aborted s = None"

definition any_call :: "goroutine \<Rightarrow> Shared \<Rightarrow> bool" where
  "any_call p s \<longleftrightarrow> (case p of Write op pc \<Rightarrow> pc = W_enter | Read op pc \<Rightarrow> pc = R_enter
     | Check ts pc \<Rightarrow> pc = C_lock | Commit ts pc \<Rightarrow> pc = D_lock | Abort ts \<Rightarrow> True | Aborted \<Rightarrow> False)"

abbreviation bank_sched :: "goroutine sched \<Rightarrow> goroutine list \<times> Shared \<Rightarrow> (nat \<times> goroutine list \<times> Shared) go" where
  "bank_sched \<equiv> interleave bank_thread"

text \<open>No lock is taken and every account has a mutex.\<close>

definition all_idle :: "Shared \<Rightarrow> bool" where
  "all_idle s \<longleftrightarrow> \<not> mu_TW s \<and> \<not> mu_RTS s \<and> rwmutex s = (\<lambda>_. unlocked) \<and>
     (\<forall>acc. map_of (accounts (srv s)) acc \<noteq> None \<longrightarrow> map_of (acc_mu s) acc \<noteq> None) \<and>
     (\<forall>acc m. map_of (acc_mu s) acc = Some m \<longrightarrow> m < next_mu s)"

named_theorems thread_defs \<open>the steps of the goroutines as equations\<close>

lemmas [thread_defs] = goto_def return_go_def bind_go_return on_TW_def on_RTS_def rw_call_def lock_bit_def
  unlock_bit_def RLock_def RUnlock_def Lock_announce_def Lock_take_def Unlock_def put_account_def Let_def

lemma bank_thread_cases:
  assumes "bank_thread p s = Some (Inr (p', s'))"
  obtains (Write) op pc pc' where "p = Write op pc" "p' = Write op pc'" "write_step op pc s = Some (Inr (pc', s'))"
  | (Read) op pc pc' where "p = Read op pc" "p' = Read op pc'" "read_step op pc s = Some (Inr (pc', s'))"
  | (Check) ts pc pc' where "p = Check ts pc" "p' = Check ts pc'" "check_step ts pc s = Some (Inr (pc', s'))"
  | (Commit) ts pc pc' where "p = Commit ts pc" "p' = Commit ts pc'" "commit_step ts pc s = Some (Inr (pc', s'))"
  | (Abort) ts sv where "p = Abort ts" "p' = Aborted" "DoAbort ts (srv s) = Inr sv" "s' = s\<lparr>srv := sv\<rparr>"
  using assms by (cases p) (auto simp: bind_go_return return_go_def)

end
