(* ===== verification/BankDeadlock.thy ===== *)
theory BankDeadlock
  imports BankThreads
begin

text \<open>
  What any calls on one branch at the same time can do: at most one of them is in the code that
  \<open>mu_TW\<close> protects, and one in the code of \<open>mu_RTS\<close>; a read and a commit can wait for each other
  for ever; and a write that waited for a commit unlocks the wrong mutex.
\<close>

section \<open>Mutual exclusion\<close>

text \<open>The points at which a goroutine holds \<open>mu_TW\<close>, and \<open>mu_RTS\<close>.\<close>

fun in_TW :: "goroutine \<Rightarrow> bool" where
  "in_TW (Write op pc) = (case pc of W_rule d \<Rightarrow> True | W_exit_TW a d \<Rightarrow> True | _ \<Rightarrow> False)"
| "in_TW (Read op pc) = (case pc of R_scan Ds TS \<Rightarrow> True | R_look TS flag \<Rightarrow> True | _ \<Rightarrow> False)"
| "in_TW (Check ts pc) = (pc = C_check)"
| "in_TW (Commit ts pc) = (pc \<noteq> D_lock \<and> pc \<noteq> D_done)"
| "in_TW _ = False"

fun in_RTS :: "goroutine \<Rightarrow> bool" where
  "in_RTS (Write op pc) = (case pc of W_TW d \<Rightarrow> True | W_rule d \<Rightarrow> True | W_exit_TW a d \<Rightarrow> True
     | W_exit_RTS a d \<Rightarrow> True | _ \<Rightarrow> False)"
| "in_RTS (Read op pc) = (case pc of R_append Ds \<Rightarrow> True | _ \<Rightarrow> False)"
| "in_RTS _ = False"

lemma write_bits:
  "write_step op pc s = Some (Inr (pc', s')) \<Longrightarrow>
     of_bool (mu_TW s') + of_bool (in_TW (Write op pc)) = (of_bool (mu_TW s) + of_bool (in_TW (Write op pc')) :: nat) \<and>
     of_bool (mu_RTS s') + of_bool (in_RTS (Write op pc)) = (of_bool (mu_RTS s) + of_bool (in_RTS (Write op pc')) :: nat)"
  by (cases pc) (auto simp: thread_defs split: if_splits option.splits prod.splits)

lemma read_bits:
  "read_step op pc s = Some (Inr (pc', s')) \<Longrightarrow>
     of_bool (mu_TW s') + of_bool (in_TW (Read op pc)) = (of_bool (mu_TW s) + of_bool (in_TW (Read op pc')) :: nat) \<and>
     of_bool (mu_RTS s') + of_bool (in_RTS (Read op pc)) = (of_bool (mu_RTS s) + of_bool (in_RTS (Read op pc')) :: nat)"
  by (cases pc) (auto simp: thread_defs split: if_splits option.splits prod.splits)

lemma check_bits:
  "check_step ts pc s = Some (Inr (pc', s')) \<Longrightarrow>
     of_bool (mu_TW s') + of_bool (in_TW (Check ts pc)) = (of_bool (mu_TW s) + of_bool (in_TW (Check ts pc')) :: nat) \<and>
     mu_RTS s' = mu_RTS s"
  by (cases pc) (auto simp: thread_defs split: if_splits)

lemma commit_bits:
  "commit_step ts pc s = Some (Inr (pc', s')) \<Longrightarrow>
     of_bool (mu_TW s') + of_bool (in_TW (Commit ts pc)) = (of_bool (mu_TW s) + of_bool (in_TW (Commit ts pc')) :: nat) \<and>
     mu_RTS s' = mu_RTS s"
  by (induction ts pc s rule: commit_step.induct)
    (auto simp: thread_defs split: if_splits option.splits prod.splits)

interpretation TW_ledger: ledger bank_thread any_call "\<lambda>_. True" "\<lambda>_ _. True"
  "\<lambda>p. of_bool (in_TW p)" "\<lambda>s. of_bool (mu_TW s)"
proof unfold_locales
  show "of_bool (in_TW p) = (0 :: nat)" if "any_call p s" for p s
    using that by (cases p) (auto simp: any_call_def)
  show "of_bool (mu_TW s') + of_bool (in_TW p) = (of_bool (mu_TW s) + of_bool (in_TW p') :: nat)"
    if "bank_thread p s = Some (Inr (p', s'))" for p s p' s'
    using that
    by (cases rule: bank_thread_cases) (simp_all del: in_TW.simps(1-4) add: write_bits read_bits check_bits commit_bits)
qed simp_all

interpretation RTS_ledger: ledger bank_thread any_call "\<lambda>_. True" "\<lambda>_ _. True"
  "\<lambda>p. of_bool (in_RTS p)" "\<lambda>s. of_bool (mu_RTS s)"
proof unfold_locales
  show "of_bool (in_RTS p) = (0 :: nat)" if "any_call p s" for p s
    using that by (cases p) (auto simp: any_call_def)
  show "of_bool (mu_RTS s') + of_bool (in_RTS p) = (of_bool (mu_RTS s) + of_bool (in_RTS p') :: nat)"
    if "bank_thread p s = Some (Inr (p', s'))" for p s p' s'
    using that
    by (cases rule: bank_thread_cases) (simp_all del: in_RTS.simps(1,2) add: write_bits read_bits check_bits commit_bits)
qed

text \<open>C23: \<open>mu_TW\<close> and \<open>mu_RTS\<close> do what they are for. However writes, reads, checks, commits and
  aborts of a branch that was idle are interleaved, at most one goroutine is at a point between
  locking and unlocking \<open>mu_TW\<close>, the mutex is locked exactly if there is one, and the same holds
  of \<open>mu_RTS\<close>.\<close>

theorem sections_exclusive:
  assumes "all_idle s0" "runs bank_sched (may_spawn any_call) es ([], s0) = Some (Inr (ps, s))"
  shows "(mu_TW s \<longleftrightarrow> (\<exists>p \<in> set ps. in_TW p)) \<and> (mu_RTS s \<longleftrightarrow> (\<exists>p \<in> set ps. in_RTS p)) \<and>
    (\<forall>i < length ps. \<forall>j < length ps. in_TW (ps ! i) \<and> in_TW (ps ! j) \<or> in_RTS (ps ! i) \<and> in_RTS (ps ! j) \<longrightarrow> i = j)"
proof -
  have "TW_ledger.balanced ([], s0)" "RTS_ledger.balanced ([], s0)"
    using assms(1) by (simp_all add: TW_ledger.balanced_def RTS_ledger.balanced_def TW_ledger.all_good_def all_idle_def)
  note tw = TW_ledger.book.runs_inv [OF this(1) assms(2)] and rts = RTS_ledger.book.runs_inv [OF this(2) assms(2)]
  have "mu_TW s \<longleftrightarrow> (\<exists>p \<in> set ps. in_TW p)"
    using TW_ledger.balanced_free [OF tw] TW_ledger.balanced_holder [OF tw] by (cases "mu_TW s") auto
  moreover have "mu_RTS s \<longleftrightarrow> (\<exists>p \<in> set ps. in_RTS p)"
    using RTS_ledger.balanced_free [OF rts] RTS_ledger.balanced_holder [OF rts] by (cases "mu_RTS s") auto
  moreover have "i = j" if "i < length ps" "j < length ps"
    "in_TW (ps ! i) \<and> in_TW (ps ! j) \<or> in_RTS (ps ! i) \<and> in_RTS (ps ! j)" for i j
    using TW_ledger.balanced_excl [OF tw that(1,2)] RTS_ledger.balanced_excl [OF rts that(1,2)] that(3)
    by (cases "i = j") (auto simp: of_bool_def split: if_splits)
  ultimately show ?thesis by blast
qed

section \<open>A read and a commit wait for each other\<close>

text \<open>
  A goroutine that does not hold \<open>mu_TW\<close> and will not touch the mutex at \<open>m\<close>, unless it stops
  there.
\<close>

definition away :: "nat \<Rightarrow> goroutine \<Rightarrow> Shared \<Rightarrow> bool" where
  "away m p s \<longleftrightarrow> (case p of
     Write op pc \<Rightarrow> (let off = mu_of s (op_account op) \<noteq> Some m in case pc of
       W_enter \<Rightarrow> True | W_fetch \<Rightarrow> True | W_wait d \<Rightarrow> d = Some m \<or> off | W_locking d \<Rightarrow> d \<noteq> Some m \<and> off
     | W_defer \<Rightarrow> off | W_RTS d \<Rightarrow> d \<noteq> Some m | W_TW d \<Rightarrow> d \<noteq> Some m | W_done a \<Rightarrow> True | _ \<Rightarrow> False)
   | Read op pc \<Rightarrow> (let off = mu_of s (op_account op) \<noteq> Some m in case pc of
       R_enter \<Rightarrow> True | R_fetch \<Rightarrow> True | R_wait d \<Rightarrow> d = Some m \<or> off | R_check \<Rightarrow> off
     | R_TW Ds TS \<Rightarrow> off | R_exit_late \<Rightarrow> off | R_done v a \<Rightarrow> True | _ \<Rightarrow> False)
   | Check ts pc \<Rightarrow> pc = C_lock
   | Commit ts pc \<Rightarrow> pc = D_lock
   | _ \<Rightarrow> True)"

definition taken :: "nat \<Rightarrow> Shared \<Rightarrow> bool" where
  "taken m s \<longleftrightarrow> mu_TW s \<and> rw_writer (rwmutex s m) = Waiting_writer \<and> 0 < rw_readers (rwmutex s m) \<and> m < next_mu s"

definition circle :: "nat \<Rightarrow> goroutine \<Rightarrow> bool" where
  "circle m p \<longleftrightarrow> (case p of Read op (R_TW Ds TS) \<Rightarrow> True
     | Commit ts (D_locking acc v accs ds d) \<Rightarrow> d = Some m | _ \<Rightarrow> False)"

lemma circle_blocked: "taken m s \<Longrightarrow> circle m p \<Longrightarrow> bank_thread p s = None"
  by (auto simp: circle_def taken_def thread_defs split: goroutine.splits read_pc.splits commit_pc.splits)

lemma DoAbort_accounts:
  "DoAbort ts sv = Inr sv' \<Longrightarrow> map_of (accounts sv') acc \<noteq> None \<Longrightarrow> map_of (accounts sv) acc \<noteq> None"
  by (auto simp: DoAbort_def bind_res_Inr map_of_eq_None_iff)

lemma away_step:
  assumes "taken m s" "away m p s" "bank_thread p s = Some (Inr (p', s'))"
  shows "taken m s' \<and> away m p' s' \<and> (\<forall>acc. mu_of s acc \<noteq> Some m \<longrightarrow> mu_of s' acc \<noteq> Some m)"
  using assms(3)
proof (cases rule: bank_thread_cases)
  case (Write op pc pc')
  then show ?thesis using assms(1,2)
    by (cases pc) (auto simp: away_def taken_def mu_of_def thread_defs AList.update_conv' split: if_splits option.splits)
next
  case (Read op pc pc')
  then show ?thesis using assms(1,2)
    by (cases pc) (auto simp: away_def taken_def mu_of_def thread_defs split: if_splits option.splits)
next
  case (Check ts pc pc')
  then show ?thesis using assms(1,2) by (cases pc) (auto simp: away_def taken_def thread_defs)
next
  case (Commit ts pc pc')
  then show ?thesis using assms(1,2) by (cases pc) (auto simp: away_def taken_def thread_defs)
next
  case (Abort ts sv)
  have "map_of (accounts (srv s)) acc = None \<Longrightarrow> map_of (accounts sv) acc = None" for acc
    using DoAbort_accounts [OF Abort(3), of acc] by blast
  with Abort assms(1) show ?thesis by (auto simp: away_def taken_def mu_of_def)
qed

lemma away_frame:
  "away m q s \<Longrightarrow> \<forall>acc. mu_of s acc \<noteq> Some m \<longrightarrow> mu_of s' acc \<noteq> Some m \<Longrightarrow> away m q s'"
  by (auto simp: away_def Let_def split: goroutine.splits write_pc.splits read_pc.splits)

interpretation stuck: threads bank_thread any_call "taken m" "\<lambda>p s. circle m p \<or> away m p s" for m
proof unfold_locales
  show "circle m p \<or> away m p s" if "taken m s" "any_call p s" for p s
    using that by (cases p) (auto simp: any_call_def away_def)
  fix p q s p' s'
  assume s: "taken m s" "circle m p \<or> away m p s" "bank_thread p s = Some (Inr (p', s'))"
  have "\<not> circle m p" using circle_blocked [OF s(1)] s(3) by auto
  with s have step: "taken m s'" "away m p' s'" "\<forall>acc. mu_of s acc \<noteq> Some m \<longrightarrow> mu_of s' acc \<noteq> Some m"
    using away_step [of m s p p' s'] by simp_all
  then show "taken m s'" "circle m p' \<or> away m p' s'" by simp_all
  show "circle m q \<or> away m q s'" if "circle m q \<or> away m q s"
    using that away_frame [OF _ step(3)] by blast
qed

text \<open>Those in the circle stay where they are, whatever the others do.\<close>

lemma circle_stays:
  assumes "taken m s" "\<forall>p \<in> set ps. circle m p \<or> away m p s"
    "runs bank_sched (may_spawn any_call) es (ps, s) = Some (Inr (ps', s'))"
  shows "mu_TW s' \<and> length ps \<le> length ps' \<and> (\<forall>i < length ps. circle m (ps ! i) \<longrightarrow> ps' ! i = ps ! i)"
  using assms
proof (induction es arbitrary: ps s)
  case Nil
  then show ?case by (simp add: taken_def)
next
  case (Cons e es)
  then obtain out ps1 s1 where e: "may_spawn any_call e (ps, s)"
      "bank_sched e (ps, s) = Some (Inr (out, ps1, s1))"
    and es: "runs bank_sched (may_spawn any_call) es (ps1, s1) = Some (Inr (ps', s'))"
    by (auto split: if_splits option.splits sum.splits)
  have "stuck.all_good m (ps, s)" using Cons.prems by (simp add: stuck.all_good_def list_all_iff)
  then have "stuck.all_good m (ps1, s1)" by (rule stuck.all_good_step [OF _ e])
  then have IH: "mu_TW s' \<and> length ps1 \<le> length ps' \<and> (\<forall>i < length ps1. circle m (ps1 ! i) \<longrightarrow> ps' ! i = ps1 ! i)"
    using Cons.IH [OF _ _ es] by (simp add: stuck.all_good_def list_all_iff)
  from e(2,1) show ?case
  proof (cases rule: interleave_cases)
    case (spawn p)
    then show ?thesis using IH by (auto simp: nth_append)
  next
    case (step i p)
    then have "\<not> circle m (ps ! i)" using circle_blocked [OF Cons.prems(1)] by auto
    then have "ps1 ! k = ps ! k" if "circle m (ps ! k)" for k using that step(4) by (cases "k = i") auto
    then show ?thesis using IH step(4) by auto
  qed
qed

declare commit_loop.simps [code]

text \<open>Account \<open>x\<close> has the balance 10 and a tentative deposit of 3 at time 5.\<close>

definition contended :: Shared where
  "contended = \<lparr>srv = (new_Server ''A'')\<lparr>accounts := [(''x'', \<lparr>acc_name = ''x'', committedValue = 10,
       committedTimestamp = 1, amount = 10, createdTimestamp = 1\<rparr>)],
       TW := [(''x'', [\<lparr>wv_timestamp = 5, wv_value = 3\<rparr>])]\<rparr>,
     mu_TW = False, mu_RTS = False, rwmutex = (\<lambda>_. unlocked), next_mu = 1, acc_mu = [(''x'', 0)]\<rparr>"

definition on_x :: "string \<Rightarrow> int64 \<Rightarrow> int \<Rightarrow> Operation" where
  "on_x method am ts = \<lparr>op_method = method, op_branch = ''A'', op_account = ''x'', op_amount = am, op_timestamp = ts\<rparr>"

definition read_against_commit :: "goroutine sched list" where
  "read_against_commit = [Spawn (Read (on_x ''BALANCE'' 0 7) R_enter), Spawn (Commit 5 D_lock),
     Step 0, Step 0, Step 0, Step 0, Step 1, Step 1, Step 1, Step 1]"

lemma deadlock_reached:
  "case runs bank_sched (may_spawn any_call) read_against_commit ([], contended) of Some (Inr (ps, s)) \<Rightarrow>
     ps = [Read (on_x ''BALANCE'' 0 7) (R_TW 10 1), Commit 5 (D_locking ''x'' 13 [] [] (Some 0))] \<and> taken 0 s
   | _ \<Rightarrow> False"
  by code_simp

theorem sections_exclusive_witness:
  "\<exists>ps s. runs bank_sched (may_spawn any_call) read_against_commit ([], contended) = Some (Inr (ps, s)) \<and>
     (mu_TW s \<longleftrightarrow> (\<exists>p \<in> set ps. in_TW p))"
proof -
  have "all_idle contended" by (simp add: all_idle_def contended_def)
  moreover obtain ps s where "runs bank_sched (may_spawn any_call) read_against_commit ([], contended) = Some (Inr (ps, s))"
    using deadlock_reached by (auto split: option.splits sum.splits)
  ultimately show ?thesis using sections_exclusive [of contended read_against_commit ps s] by blast
qed

text \<open>C38: a read and a commit can wait for each other for ever. \<open>read\<close> locks the account and then
  \<open>mu_TW\<close>, \<open>DoCommit\<close> locks \<open>mu_TW\<close> and then the account: in this schedule each has its first
  lock. Whatever calls follow in whatever order, both stay where they are, and \<open>mu_TW\<close> stays
  locked, so no other call gets past it either.\<close>

theorem read_commit_deadlock:
  assumes "runs bank_sched (may_spawn any_call) read_against_commit ([], contended) = Some (Inr (ps, s))"
    and "runs bank_sched (may_spawn any_call) es (ps, s) = Some (Inr (ps', s'))"
  shows "ps = [Read (on_x ''BALANCE'' 0 7) (R_TW 10 1), Commit 5 (D_locking ''x'' 13 [] [] (Some 0))] \<and>
    take 2 ps' = ps \<and> mu_TW s'"
proof -
  have ps: "ps = [Read (on_x ''BALANCE'' 0 7) (R_TW 10 1), Commit 5 (D_locking ''x'' 13 [] [] (Some 0))]"
    and s: "taken 0 s" using deadlock_reached assms(1) by simp_all
  from ps have "\<forall>p \<in> set ps. circle 0 p" by (simp add: circle_def)
  with circle_stays [OF s _ assms(2)] have "length ps \<le> length ps'" "\<forall>i < length ps. ps' ! i = ps ! i" "mu_TW s'"
    by simp_all
  then show ?thesis using ps by (auto intro: nth_equalityI)
qed

theorem read_commit_deadlock_witness:
  "\<exists>ps s ps' s'. runs bank_sched (may_spawn any_call) read_against_commit ([], contended) = Some (Inr (ps, s)) \<and>
     runs bank_sched (may_spawn any_call) [Spawn (Check 5 C_lock)] (ps, s) = Some (Inr (ps', s')) \<and> take 2 ps' = ps"
proof -
  obtain ps s where ps: "runs bank_sched (may_spawn any_call) read_against_commit ([], contended) = Some (Inr (ps, s))"
    using deadlock_reached by (auto split: option.splits sum.splits)
  have "runs bank_sched (may_spawn any_call) [Spawn (Check 5 C_lock)] (ps, s) = Some (Inr (ps @ [Check 5 C_lock], s))"
    by (simp add: any_call_def)
  with ps read_commit_deadlock [OF ps this] show ?thesis by blast
qed

definition write_against_commit :: "goroutine sched list" where
  "write_against_commit = [Spawn (Write (on_x ''DEPOSIT'' 4 8) W_enter), Spawn (Commit 5 D_lock), Step 0, Step 0] @
     replicate 9 (Step 1) @ replicate 9 (Step 0)"

text \<open>A thread that runs alone.\<close>

lemma alone_step:
  "i < length ps \<Longrightarrow> bank_thread (ps ! i) s = Some (Inr (p, s')) \<Longrightarrow>
   runs bank_sched (may_spawn any_call) (Step i # es) (ps, s) = runs bank_sched (may_spawn any_call) es (ps[i := p], s')"
  by (simp add: return_go_def)

lemma alone_panic:
  "i < length ps \<Longrightarrow> bank_thread (ps ! i) s = Some (Inl err) \<Longrightarrow>
   runs bank_sched (may_spawn any_call) (Step i # es) (ps, s) = Some (Inl err)"
  by simp

lemma write_rule_returns: "\<exists>abort sv'. write_rule op sv = Inr (abort, sv')"
  by (auto simp: write_rule_def Let_def read_before_iff)

text \<open>C39: a write that waits while a commit replaces the account crashes the branch. \<open>DoCommit\<close>
  stores the account with a new mutex. In any state in which a write waits for a mutex that is
  free again and is no longer that of its account, whose mutex is not locked for writing, and
  \<open>mu_TW\<close> and \<open>mu_RTS\<close> are free, the rest of this write, whatever other calls are going on, locks
  the old mutex, applies the write rule and then unlocks the new one, which is a fatal error: the
  receiver of its deferred \<open>Unlock\<close> is evaluated only after it has waited.\<close>

theorem write_commit_crash:
  assumes "i < length ps" "ps ! i = Write op (W_wait (Some m))" "rwmutex s m = unlocked"
    and "mu_of s (op_account op) = Some m'" "m' \<noteq> m" "rw_writer (rwmutex s m') \<noteq> Writing" "\<not> mu_TW s" "\<not> mu_RTS s"
  shows "runs bank_sched (may_spawn any_call) (replicate 9 (Step i)) (ps, s) =
     Some (Inl (Fatal ''sync: Unlock of unlocked RWMutex''))"
proof -
  obtain abort sv where w: "write_rule op (srv s) = Inr (abort, sv)" using write_rule_returns by blast
  have mu: "map_of (accounts (srv s)) (op_account op) \<noteq> None" "map_of (acc_mu s) (op_account op) = Some m'"
    using assms(4) by (auto simp: mu_of_def split: if_splits)
  let ?s1 = "s\<lparr>rwmutex := (rwmutex s)(m := unlocked\<lparr>rw_writer := Waiting_writer\<rparr>)\<rparr>"
  let ?s2 = "s\<lparr>rwmutex := (rwmutex s)(m := unlocked\<lparr>rw_writer := Writing\<rparr>)\<rparr>"
  have nine: "replicate 9 (Step i) = [Step i, Step i, Step i, Step i, Step i, Step i, Step i, Step i, Step i]"
    by (simp add: numeral_eq_Suc)
  have "bank_thread (Write op (W_wait (Some m))) s = Some (Inr (Write op (W_locking (Some m)), ?s1))"
    "bank_thread (Write op (W_locking (Some m))) ?s1 = Some (Inr (Write op W_defer, ?s2))"
    "bank_thread (Write op W_defer) ?s2 = Some (Inr (Write op (W_RTS (Some m')), ?s2))"
    "bank_thread (Write op (W_RTS (Some m'))) ?s2 = Some (Inr (Write op (W_TW (Some m')), ?s2\<lparr>mu_RTS := True\<rparr>))"
    "bank_thread (Write op (W_TW (Some m'))) (?s2\<lparr>mu_RTS := True\<rparr>) =
       Some (Inr (Write op (W_rule (Some m')), ?s2\<lparr>mu_RTS := True, mu_TW := True\<rparr>))"
    "bank_thread (Write op (W_rule (Some m'))) (?s2\<lparr>mu_RTS := True, mu_TW := True\<rparr>) =
       Some (Inr (Write op (W_exit_TW abort (Some m')), ?s2\<lparr>mu_RTS := True, mu_TW := True, srv := sv\<rparr>))"
    "bank_thread (Write op (W_exit_TW abort (Some m'))) (?s2\<lparr>mu_RTS := True, mu_TW := True, srv := sv\<rparr>) =
       Some (Inr (Write op (W_exit_RTS abort (Some m')), ?s2\<lparr>mu_RTS := True, mu_TW := False, srv := sv\<rparr>))"
    "bank_thread (Write op (W_exit_RTS abort (Some m'))) (?s2\<lparr>mu_RTS := True, mu_TW := False, srv := sv\<rparr>) =
       Some (Inr (Write op (W_exit abort (Some m')), ?s2\<lparr>mu_RTS := False, mu_TW := False, srv := sv\<rparr>))"
    "bank_thread (Write op (W_exit abort (Some m'))) (?s2\<lparr>mu_RTS := False, mu_TW := False, srv := sv\<rparr>) =
       Some (Inl (Fatal ''sync: Unlock of unlocked RWMutex''))"
    using assms(3,5-8) w mu by (simp_all add: thread_defs unlocked_def mu_of_def)
  note steps = this
  show ?thesis
    using assms(1,2) unfolding nine
    by (simp only: alone_step alone_panic steps nth_list_update_eq length_list_update
      list_update_overwrite)
qed

definition commit_overtakes :: "goroutine sched list" where
  "commit_overtakes = [Spawn (Write (on_x ''DEPOSIT'' 4 8) W_enter), Spawn (Commit 5 D_lock), Step 0, Step 0] @
     replicate 9 (Step 1)"

text \<open>On account \<open>x\<close>: the deposit has looked up the mutex when the commit of 5 runs to its end.\<close>

theorem write_commit_crash_witness:
  "runs bank_sched (may_spawn any_call) (commit_overtakes @ replicate 9 (Step 0)) ([], contended) =
     Some (Inl (Fatal ''sync: Unlock of unlocked RWMutex''))"
proof -
  have "case runs bank_sched (may_spawn any_call) commit_overtakes ([], contended) of
      Some (Inr (ps, s)) \<Rightarrow> ps = [Write (on_x ''DEPOSIT'' 4 8) (W_wait (Some 0)), Commit 5 D_done] \<and>
        rwmutex s 0 = unlocked \<and> rwmutex s 1 = unlocked \<and> mu_of s ''x'' = Some 1 \<and> \<not> mu_TW s \<and> \<not> mu_RTS s
    | _ \<Rightarrow> False"
    by code_simp
  then obtain ps s where r: "runs bank_sched (may_spawn any_call) commit_overtakes ([], contended) = Some (Inr (ps, s))"
    and ps: "ps = [Write (on_x ''DEPOSIT'' 4 8) (W_wait (Some 0)), Commit 5 D_done]"
    and s: "rwmutex s 0 = unlocked" "rwmutex s 1 = unlocked" "mu_of s ''x'' = Some 1" "\<not> mu_TW s" "\<not> mu_RTS s"
    by (auto split: option.splits sum.splits)
  have x: "op_account (on_x ''DEPOSIT'' 4 8) = ''x''" by (simp add: on_x_def)
  have "runs bank_sched (may_spawn any_call) (replicate 9 (Step 0)) (ps, s) =
      Some (Inl (Fatal ''sync: Unlock of unlocked RWMutex''))"
    by (rule write_commit_crash [of 0 ps "on_x ''DEPOSIT'' 4 8" 0 s 1]) (use ps s in \<open>simp_all add: x unlocked_def\<close>)
  with r show ?thesis by (simp add: runs_append)
qed

end
