(* ===== verification/BankSerial.thy ===== *)
theory BankSerial
  imports BankDeadlock
begin

text \<open>
  Reads and writes of existing accounts of one branch (\<open>mp3/server/server.go\<close>) at the same
  time, while nothing is committed or aborted. The account mutexes then do what they are for:
  no call panics, the calls never block each other for ever, and they are serializable.
\<close>

section \<open>What holds of every thread\<close>

definition read_or_write :: "goroutine \<Rightarrow> Shared \<Rightarrow> bool" where
  "read_or_write p s \<longleftrightarrow> (case p of
     Write op pc \<Rightarrow> pc = W_enter \<and> map_of (accounts (srv s)) (op_account op) \<noteq> None
   | Read op pc \<Rightarrow> pc = R_enter \<and> map_of (accounts (srv s)) (op_account op) \<noteq> None
   | _ \<Rightarrow> False)"

text \<open>Accounts and their mutexes stay, and a mutex is not held for reading and for writing.\<close>

definition rw_glob :: "(string \<times> Account) list \<Rightarrow> (string \<times> nat) list \<Rightarrow> Shared \<Rightarrow> bool" where
  "rw_glob A M s \<longleftrightarrow> accounts (srv s) = A \<and> acc_mu s = M \<and>
     (\<forall>acc. map_of A acc \<noteq> None \<longrightarrow> map_of M acc \<noteq> None) \<and>
     (\<forall>m. rw_writer (rwmutex s m) = Writing \<longrightarrow> rw_readers (rwmutex s m) = 0)"

fun rw_good :: "(string \<times> Account) list \<Rightarrow> (string \<times> nat) list \<Rightarrow> goroutine \<Rightarrow> bool" where
  "rw_good A M (Write op pc) \<longleftrightarrow> map_of A (op_account op) \<noteq> None \<and>
     (let own = map_of M (op_account op) in case pc of
        W_wait d \<Rightarrow> d = own | W_locking d \<Rightarrow> d = own | W_RTS d \<Rightarrow> d = own | W_TW d \<Rightarrow> d = own
      | W_rule d \<Rightarrow> d = own | W_exit_TW a d \<Rightarrow> d = own | W_exit_RTS a d \<Rightarrow> d = own | W_exit a d \<Rightarrow> d = own
      | _ \<Rightarrow> True)"
| "rw_good A M (Read op pc) \<longleftrightarrow> map_of A (op_account op) \<noteq> None \<and>
     (let a = get_or zero_Account A (op_account op) in case pc of
        R_wait d \<Rightarrow> d = map_of M (op_account op)
      | R_TW Ds TS \<Rightarrow> Ds = committedValue a \<and> TS = committedTimestamp a \<and> TS < op_timestamp op
      | R_scan Ds TS \<Rightarrow> Ds = committedValue a \<and> TS = committedTimestamp a \<and> TS < op_timestamp op
      | _ \<Rightarrow> True)"
| "rw_good A M _ \<longleftrightarrow> False"

section \<open>The account mutexes\<close>

text \<open>Threads that hold mutex \<open>m\<close> for reading; that have claimed it for writing; that hold it so.\<close>

fun reading :: "(string \<times> nat) list \<Rightarrow> nat \<Rightarrow> goroutine \<Rightarrow> bool" where
  "reading M m (Read op pc) \<longleftrightarrow> map_of M (op_account op) = Some m \<and> (case pc of R_check \<Rightarrow> True
     | R_TW Ds TS \<Rightarrow> True | R_scan Ds TS \<Rightarrow> True | R_RTS Ds \<Rightarrow> True | R_append Ds \<Rightarrow> True
     | R_exit_committed Ds \<Rightarrow> True | R_exit Ds TS \<Rightarrow> True | R_exit_late \<Rightarrow> True | _ \<Rightarrow> False)"
| "reading M m _ \<longleftrightarrow> False"

fun holding :: "(string \<times> nat) list \<Rightarrow> nat \<Rightarrow> goroutine \<Rightarrow> bool" where
  "holding M m (Write op pc) \<longleftrightarrow> map_of M (op_account op) = Some m \<and> (case pc of W_defer \<Rightarrow> True
     | W_RTS d \<Rightarrow> True | W_TW d \<Rightarrow> True | W_rule d \<Rightarrow> True | W_exit_TW a d \<Rightarrow> True
     | W_exit_RTS a d \<Rightarrow> True | W_exit a d \<Rightarrow> True | _ \<Rightarrow> False)"
| "holding M m _ \<longleftrightarrow> False"

fun claiming :: "(string \<times> nat) list \<Rightarrow> nat \<Rightarrow> goroutine \<Rightarrow> bool" where
  "claiming M m (Write op (W_locking d)) \<longleftrightarrow> map_of M (op_account op) = Some m"
| "claiming M m p \<longleftrightarrow> holding M m p"

lemma rw_globD:
  assumes "rw_glob A M s" "map_of A acc \<noteq> None"
  obtains m a where "map_of M acc = Some m" "mu_of s acc = Some m" "map_of A acc = Some a" "account_of (srv s) acc = a"
    "get_or zero_Account A acc = a" "map_of (accounts (srv s)) acc = Some a"
  using assms by (auto simp: rw_glob_def mu_of_def get_or_def)

lemma rw_globI:
  assumes "rw_glob A M s" "accounts (srv s') = accounts (srv s)" "acc_mu s' = acc_mu s"
    and "\<And>m. rw_writer (rwmutex s m) = Writing \<longrightarrow> rw_readers (rwmutex s m) = 0 \<Longrightarrow>
      rw_writer (rwmutex s' m) = Writing \<longrightarrow> rw_readers (rwmutex s' m) = 0"
  shows "rw_glob A M s'"
  using assms by (simp add: rw_glob_def)

lemma write_account:
  assumes s: "rw_glob A M s" and good: "rw_good A M (Write op pc)"
    and step: "write_step op pc s = Some (Inr (pc', s'))"
  shows "rw_glob A M s' \<and> rw_good A M (Write op pc')"
    and "rw_readers (rwmutex s' m) = rw_readers (rwmutex s m)"
    and "of_bool (rw_writer (rwmutex s' m) = Writing) + of_bool (holding M m (Write op pc)) =
      (of_bool (rw_writer (rwmutex s m) = Writing) + of_bool (holding M m (Write op pc')) :: nat)"
    and "of_bool (rw_writer (rwmutex s' m) \<noteq> No_writer) + of_bool (claiming M m (Write op pc)) =
      (of_bool (rw_writer (rwmutex s m) \<noteq> No_writer) + of_bool (claiming M m (Write op pc')) :: nat)"
proof -
  have acc: "map_of A (op_account op) \<noteq> None" using good by simp
  obtain own a where own: "map_of M (op_account op) = Some own" "mu_of s (op_account op) = Some own"
      "map_of A (op_account op) = Some a" "map_of (accounts (srv s)) (op_account op) = Some a"
    using rw_globD [OF s acc] by metis
  have "rw_glob A M s'"
    by (rule rw_globI [OF s]; use step own(4) in \<open>cases pc\<close>)
      (auto simp: thread_defs write_rule_def bind_res_Inr split: if_splits option.splits)
  moreover have "rw_good A M (Write op pc')"
    using step good own by (cases pc) (auto simp: thread_defs write_rule_def bind_res_Inr split: if_splits)
  ultimately show "rw_glob A M s' \<and> rw_good A M (Write op pc')" by blast
  show "rw_readers (rwmutex s' m) = rw_readers (rwmutex s m)"
    using step good own by (cases pc) (auto simp: thread_defs write_rule_def bind_res_Inr split: if_splits)
  show "of_bool (rw_writer (rwmutex s' m) = Writing) + of_bool (holding M m (Write op pc)) =
      (of_bool (rw_writer (rwmutex s m) = Writing) + of_bool (holding M m (Write op pc')) :: nat)"
    using step good own by (cases pc) (auto simp: thread_defs write_rule_def bind_res_Inr split: if_splits)
  show "of_bool (rw_writer (rwmutex s' m) \<noteq> No_writer) + of_bool (claiming M m (Write op pc)) =
      (of_bool (rw_writer (rwmutex s m) \<noteq> No_writer) + of_bool (claiming M m (Write op pc')) :: nat)"
    using step good own by (cases pc) (auto simp: thread_defs write_rule_def bind_res_Inr split: if_splits)
qed

lemma read_account:
  assumes s: "rw_glob A M s" and good: "rw_good A M (Read op pc)"
    and step: "read_step op pc s = Some (Inr (pc', s'))"
  shows "rw_glob A M s' \<and> rw_good A M (Read op pc')"
    and "rw_writer (rwmutex s' m) = rw_writer (rwmutex s m)"
    and "rw_readers (rwmutex s' m) + of_bool (reading M m (Read op pc)) =
      rw_readers (rwmutex s m) + of_bool (reading M m (Read op pc'))"
proof -
  have acc: "map_of A (op_account op) \<noteq> None" using good by simp
  obtain own a where own: "map_of M (op_account op) = Some own" "mu_of s (op_account op) = Some own"
      "map_of A (op_account op) = Some a" "map_of (accounts (srv s)) (op_account op) = Some a"
      "account_of (srv s) (op_account op) = a" "get_or zero_Account A (op_account op) = a"
    using rw_globD [OF s acc] by metis
  have "rw_glob A M s'"
    by (rule rw_globI [OF s]; use step in \<open>cases pc\<close>)
      (auto simp: thread_defs split: if_splits option.splits prod.splits)
  moreover have "rw_good A M (Read op pc')"
    using step good own by (cases pc) (auto simp: thread_defs split: if_splits prod.splits)
  ultimately show "rw_glob A M s' \<and> rw_good A M (Read op pc')" by blast
  show "rw_writer (rwmutex s' m) = rw_writer (rwmutex s m)"
    using step good own by (cases pc) (auto simp: thread_defs split: if_splits prod.splits)
  show "rw_readers (rwmutex s' m) + of_bool (reading M m (Read op pc)) =
      rw_readers (rwmutex s m) + of_bool (reading M m (Read op pc'))"
    using step good own by (cases pc) (auto simp: thread_defs split: if_splits prod.splits)
qed

lemma rw_thread_cases:
  assumes "rw_good A M p" "bank_thread p s = Some (Inr (p', s'))"
  obtains (Write) op pc pc' where "p = Write op pc" "p' = Write op pc'" "write_step op pc s = Some (Inr (pc', s'))"
  | (Read) op pc pc' where "p = Read op pc" "p' = Read op pc'" "read_step op pc s = Some (Inr (pc', s'))"
  using assms(2,1) by (cases rule: bank_thread_cases) auto

lemma rw_step:
  assumes "rw_glob A M s" "rw_good A M p" "bank_thread p s = Some (Inr (p', s'))"
  shows "rw_glob A M s'" "rw_good A M p'"
    and "rw_readers (rwmutex s' m) + of_bool (reading M m p) = rw_readers (rwmutex s m) + of_bool (reading M m p')"
    and "of_bool (rw_writer (rwmutex s' m) = Writing) + of_bool (holding M m p) =
      (of_bool (rw_writer (rwmutex s m) = Writing) + of_bool (holding M m p') :: nat)"
    and "of_bool (rw_writer (rwmutex s' m) \<noteq> No_writer) + of_bool (claiming M m p) =
      (of_bool (rw_writer (rwmutex s m) \<noteq> No_writer) + of_bool (claiming M m p') :: nat)"
proof -
  note w = write_account [OF assms(1)] and r = read_account [OF assms(1)]
  from assms(2,3) have "rw_glob A M s' \<and> rw_good A M p' \<and>
    rw_readers (rwmutex s' m) + of_bool (reading M m p) = rw_readers (rwmutex s m) + of_bool (reading M m p') \<and>
    of_bool (rw_writer (rwmutex s' m) = Writing) + of_bool (holding M m p) =
      (of_bool (rw_writer (rwmutex s m) = Writing) + of_bool (holding M m p') :: nat) \<and>
    of_bool (rw_writer (rwmutex s' m) \<noteq> No_writer) + of_bool (claiming M m p) =
      (of_bool (rw_writer (rwmutex s m) \<noteq> No_writer) + of_bool (claiming M m p') :: nat)"
  proof (cases rule: rw_thread_cases)
    case (Write op pc pc')
    then show ?thesis using w [of op pc pc' s'] assms(2) by (simp del: rw_good.simps holding.simps(1))
  next
    case (Read op pc pc')
    then show ?thesis using r [of op pc pc' s'] assms(2) by (simp del: rw_good.simps reading.simps(1))
  qed
  then show "rw_glob A M s'" "rw_good A M p'"
    "rw_readers (rwmutex s' m) + of_bool (reading M m p) = rw_readers (rwmutex s m) + of_bool (reading M m p')"
    "of_bool (rw_writer (rwmutex s' m) = Writing) + of_bool (holding M m p) =
      (of_bool (rw_writer (rwmutex s m) = Writing) + of_bool (holding M m p') :: nat)"
    "of_bool (rw_writer (rwmutex s' m) \<noteq> No_writer) + of_bool (claiming M m p) =
      (of_bool (rw_writer (rwmutex s m) \<noteq> No_writer) + of_bool (claiming M m p') :: nat)"
    by blast+
qed

lemma read_or_write_start:
  assumes "read_or_write p s"
  shows "rw_glob A M s \<Longrightarrow> rw_good A M p" "\<not> reading M m p" "\<not> holding M m p" "\<not> claiming M m p"
  using assms by (cases p; auto simp: read_or_write_def rw_glob_def)+

interpretation readers: ledger bank_thread read_or_write "rw_glob A M" "\<lambda>p s. rw_good A M p"
  "\<lambda>p. of_bool (reading M m p)" "\<lambda>s. rw_readers (rwmutex s m)" for A M m
proof unfold_locales
  show "rw_good A M p" if "rw_glob A M s" "read_or_write p s" for p s
    by (rule read_or_write_start(1) [OF that(2,1)])
  show "rw_glob A M s'" "rw_good A M p'" if "rw_glob A M s" "rw_good A M p" "bank_thread p s = Some (Inr (p', s'))" for p s p' s'
    by (rule rw_step(1,2) [OF that])+
  show "of_bool (reading M m p) = (0 :: nat)" if "read_or_write p s" for p s
    using read_or_write_start(2) [OF that] by simp
qed (blast intro: rw_step(3))+

interpretation holders: ledger bank_thread read_or_write "rw_glob A M" "\<lambda>p s. rw_good A M p"
  "\<lambda>p. of_bool (holding M m p)" "\<lambda>s. of_bool (rw_writer (rwmutex s m) = Writing)" for A M m
proof unfold_locales
  show "of_bool (holding M m p) = (0 :: nat)" if "read_or_write p s" for p s
    using read_or_write_start(3) [OF that] by simp
qed (blast intro: rw_step(4))+

interpretation claims: ledger bank_thread read_or_write "rw_glob A M" "\<lambda>p s. rw_good A M p"
  "\<lambda>p. of_bool (claiming M m p)" "\<lambda>s. of_bool (rw_writer (rwmutex s m) \<noteq> No_writer)" for A M m
proof unfold_locales
  show "of_bool (claiming M m p) = (0 :: nat)" if "read_or_write p s" for p s
    using read_or_write_start(4) [OF that] by simp
qed (blast intro: rw_step(5))+

section \<open>The invariant of a run\<close>

definition rw_inv :: "(string \<times> Account) list \<Rightarrow> (string \<times> nat) list \<Rightarrow> goroutine list \<times> Shared \<Rightarrow> bool" where
  "rw_inv A M st \<longleftrightarrow> TW_ledger.balanced st \<and> RTS_ledger.balanced st \<and>
     (\<forall>m. readers.balanced A M m st \<and> holders.balanced A M m st \<and> claims.balanced A M m st)"

lemma read_or_write_any: "may_spawn read_or_write e st \<Longrightarrow> may_spawn any_call e st"
  by (cases e; cases st) (auto simp: any_call_def read_or_write_def split: goroutine.splits)

lemma rw_inv_step:
  assumes "rw_inv A M st" "may_spawn read_or_write e st" "bank_sched e st = Some (Inr (out, st'))"
  shows "rw_inv A M st'"
  using assms TW_ledger.balanced_step [OF _ read_or_write_any [OF assms(2)] assms(3)]
    RTS_ledger.balanced_step [OF _ read_or_write_any [OF assms(2)] assms(3)]
    readers.balanced_step [OF _ assms(2,3)] holders.balanced_step [OF _ assms(2,3)] claims.balanced_step [OF _ assms(2,3)]
  by (simp add: rw_inv_def)

lemma rw_inv_idle: "all_idle s \<Longrightarrow> rw_inv (accounts (srv s)) (acc_mu s) ([], s)"
  by (simp add: rw_inv_def all_idle_def TW_ledger.balanced_def RTS_ledger.balanced_def TW_ledger.all_good_def
      readers.balanced_def holders.balanced_def claims.balanced_def readers.all_good_def rw_glob_def unlocked_def)

lemma rw_invD:
  assumes "rw_inv A M (ps, s)"
  shows "rw_glob A M s" "p \<in> set ps \<Longrightarrow> rw_good A M p"
    "mu_TW s \<longleftrightarrow> (\<exists>p \<in> set ps. in_TW p)" "mu_RTS s \<longleftrightarrow> (\<exists>p \<in> set ps. in_RTS p)"
    "0 < rw_readers (rwmutex s m) \<longleftrightarrow> (\<exists>p \<in> set ps. reading M m p)"
    "rw_writer (rwmutex s m) = Writing \<longleftrightarrow> (\<exists>p \<in> set ps. holding M m p)"
    "rw_writer (rwmutex s m) \<noteq> No_writer \<longleftrightarrow> (\<exists>p \<in> set ps. claiming M m p)"
proof -
  note inv = assms [unfolded rw_inv_def]
  show "rw_glob A M s" "p \<in> set ps \<Longrightarrow> rw_good A M p"
    using inv by (auto simp: readers.balanced_def readers.all_good_def list_all_iff)
  have tw: "TW_ledger.balanced (ps, s)" and rts: "RTS_ledger.balanced (ps, s)"
    and rd: "readers.balanced A M m (ps, s)" and hd: "holders.balanced A M m (ps, s)"
    and cl: "claims.balanced A M m (ps, s)" using inv by blast+
  show "mu_TW s \<longleftrightarrow> (\<exists>p \<in> set ps. in_TW p)"
    using TW_ledger.balanced_free [OF tw] TW_ledger.balanced_holder [OF tw] by (cases "mu_TW s") auto
  show "mu_RTS s \<longleftrightarrow> (\<exists>p \<in> set ps. in_RTS p)"
    using RTS_ledger.balanced_free [OF rts] RTS_ledger.balanced_holder [OF rts] by (cases "mu_RTS s") auto
  show "0 < rw_readers (rwmutex s m) \<longleftrightarrow> (\<exists>p \<in> set ps. reading M m p)"
    using readers.balanced_free [OF rd] readers.balanced_holder [OF rd] by (cases "rw_readers (rwmutex s m)") auto
  show "rw_writer (rwmutex s m) = Writing \<longleftrightarrow> (\<exists>p \<in> set ps. holding M m p)"
    using holders.balanced_free [OF hd] holders.balanced_holder [OF hd] by (cases "rw_writer (rwmutex s m) = Writing") auto
  show "rw_writer (rwmutex s m) \<noteq> No_writer \<longleftrightarrow> (\<exists>p \<in> set ps. claiming M m p)"
    using claims.balanced_free [OF cl] claims.balanced_holder [OF cl] by (cases "rw_writer (rwmutex s m) = No_writer") auto
qed

text \<open>Nobody reads an account that another holds for writing.\<close>

lemma readers_exclude_writer:
  assumes "rw_inv A M (ps, s)" "p \<in> set ps" "q \<in> set ps"
  shows "\<not> (reading M m p \<and> holding M m q)"
proof
  assume "reading M m p \<and> holding M m q"
  then have "0 < rw_readers (rwmutex s m)" "rw_writer (rwmutex s m) = Writing"
    using rw_invD(5,6) [OF assms(1), of m] assms(2,3) by blast+
  then show False using rw_invD(1) [OF assms(1)] by (simp add: rw_glob_def)
qed

section \<open>Neither panics nor deadlocks\<close>

fun returned :: "goroutine \<Rightarrow> bool" where
  "returned (Write op pc) = (case pc of W_done a \<Rightarrow> True | _ \<Rightarrow> False)"
| "returned (Read op pc) = (case pc of R_done v a \<Rightarrow> True | _ \<Rightarrow> False)"
| "returned (Check ts pc) = (case pc of C_done can \<Rightarrow> True | _ \<Rightarrow> False)"
| "returned (Commit ts pc) = (pc = D_done)"
| "returned (Abort ts) = False"
| "returned Aborted = True"

lemma rw_no_panic:
  assumes inv: "rw_inv A M (ps, s)" and p: "p \<in> set ps"
  shows "bank_thread p s \<noteq> Some (Inl err)"
proof -
  note D = rw_invD [OF inv]
  have bits: "in_TW p \<Longrightarrow> mu_TW s" "in_RTS p \<Longrightarrow> mu_RTS s"
    and hold: "\<And>m. holding M m p \<Longrightarrow> rw_writer (rwmutex s m) = Writing"
    and read: "\<And>m. reading M m p \<Longrightarrow> 0 < rw_readers (rwmutex s m)"
    using D(3-6) p by blast+
  show ?thesis
  proof (cases p)
    case (Write op pc)
    then obtain own where own: "map_of M (op_account op) = Some own" "mu_of s (op_account op) = Some own"
      using D(2) [OF p] rw_globD [OF D(1)] by (metis rw_good.simps(1))
    show ?thesis using Write bits hold [of own] D(2) [OF p] own
      by (cases pc) (auto simp: thread_defs write_rule_def read_before_iff)
  next
    case (Read op pc)
    then obtain own where own: "map_of M (op_account op) = Some own" "mu_of s (op_account op) = Some own"
      using D(2) [OF p] rw_globD [OF D(1)] by (metis rw_good.simps(2))
    show ?thesis using Read bits read [of own] D(2) [OF p] own
      by (cases pc) (auto simp: thread_defs split: prod.splits)
  qed (use D(2) [OF p] in auto)
qed

text \<open>What a thread that cannot step is waiting for.\<close>

lemma blocked_cases:
  assumes "rw_glob A M s" "rw_good A M p" "bank_thread p s = None" "\<not> returned p"
  obtains (TW) "mu_TW s" "\<not> in_TW p"
  | (RTS) "mu_RTS s" "\<not> in_TW p" "\<not> in_RTS p"
  | (locking) m op d where "p = Write op (W_locking d)" "map_of M (op_account op) = Some m"
      "rw_writer (rwmutex s m) \<noteq> Waiting_writer \<or> 0 < rw_readers (rwmutex s m)"
  | (claimed) m where "rw_writer (rwmutex s m) \<noteq> No_writer" "\<not> in_TW p" "\<not> in_RTS p"
      "\<forall>m. \<not> reading M m p \<and> \<not> claiming M m p \<and> \<not> holding M m p"
proof -
  show thesis
  proof (cases p)
    case (Write op pc)
    then obtain own where own: "map_of M (op_account op) = Some own" "mu_of s (op_account op) = Some own"
      using assms(2) rw_globD [OF assms(1)] by (metis rw_good.simps(1))
    from Write own assms(2-4) show ?thesis
      by (cases pc) (auto simp: thread_defs write_rule_def read_before_iff split: if_splits intro: TW RTS locking claimed)
  next
    case (Read op pc)
    then obtain own where own: "map_of M (op_account op) = Some own" "mu_of s (op_account op) = Some own"
      using assms(2) rw_globD [OF assms(1)] by (metis rw_good.simps(2))
    from Read own assms(2-4) show ?thesis
      by (cases pc) (auto simp: thread_defs split: if_splits prod.splits intro: TW RTS claimed)
  qed (use assms(2) in auto)
qed

lemma active: "in_TW q \<or> in_RTS q \<or> reading M m q \<or> claiming M m q \<or> holding M m q \<Longrightarrow> rw_good A M q \<Longrightarrow> \<not> returned q"
  by (cases q) (auto split: write_pc.splits read_pc.splits)

lemma holding_claiming: "holding M m q \<Longrightarrow> claiming M m q"
  by (cases "(M, m, q)" rule: claiming.cases) auto

lemma rw_not_deadlocked:
  assumes inv: "rw_inv A M (ps, s)" and p: "p \<in> set ps" "\<not> returned p"
  shows "\<exists>q \<in> set ps. bank_thread q s \<noteq> None"
proof (rule ccontr)
  assume "\<not> ?thesis"
  then have none: "bank_thread q s = None" if "q \<in> set ps" for q using that by blast
  note D = rw_invD [OF inv]
  have blocked: "mu_TW s \<and> \<not> in_TW q \<or> mu_RTS s \<and> \<not> in_TW q \<and> \<not> in_RTS q \<or>
      (\<exists>m op d. q = Write op (W_locking d) \<and> map_of M (op_account op) = Some m \<and>
         (rw_writer (rwmutex s m) \<noteq> Waiting_writer \<or> 0 < rw_readers (rwmutex s m))) \<or>
      (\<exists>m. rw_writer (rwmutex s m) \<noteq> No_writer) \<and> \<not> in_TW q \<and> \<not> in_RTS q \<and>
        (\<forall>m. \<not> reading M m q \<and> \<not> claiming M m q \<and> \<not> holding M m q)"
    if "q \<in> set ps" "\<not> returned q" for q
    using blocked_cases [OF D(1) D(2) [OF that(1)] none [OF that(1)] that(2)] by metis
  have tw: "\<not> mu_TW s"
    using blocked active D(2,3) by fastforce
  have rts: "\<not> mu_RTS s"
  proof
    assume "mu_RTS s"
    then obtain q where q: "q \<in> set ps" "in_RTS q" using D(4) by blast
    with blocked [OF q(1)] active D(2) tw show False by fastforce
  qed
  have readers: "rw_readers (rwmutex s m) = 0" for m
  proof (rule ccontr)
    assume "rw_readers (rwmutex s m) \<noteq> 0"
    then obtain q where q: "q \<in> set ps" "reading M m q" using D(5) by blast
    with blocked [OF q(1)] active D(2) tw rts show False by fastforce
  qed
  have writing: "rw_writer (rwmutex s m) \<noteq> Writing" for m
  proof
    assume "rw_writer (rwmutex s m) = Writing"
    then obtain q where q: "q \<in> set ps" "holding M m q" using D(6) by blast
    with blocked [OF q(1)] active D(2) tw rts show False by fastforce
  qed
  have free: "rw_writer (rwmutex s m) = No_writer" for m
  proof (rule ccontr)
    assume no: "rw_writer (rwmutex s m) \<noteq> No_writer"
    then obtain q where q: "q \<in> set ps" "claiming M m q" using D(7) by blast
    from q blocked [OF q(1)] active D(2) tw rts obtain m' where "claiming M m' q"
        "rw_writer (rwmutex s m') \<noteq> Waiting_writer \<or> 0 < rw_readers (rwmutex s m')"
      by fastforce
    moreover have "rw_writer (rwmutex s m') \<noteq> No_writer" using D(7) q(1) \<open>claiming M m' q\<close> by blast
    ultimately show False using readers [of m'] writing [of m'] by (cases "rw_writer (rwmutex s m')") auto
  qed
  from blocked [OF p] tw rts free obtain m op d where "p = Write op (W_locking d)" "map_of M (op_account op) = Some m"
    by auto
  then have "claiming M m p" by simp
  then show False using D(7) p(1) free by blast
qed

interpretation rw: safe_machine bank_sched "may_spawn read_or_write" "rw_inv A M" for A M
proof unfold_locales
  show "rw_inv A M s'" if "rw_inv A M s" "may_spawn read_or_write e s" "bank_sched e s = Some (Inr (out, s'))" for s e out s'
    by (rule rw_inv_step [OF that])
  show "bank_sched e st \<noteq> Some (Inl err)" if "rw_inv A M st" "may_spawn read_or_write e st" for st e err
    using that rw_no_panic [of A M "fst st" "snd st"]
    by (cases st; cases e) (auto simp: bind_go_def return_go_def split: option.splits sum.splits)
qed

text \<open>C22: reads and writes never block each other for ever. However calls of \<open>read\<close> and \<open>write\<close> on
  existing accounts of an idle branch are interleaved, none of them panics (no mutex is unlocked
  that is not locked), and in every state that is reached either all calls have returned or some
  goroutine can go on.\<close>

theorem reads_writes_progress:
  assumes "all_idle s0" "runs bank_sched (may_spawn read_or_write) es ([], s0) = Some r"
  shows "\<exists>ps s. r = Inr (ps, s) \<and>
    ((\<forall>p \<in> set ps. returned p) \<or> (\<exists>i < length ps. \<exists>st. bank_sched (Step i) (ps, s) = Some (Inr st)))"
proof -
  obtain ps s where r: "r = Inr (ps, s)" and inv: "rw_inv (accounts (srv s0)) (acc_mu s0) (ps, s)"
    using rw.runs_safe [OF rw_inv_idle [OF assms(1)] assms(2)] by auto
  show ?thesis
  proof (cases "\<forall>p \<in> set ps. returned p")
    case False
    then obtain q where q: "q \<in> set ps" "bank_thread q s \<noteq> None" using rw_not_deadlocked [OF inv] by blast
    then obtain i q' s' where i: "i < length ps" "bank_thread (ps ! i) s = Some (Inr (q', s'))"
      using rw_no_panic [OF inv q(1)] by (metis in_set_conv_nth not_None_eq prod.exhaust sumE)
    then have "\<exists>st. bank_sched (Step i) (ps, s) = Some (Inr st)" by (simp add: return_go_def)
    with i(1) r show ?thesis by auto
  qed (use r in simp)
qed

text \<open>Two deposits and a read on account \<open>x\<close> of an idle branch, half way.\<close>

definition busy_calls :: "goroutine sched list" where
  "busy_calls = [Spawn (Write (on_x ''DEPOSIT'' 4 8) W_enter), Spawn (Write (on_x ''DEPOSIT'' 2 9) W_enter),
     Spawn (Read (on_x ''BALANCE'' 0 4) R_enter), Step 0, Step 0, Step 1, Step 1, Step 0, Step 0, Step 0, Step 0]"

lemma busy_calls_run:
  "case runs bank_sched (may_spawn read_or_write) busy_calls ([], contended) of Some (Inr (ps, s)) \<Rightarrow>
     list_all (\<lambda>p. \<not> returned p) ps | _ \<Rightarrow> False"
  by code_simp

lemma contended_idle: "all_idle contended"
  by (simp add: all_idle_def contended_def)

theorem reads_writes_progress_witness:
  "\<exists>ps s. runs bank_sched (may_spawn read_or_write) busy_calls ([], contended) = Some (Inr (ps, s)) \<and>
     ((\<forall>p \<in> set ps. returned p) \<or> (\<exists>i < length ps. \<exists>st. bank_sched (Step i) (ps, s) = Some (Inr st)))"
proof -
  obtain r where r: "runs bank_sched (may_spawn read_or_write) busy_calls ([], contended) = Some r"
    using busy_calls_run by (auto split: option.splits)
  show ?thesis using reads_writes_progress [OF contended_idle r] r by auto
qed

section \<open>Serializability\<close>

text \<open>
  What a call has done, and the sequential operations of \<open>BankTxn\<close> and \<open>BankRead\<close> as the
  object that explains a history of such outcomes.
\<close>

datatype outcome = Wrote Operation bool | Got Operation int64 bool

fun perform :: "outcome \<Rightarrow> Server \<Rightarrow> Server option" where
  "perform (Wrote op abort) sv = (case write_sv op sv of
     Inl err \<Rightarrow> None | Inr (abort', sv') \<Rightarrow> if abort' = abort then Some sv' else None)"
| "perform (Got op v abort) sv = (case read_rule op sv of
     Read_value v' sv' \<Rightarrow> if v' = v \<and> \<not> abort then Some sv' else None
   | Read_abort \<Rightarrow> if v = 0 \<and> abort then Some sv else None
   | Read_wait TS \<Rightarrow> None)"

fun replay :: "outcome list \<Rightarrow> Server \<Rightarrow> Server option" where
  "replay [] sv = Some sv"
| "replay (x # xs) sv = Option.bind (perform x sv) (replay xs)"

text \<open>The step of a call at which it takes effect, and the effects along a schedule.\<close>

fun takes_effect :: "goroutine \<Rightarrow> Shared \<Rightarrow> outcome option" where
  "takes_effect (Write op (W_rule d)) s = (case write_rule op (srv s) of
     Inl err \<Rightarrow> None | Inr (abort, sv) \<Rightarrow> Some (Wrote op abort))"
| "takes_effect (Read op R_check) s =
     (if op_timestamp op > committedTimestamp (account_of (srv s) (op_account op)) then None else Some (Got op 0 True))"
| "takes_effect (Read op (R_scan Ds TS)) s =
     (case read_scan (op_timestamp op) (slot (TW (srv s)) (op_account op)) Ds TS of (Ds, TS, committed) \<Rightarrow>
        if \<not> committed \<and> op_timestamp op = TS then Some (Got op Ds False) else None)"
| "takes_effect (Read op (R_append Ds)) s = Some (Got op Ds False)"
| "takes_effect p s = None"

fun history :: "goroutine sched list \<Rightarrow> goroutine list \<times> Shared \<Rightarrow> (nat \<times> outcome) list" where
  "history [] st = []"
| "history (Spawn p # es) (ps, s) = history es (ps @ [p], s)"
| "history (Step i # es) (ps, s) =
     (case takes_effect (ps ! i) s of None \<Rightarrow> [] | Some x \<Rightarrow> [(i, x)]) @
     (case bank_sched (Step i) (ps, s) of Some (Inr (out, st)) \<Rightarrow> history es st | _ \<Rightarrow> [])"

text \<open>What a call that has taken effect is going to return, or has returned.\<close>

fun outcome_of :: "goroutine \<Rightarrow> outcome option" where
  "outcome_of (Write op pc) = (case pc of W_exit_TW a d \<Rightarrow> Some (Wrote op a) | W_exit_RTS a d \<Rightarrow> Some (Wrote op a)
     | W_exit a d \<Rightarrow> Some (Wrote op a) | W_done a \<Rightarrow> Some (Wrote op a) | _ \<Rightarrow> None)"
| "outcome_of (Read op pc) = (case pc of R_exit_committed Ds \<Rightarrow> Some (Got op Ds False)
     | R_exit Ds TS \<Rightarrow> if op_timestamp op = TS then Some (Got op Ds False) else None
     | R_exit_late \<Rightarrow> Some (Got op 0 True) | R_done v a \<Rightarrow> Some (Got op v a) | _ \<Rightarrow> None)"
| "outcome_of p = None"

lemma outcome_step:
  assumes "rw_glob A M s" "rw_good A M p" "bank_thread p s = Some (Inr (p', s'))"
  shows "(case takes_effect p s of None \<Rightarrow> outcome_of p' = outcome_of p
    | Some x \<Rightarrow> outcome_of p = None \<and> outcome_of p' = Some x)"
  using assms(2,3)
proof (cases rule: rw_thread_cases)
  case (Write op pc pc')
  then have "map_of (accounts (srv s)) (op_account op) \<noteq> None" using assms(1,2) by (auto simp: rw_glob_def)
  with Write show ?thesis by (cases pc) (auto simp: thread_defs split: sum.splits)
next
  case (Read op pc pc')
  then have "map_of (accounts (srv s)) (op_account op) \<noteq> None" using assms(1,2) by (auto simp: rw_glob_def)
  with Read show ?thesis by (cases pc) (auto simp: thread_defs split: prod.splits)
qed

text \<open>A read that found the committed version still finds it when it records itself.\<close>

definition fresh :: "goroutine \<Rightarrow> Shared \<Rightarrow> bool" where
  "fresh p s \<longleftrightarrow> (\<forall>op Ds. p = Read op (R_RTS Ds) \<or> p = Read op (R_append Ds) \<longrightarrow>
     Ds = committedValue (account_of (srv s) (op_account op)) \<and>
     committedTimestamp (account_of (srv s) (op_account op)) < op_timestamp op \<and>
     older_entries (op_timestamp op) (slot (TW (srv s)) (op_account op)) = [])"

lemma write_sv_rule: "map_of (accounts sv) (op_account op) \<noteq> None \<Longrightarrow> write_sv op sv = write_rule op sv"
  by (auto simp: write_sv_def write_rule_def Let_def account_mu_def get_or_def read_before_iff split: option.splits)

lemma add_tentative_none: "older_entries ts xs = [] \<Longrightarrow> add_tentative ts v xs = v"
  by (simp add: add_tentative_sum older_entries_def)

lemma effect_performed:
  assumes "rw_glob A M s" "rw_good A M p" "fresh p s" "bank_thread p s = Some (Inr (p', s'))"
  shows "(case takes_effect p s of None \<Rightarrow> srv s' = srv s | Some x \<Rightarrow> perform x (srv s) = Some (srv s'))"
  using assms(2,4)
proof (cases rule: rw_thread_cases)
  case (Write op pc pc')
  then have "map_of A (op_account op) \<noteq> None" using assms(2) by simp
  from rw_globD [OF assms(1) this] obtain a m where own: "mu_of s (op_account op) = Some m"
      "map_of (accounts (srv s)) (op_account op) = Some a" by metis
  with Write show ?thesis using write_sv_rule [of "srv s" op]
    by (cases pc) (auto simp: thread_defs split: sum.splits if_splits option.splits)
next
  case (Read op pc pc')
  then have "map_of A (op_account op) \<noteq> None" using assms(2) by simp
  from rw_globD [OF assms(1) this] obtain a m where own: "mu_of s (op_account op) = Some m"
      "map_of (accounts (srv s)) (op_account op) = Some a" "account_of (srv s) (op_account op) = a"
      "get_or zero_Account A (op_account op) = a" by metis
  show ?thesis
  proof (cases pc)
    case (R_append Ds)
    then have f: "Ds = committedValue a" "committedTimestamp a < op_timestamp op"
        "older_entries (op_timestamp op) (slot (TW (srv s)) (op_account op)) = []"
      using assms(3) Read own by (simp_all add: fresh_def)
    show ?thesis using Read R_append read_rule_committed [OF own(2) f(2,3)] f(1) by (auto simp: thread_defs)
  next
    case (R_scan Ds TS)
    with Read assms(2) own show ?thesis
      by (auto simp: thread_defs read_rule_def split: prod.splits if_splits)
  next
    case R_check
    have "read_rule op (srv s) = Read_abort" if "\<not> committedTimestamp a < op_timestamp op"
      using that own by (simp add: read_rule_abort)
    with Read R_check own show ?thesis by (auto simp: thread_defs split: if_splits)
  qed (use Read own in \<open>auto simp: thread_defs split: prod.splits if_splits option.splits read_outcome.splits\<close>)
qed

lemma fresh_step:
  assumes "rw_glob A M s" "rw_good A M p" "fresh p s" "bank_thread p s = Some (Inr (p', s'))"
  shows "fresh p' s'"
  using assms(2,4)
proof (cases rule: rw_thread_cases)
  case (Read op pc pc')
  then have "map_of A (op_account op) \<noteq> None" using assms(2) by simp
  from rw_globD [OF assms(1) this] have own: "account_of (srv s) (op_account op) = get_or zero_Account A (op_account op)"
    by metis
  show ?thesis
  proof (cases pc)
    case (R_scan Ds TS)
    with Read assms(2) own show ?thesis
      by (auto simp: thread_defs fresh_def read_scan_eq add_tentative_none split: if_splits)
  qed (use Read assms(3) in \<open>auto simp: thread_defs fresh_def split: prod.splits if_splits\<close>)
qed (auto simp: fresh_def)

lemma rw_changes_TW:
  assumes "rw_good A M p" "bank_thread p s = Some (Inr (p', s'))"
  shows "slot (TW (srv s')) acc = slot (TW (srv s)) acc \<or> (\<exists>op d. p = Write op (W_rule d) \<and> op_account op = acc)"
  using assms
proof (cases rule: rw_thread_cases)
  case (Write op pc pc')
  then show ?thesis by (cases pc) (auto simp: thread_defs write_rule_def bind_res_Inr split: if_splits option.splits)
next
  case (Read op pc pc')
  then show ?thesis by (cases pc) (auto simp: thread_defs split: if_splits option.splits prod.splits)
qed

lemma fresh_frame:
  assumes inv: "rw_inv A M (ps, s)" and pq: "p \<in> set ps" "q \<in> set ps" and q: "fresh q s"
    and step: "bank_thread p s = Some (Inr (p', s'))"
  shows "fresh q s'"
proof -
  note D = rw_invD [OF inv]
  have acc: "accounts (srv s') = accounts (srv s)"
    using rw_step(1) [OF D(1) D(2) [OF pq(1)] step] D(1) by (simp add: rw_glob_def)
  have "slot (TW (srv s')) (op_account op) = slot (TW (srv s)) (op_account op)"
    if op: "q = Read op (R_RTS Ds) \<or> q = Read op (R_append Ds)" for op Ds
  proof (rule ccontr)
    assume "\<not> ?thesis"
    then obtain op' d where p: "p = Write op' (W_rule d)" "op_account op' = op_account op"
      using rw_changes_TW [OF D(2) [OF pq(1)] step] by blast
    have "map_of A (op_account op) \<noteq> None" using D(2) [OF pq(2)] op by auto
    from rw_globD [OF D(1) this] obtain m where "map_of M (op_account op) = Some m" by metis
    then have "reading M m q" "holding M m p" using op p by auto
    then show False using readers_exclude_writer [OF inv pq(2,1)] by blast
  qed
  with q acc show ?thesis by (auto simp: fresh_def)
qed

text \<open>Both invariants along a run.\<close>

definition serial_inv :: "(string \<times> Account) list \<Rightarrow> (string \<times> nat) list \<Rightarrow> goroutine list \<times> Shared \<Rightarrow> bool" where
  "serial_inv A M st \<longleftrightarrow> rw_inv A M st \<and> (\<forall>p \<in> set (fst st). fresh p (snd st))"

lemma serial_inv_step:
  assumes "serial_inv A M st" "may_spawn read_or_write e st" "bank_sched e st = Some (Inr (out, st'))"
  shows "serial_inv A M st'"
proof -
  obtain ps s ps' s' where st: "st = (ps, s)" "st' = (ps', s')" by (cases st, cases st')
  have inv: "rw_inv A M (ps, s)" and fresh: "\<forall>p \<in> set ps. fresh p s" using assms(1) st by (simp_all add: serial_inv_def)
  have "\<forall>p \<in> set ps'. fresh p s'"
    using assms(3,2) [unfolded st]
  proof (cases rule: interleave_cases)
    case (spawn p)
    then have "fresh p s" by (auto simp: fresh_def read_or_write_def)
    with spawn fresh show ?thesis by simp
  next
    case (step i p)
    then have i: "ps ! i \<in> set ps" by simp
    note D = rw_invD(1) [OF inv] rw_invD(2) [OF inv i]
    have "fresh p s'" using fresh_step [OF D _ step(3)] fresh i by blast
    moreover have "\<forall>q \<in> set ps. fresh q s'" using fresh_frame [OF inv i _ _ step(3)] fresh by blast
    ultimately show ?thesis using set_update_subset_insert [of ps i p] step(4) by auto
  qed
  then show ?thesis using rw_inv_step [OF _ assms(2,3)] inv st by (simp add: serial_inv_def)
qed

interpretation serial: invariant_machine bank_sched "may_spawn read_or_write" "serial_inv A M" for A M
  by unfold_locales (rule serial_inv_step)

lemma run_serial:
  assumes "serial_inv A M (ps, s)" "runs bank_sched (may_spawn read_or_write) es (ps, s) = Some (Inr (ps', s'))"
  shows "replay (map snd (history es (ps, s))) (srv s) = Some (srv s') \<and>
    length ps \<le> length ps' \<and> distinct (map fst (history es (ps, s))) \<and>
    (\<forall>i x. (i, x) \<in> set (history es (ps, s)) \<longrightarrow> i < length ps \<longrightarrow> outcome_of (ps ! i) = None) \<and>
    (\<forall>i < length ps'. \<forall>x. outcome_of (ps' ! i) = Some x \<longleftrightarrow>
       (i < length ps \<and> outcome_of (ps ! i) = Some x \<or> (i, x) \<in> set (history es (ps, s))))"
  using assms
proof (induction es arbitrary: ps s)
  case (Cons e es)
  then obtain out ps1 s1 where e: "may_spawn read_or_write e (ps, s)"
      "bank_sched e (ps, s) = Some (Inr (out, ps1, s1))"
    and es: "runs bank_sched (may_spawn read_or_write) es (ps1, s1) = Some (Inr (ps', s'))"
    by (auto split: if_splits option.splits sum.splits)
  note IH = Cons.IH [OF serial_inv_step [OF Cons.prems(1) e] es]
  from e(2,1) show ?case
  proof (cases rule: interleave_cases)
    case (spawn p)
    then have "outcome_of p = None" by (auto simp: read_or_write_def split: goroutine.splits)
    with spawn IH show ?thesis by (auto simp: nth_append less_Suc_eq)
  next
    case (step i p)
    then have i: "ps ! i \<in> set ps" by simp
    have inv: "rw_inv A M (ps, s)" "fresh (ps ! i) s" using Cons.prems(1) i by (auto simp: serial_inv_def)
    note D = rw_invD(1) [OF inv(1)] rw_invD(2) [OF inv(1) i]
    have h: "history (e # es) (ps, s) = (case takes_effect (ps ! i) s of None \<Rightarrow> [] | Some x \<Rightarrow> [(i, x)]) @ history es (ps1, s1)"
      using step by (simp add: return_go_def)
    show ?thesis
    proof (cases "takes_effect (ps ! i) s")
      case None
      then have "outcome_of p = outcome_of (ps ! i)" "srv s1 = srv s"
        using outcome_step [OF D step(3)] effect_performed [OF D inv(2) step(3)] by simp_all
      moreover from this(1) have "outcome_of (ps1 ! k) = outcome_of (ps ! k)" if "k < length ps" for k
        using step(2,4) that by (cases "k = i") auto
      ultimately show ?thesis using IH None h step(4) by auto
    next
      case (Some x)
      then have "outcome_of (ps ! i) = None" "outcome_of p = Some x" "perform x (srv s) = Some (srv s1)"
        using outcome_step [OF D step(3)] effect_performed [OF D inv(2) step(3)] by simp_all
      moreover have "outcome_of (ps1 ! k) = (if k = i then Some x else outcome_of (ps ! k))" if "k < length ps" for k
        using step(2,4) that \<open>outcome_of p = Some x\<close> by (cases "k = i") auto
      ultimately show ?thesis using IH Some h step(2,4) by (auto split: if_splits)
    qed
  qed
qed simp

lemma serial_inv_idle: "all_idle s \<Longrightarrow> serial_inv (accounts (srv s)) (acc_mu s) ([], s)"
  by (simp add: serial_inv_def rw_inv_idle)

text \<open>C6: reads and writes are serializable. However calls of \<open>read\<close> and \<open>write\<close> on existing
  accounts of an idle branch are interleaved, the sequential \<open>write_sv\<close> and \<open>read_rule\<close>, performed
  one after the other in the order in which the calls take effect, end in the same branch, with the
  same results: every call takes effect at most once, at one of its own steps, and one that has
  returned has done so with the result that the sequential operation gives at that place.\<close>

theorem reads_writes_serializable:
  assumes "all_idle s0" "runs bank_sched (may_spawn read_or_write) es ([], s0) = Some (Inr (ps, s))"
  shows "replay (map snd (history es ([], s0))) (srv s0) = Some (srv s) \<and>
    distinct (map fst (history es ([], s0))) \<and>
    (\<forall>i < length ps. \<forall>op v a.
       (ps ! i = Write op (W_done a) \<longrightarrow> (i, Wrote op a) \<in> set (history es ([], s0))) \<and>
       (ps ! i = Read op (R_done v a) \<longrightarrow> (i, Got op v a) \<in> set (history es ([], s0))))"
  using run_serial [OF serial_inv_idle [OF assms(1)] assms(2)] by fastforce

text \<open>A read holds the account while the first write waits for it; the second write is last.\<close>

definition contended_calls :: "goroutine sched list" where
  "contended_calls = [Spawn (Write (on_x ''DEPOSIT'' 4 8) W_enter), Spawn (Write (on_x ''DEPOSIT'' 2 9) W_enter),
     Spawn (Read (on_x ''BALANCE'' 0 4) R_enter)] @ replicate 4 (Step 2) @ replicate 3 (Step 0) @
     replicate 5 (Step 2) @ replicate 2 (Step 1) @ replicate 8 (Step 0) @ replicate 9 (Step 1)"

lemma contended_calls_run:
  "case runs bank_sched (may_spawn read_or_write) contended_calls ([], contended) of
     Some (Inr (ps, s)) \<Rightarrow> ps = [Write (on_x ''DEPOSIT'' 4 8) (W_done False),
       Write (on_x ''DEPOSIT'' 2 9) (W_done False), Read (on_x ''BALANCE'' 0 4) (R_done 10 False)]
   | _ \<Rightarrow> False"
  by code_simp

theorem reads_writes_serializable_witness:
  "\<exists>ps s. runs bank_sched (may_spawn read_or_write) contended_calls ([], contended) = Some (Inr (ps, s)) \<and>
     replay (map snd (history contended_calls ([], contended))) (srv contended) = Some (srv s) \<and>
     (2, Got (on_x ''BALANCE'' 0 4) 10 False) \<in> set (history contended_calls ([], contended))"
proof -
  obtain ps s where run: "runs bank_sched (may_spawn read_or_write) contended_calls ([], contended) = Some (Inr (ps, s))"
    and ps: "ps = [Write (on_x ''DEPOSIT'' 4 8) (W_done False),
       Write (on_x ''DEPOSIT'' 2 9) (W_done False), Read (on_x ''BALANCE'' 0 4) (R_done 10 False)]"
    using contended_calls_run by (auto split: option.splits sum.splits)
  have "2 < length ps" "ps ! 2 = Read (on_x ''BALANCE'' 0 4) (R_done 10 False)" using ps by simp_all
  with run reads_writes_serializable [OF contended_idle run] show ?thesis by blast
qed

end
