(* ===== verification/Spec2Isabelle.thy ===== *)
theory Spec2Isabelle
  imports RaftElecting NetProperties TesterProperties LabProperties BankSchedules BankCommit BankStartup BankSerial
begin

text \<open>
  A model of the Go programs of this repository and what could be proved of them: the Raft
  library of \<open>src/mp2\<close> with its simulated network and test configuration, and the
  distributed bank of \<open>src/mp3\<close>.

  \<^bold>\<open>The parts and how they interact.\<close>
  \<^item> A Raft peer (\<open>mp2/src/raft/raft.go\<close>) is a \<open>Raft\<close> struct under one mutex, a
    \<open>maintain\<close> goroutine that watches its timers, and goroutines that call other peers.
    It answers \<open>RequestVote\<close> and \<open>AppendEntries\<close>, takes commands by \<open>Start\<close> and
    delivers committed ones on a channel.
  \<^item> Calls go through \<open>labrpc\<close> (\<open>mp2/src/labrpc/labrpc.go\<close>), which routes, loses and
    delays them and dispatches them to a method, encoded by \<open>labgob\<close>
    (\<open>mp2/src/labgob/labgob.go\<close>), a wrapper of gob with warnings.
  \<^item> \<open>mp2/src/raft/config.go\<close> builds a group of peers on this network, connects and
    disconnects them, reads their channels, and checks leaders, terms and agreement.
  \<^item> The bank (\<open>mp3/server/server.go\<close>) has five branches, each with its accounts. A client
    (\<open>mp3/client/client.go\<close>) talks to one of them, the coordinator, which performs an
    operation or forwards it to the branch of the account, and commits in two phases. A branch
    orders transactions by timestamp.

  \<^bold>\<open>Conventions.\<close> Every theory imports \<open>Prelude\<close>: a Go function that may panic returns
  \<open>'a res\<close>, a sum with a \<open>go_error\<close>; one that may also never return is \<open>'a go\<close>, where
  \<open>None\<close> is not returning. Index and slice expressions (\<open>idx\<close>, \<open>upd\<close>,
  \<open>slice_from\<close>, \<open>slice_to\<close>) panic out of range as Go's do, \<open>for_res\<close> and
  \<open>for_go\<close> are range loops, and \<open>runs\<close> performs a list of events on a machine. The
  locales \<open>invariant_machine\<close>, \<open>safe_machine\<close> and \<open>monotone_machine\<close> state what an
  invariant, the absence of panics and a growing measure need of one step, and prove it of
  runs; the peer, the cluster, the configuration and the branch interpret them. A struct is a
  record with the source's field names (prefixed where two structs share one), a Go map is an
  association list (\<open>GoMaps\<close>; the locale \<open>go_map\<close> states its laws) whose order stands for
  the order in which \<open>range\<close> happens to enumerate it. Terms, indices and timestamps are
  integers, and so are the \<open>int32\<close> counters of votes (at most one for each peer) and of calls (which
  would wrap around after 2147483647 calls); amounts of money are 64-bit words. A critical section of a mutex is one
  definition, so the mutexes themselves are not values of the model, except in
  \<open>BankThreads\<close>.

  \<^bold>\<open>Raft.\<close>
  \<^item> \<open>RaftState\<close>: the struct, timers with their channel of capacity one, \<open>resetTimer\<close>,
    the role changes, \<open>applymsg\<close>, \<open>Make\<close>, \<open>Kill\<close>, \<open>GetState\<close>, and the
    invariant \<open>raft_ok\<close> of a peer. \<open>TurnLeader\<close> is split at its \<open>Unlock\<close>.
  \<^item> \<open>RaftElection\<close>: \<open>RequestVote\<close>, \<open>checkElectionTimeout\<close>, \<open>startElection\<close>,
    \<open>sendvote\<close>. \<open>RaftLog\<close>: \<open>AppendEntries\<close> by its numbered steps, \<open>Start\<close>, and
    the reference \<open>merge_entries\<close> that the scan for a conflict is proved equal to.
    \<open>RaftLeader\<close>: the heartbeat and its reply with the commit loop; quorums are a locale.
  \<^item> \<open>RaftNode\<close>: one running peer, an event for every critical section of every goroutine;
    \<open>RaftCluster\<close>: several peers, the goroutines of elections and heartbeats, and calls
    whose handler may run without the reply arriving.
  \<^item> \<open>RaftVoting\<close> and \<open>RaftSafety\<close>: the invariants behind one vote per term and election
    safety. The code counts stale votes and releases its lock before \<open>TurnLeader\<close>, so the
    cluster has two leaders of one term in some schedules; \<open>orderly\<close> excludes exactly
    these two races, and under it election safety holds in every run of any number of peers.
    \<open>RaftMatching\<close>: under the same condition the logs of peers match (equal terms at an index
    mean equal logs up to it) and the terms along a log are sorted; the set of all logs there
    have been, calls under way included, is the ghost state of its invariant.
  \<^item> \<open>RaftHistory\<close>: the history of a cluster (which terms had a leader, with which log, and who
    held which log when), what it is for entries to be chosen, and leader completeness as a
    fact about histories. \<open>RaftAgreement\<close>: the invariant that relates a cluster with its
    history, and the condition \<open>careful\<close> on schedules, which besides \<open>orderly\<close> excludes exactly
    two errors of the commit rule: a positive reply taken for more than it acknowledges, and the
    commit of an entry of an older term by counting. \<open>RaftBallots\<close> and \<open>RaftDelivery\<close> take the
    invariant through elections and through replication. \<open>RaftConsensus\<close>: state machine safety
    and leader completeness in every careful run of any number of peers; and a run in which only
    the commit of an older term is wrong, and agreement is lost. \<open>RaftRepair\<close>: heartbeats of a
    leader to one peer, answered one after the other, find the entry where the logs agree and
    give the peer the leader's log, in as many calls as \<open>nextIndex\<close> at most.
    \<open>RaftElecting\<close>: a peer whose timer goes off is elected when half of the peers answer.
  \<^item> \<open>RaftProperties\<close>: the handlers on every branch, with the messages they deliver, runs of a
    peer, the commit rule, when the two races give a term a second leader, a leader that is stuck,
    and schedules that lead to diverging commits and to a crash.

  \<^bold>\<open>Network and tests.\<close>
  \<^item> \<open>RpcNetwork\<close>: the \<open>Network\<close>, the life of a request in \<open>processReq\<close> as
    \<open>begin_request\<close>, \<open>await_reply\<close> (the polling loop on what it sees at each look) and
    \<open>end_request\<close>, and dispatch. The goroutine that dispatches a request to the server runs beside
    the polling loop, so its result is an input of \<open>await_reply\<close>; \<open>call_runs_method\<close> puts the two
    together. Random numbers are arguments, gob and \<open>reflect\<close>'s description of methods are
    parameters.
  \<^item> \<open>RaftConfig\<close> and \<open>RaftTester\<close>: \<open>config.go\<close>. The loops that sleep take the sequence
    of configurations they look at as an argument; \<open>checkOneLeader\<close> looks ten times
    (a look is one moment of all peers, where the code asks them one after the other),
    \<open>wait_poll\<close> has the 30 iterations of the code, \<open>one_rounds\<close> as many rounds as fit in
    ten seconds.
  \<^item> \<open>LabGob\<close>: types are indices into a table, so that recursive types are possible.
    \<open>checkType\<close> runs on fuel; \<open>checkType_reaches\<close> shows that more fuel than types always
    gives a result, the one that graph reachability describes.
  \<^item> \<open>NetProperties\<close>, \<open>TesterProperties\<close>, \<open>LabProperties\<close>: whose reply a caller gets,
    a call as the remote method, the matrix of end points, the apply reader fed by a peer, the
    leader check on an orderly cluster, what \<open>one\<close> guarantees, completeness of the type
    check.

  \<^bold>\<open>Bank.\<close>
  \<^item> \<open>GoStrings\<close>: \<open>strings\<close> and \<open>strconv\<close> on strings of 8-bit characters.
    \<open>BankState\<close>: the records, \<open>Init\<close>, \<open>FindMax\<close>. \<open>BankTxn\<close>: \<open>write\<close>
    (\<open>write_sv\<close>), \<open>DoAbort\<close>, \<open>CheckCommit\<close>, \<open>DoCommit\<close>, whose inner loop is a
    partial function since it may not end; the loops are also given in closed form.
    \<open>BankRead\<close>: \<open>read\<close>, where \<open>env t\<close> is the branch at the \<open>t\<close>th look of the
    waiting loop. \<open>BankLemmas\<close>: the invariant \<open>bank_ok\<close> and the effect of every
    operation. \<open>BankAtomicity\<close>: the abstract bank (balances) and the refinement.
  \<^item> \<open>BankServer\<close>: the message handlers and start-up; a step handles what one \<open>Read\<close>
    returned. \<open>BankProtocol\<close>: what they keep and which messages commit. \<open>BankMessages\<close>:
    the texts of messages; the locale \<open>codec\<close> states what a number in a message needs and is
    interpreted for timestamps and for amounts. \<open>BankClient\<close>: the client.
  \<^item> \<open>BankProperties\<close> (atomicity, the write rule, when abort and commit return),
    \<open>BankRules\<close> (reads), \<open>BankExchange\<close> (from a typed line to the second phase), \<open>BankSchedules\<close>
    (money counted twice, destroyed, overdrawn; lost messages).
  \<^item> \<open>BankVotes\<close>: what each handler does to the counter of votes and which messages of the
    two-phase commit it writes. \<open>BankSystem\<close>: the five branches joined by streams, where one
    \<open>Read\<close> returns one message and messages of a pair arrive in order; its invariant accounts
    for every question, vote and decision. \<open>BankCommit\<close>: nothing is committed that not all
    five branches have checked, and an undisturbed commit that they all can make is made by all.
    The first needs that no branch is asked twice to commit one transaction, since a second
    request starts the count of votes anew while votes for the first may still be under way.
    It starts from connected branches that have not sent anything yet (\<open>connected_system\<close>), the
    second from any state in which no message between branches is under way (\<open>idle_system\<close>).
    \<open>BankStartup\<close>: five branches started on the same configuration are connected branches; and
    what the messages that reach a started branch may do to its accounts.
  \<^item> \<open>Threads\<close>: goroutines over a shared state in any interleaving, the locales \<open>threads\<close>
    (an invariant of every goroutine) and \<open>ledger\<close> (the state of a lock is the number of its
    holders), and the mutexes of \<open>sync\<close>. \<open>BankThreads\<close>: \<open>write\<close>, \<open>read\<close>, \<open>CheckCommit\<close>,
    \<open>DoCommit\<close> and \<open>DoAbort\<close> of one branch as goroutines with their mutexes, a step being the
    code between two operations on a mutex. \<open>BankDeadlock\<close>: mutual exclusion, the deadlock of a
    read and a commit, the crash of a write after a commit. \<open>BankSerial\<close>: while nothing is
    committed or aborted, reads and writes do not panic or block for ever and are serializable,
    which is what allows the other theories to perform them one after the other.

  \<^bold>\<open>Not modelled.\<close> Durations and the fairness of goroutines, the long reordering delay of
  replies in \<open>labrpc\<close>; data races within a step of \<open>BankThreads\<close>, such as those of
  \<open>DoAbort\<close>, which takes no lock; the message handlers of one branch running at the same time
  around these operations, except that a waiting read lets others run;
  \<open>NewEncoder\<close> and \<open>NewDecoder\<close>, which only wrap gob; \<open>randstring\<close> and
  \<open>makeSeed\<close>, which only call \<open>crypto/rand\<close> (the names are arguments); the debug output of
  \<open>util.go\<close> and its unused \<open>Assert\<close>; the unused \<open>wait_response\<close> and
  \<open>handleServer\<close> of the client; progress messages that are only printed; the Python of
  \<open>mp0\<close> and \<open>mp1\<close>, tests, logs and scripts.
\<close>

end
